(* ===== verification/Prelude.thy ===== *)
theory Prelude
  imports Main "HOL-Library.Word"
begin

section \<open>Shared vocabulary of the development\<close>

text \<open>
  What every component theory uses: the machine integers of the Rust sources, runs of a
  state-passing operation over a list of calls, and three locales that state, once, how a
  fact about one call lifts to a whole history of calls.

  \<^item> \<open>usize\<close> and \<open>u64\<close> values that the code only counts with are natural numbers, with the
    saturation of \<^verbatim>\<open>saturating_add\<close> written out; counters that the code lets wrap
    (\<^verbatim>\<open>wrapping_add\<close>) are \<open>64 word\<close>.
  \<^item> \<open>Instant\<close> values are natural numbers (ticks of the monotonic clock). A call that reads
    the clock takes the value it reads as an argument.
\<close>

type_synonym instant = nat
type_synonym u64 = "64 word"

definition u64_max :: nat where
  "u64_max = 2 ^ 64 - 1"

definition sat_add :: "nat \<Rightarrow> nat \<Rightarrow> nat" where
  \<comment> \<open>\<^verbatim>\<open>saturating_add\<close> on 64-bit unsigned integers\<close>
  "sat_add a b = min (a + b) u64_max"

named_theorems run_simps \<open>unfolding of one call of a state-passing operation\<close>

lemma sat_add_le: "sat_add a b \<le> a + b"
  by (simp add: sat_add_def)

lemma sat_add_mono: "a \<le> u64_max \<Longrightarrow> a \<le> sat_add a b"
  by (simp add: sat_add_def)

lemma sat_add_bound [simp]: "sat_add a b \<le> u64_max"
  by (simp add: sat_add_def)

lemma sat_add_exact: "a + b \<le> u64_max \<Longrightarrow> sat_add a b = a + b"
  by (simp add: sat_add_def)

lemma unat_succ: "(x :: 'a :: len word) \<noteq> - 1 \<Longrightarrow> unat (x + 1) = Suc (unat x)"
  using unatSuc [of x] by (metis add.commute add_eq_0_iff)

lemma word_succ_neq [simp]: "(v::'a::len word) + 1 \<noteq> v" "v \<noteq> v + 1"
  by simp_all

text \<open>\<^verbatim>\<open>div_ceil\<close> on unsigned integers, and the decimal digits that formatting prints.\<close>

definition div_ceil :: "nat \<Rightarrow> nat \<Rightarrow> nat" where
  "div_ceil a b = (if a mod b = 0 then a div b else a div b + 1)"

lemma div_ceil_covers: "0 < b \<Longrightarrow> a \<le> div_ceil a b * b"
proof -
  assume b: "0 < b"
  have m: "a mod b < b" using b by simp
  have "a \<le> a div b * b + a mod b" by simp
  then have "a \<le> a div b * b + b" "a mod b = 0 \<Longrightarrow> a \<le> a div b * b" using m by linarith+
  then show ?thesis by (auto simp: div_ceil_def algebra_simps)
qed

lemma div_ceil_index: "0 < b \<Longrightarrow> i < a \<Longrightarrow> i div b < div_ceil a b"
  using div_ceil_covers [of b a] by (intro less_mult_imp_div_less) linarith

lemma div_ceil_tight: "0 < b \<Longrightarrow> div_ceil a b * b < a + b"
proof -
  assume b: "0 < b"
  have d: "b * (a div b) + a mod b = a" by (rule mult_div_mod_eq)
  show ?thesis
  proof (cases "a mod b = 0")
    case True
    then show ?thesis using b d by (simp add: div_ceil_def mult.commute)
  next
    case False
    then have "b * (a div b) < a" using d by linarith
    then show ?thesis using False by (simp add: div_ceil_def algebra_simps)
  qed
qed

fun decimal :: "nat \<Rightarrow> string" where
  "decimal n = (if n < 10 then [char_of (48 + n)] else decimal (n div 10) @ [char_of (48 + n mod 10)])"

declare decimal.simps [simp del]

subsection \<open>Runs of operations\<close>

text \<open>
  A component offers calls \<open>exec op\<close> that take its state and return an answer and the new
  state. A history is a list of calls, in the order in which the single owner of the state
  performs them.
\<close>

fun run_ops :: "('op \<Rightarrow> 's \<Rightarrow> 'out \<times> 's) \<Rightarrow> 'op list \<Rightarrow> 's \<Rightarrow> 'out list \<times> 's" where
  "run_ops exec [] s = ([], s)"
| "run_ops exec (c # cs) s =
     (let (r, s1) = exec c s; (rs, s2) = run_ops exec cs s1 in (r # rs, s2))"

lemma run_ops_length: "run_ops exec cs s = (rs, s') \<Longrightarrow> length rs = length cs"
  by (induction cs arbitrary: s rs) (auto split: prod.splits)

lemma run_ops_Cons:
  assumes "run_ops exec (c # cs) s = (rs, s')"
  obtains r s1 rs' where "exec c s = (r, s1)" "run_ops exec cs s1 = (rs', s')" "rs = r # rs'"
  using assms by (auto split: prod.splits)

lemma run_ops_append:
  "run_ops exec (cs @ ds) s =
     (let (rs, s1) = run_ops exec cs s; (rs', s2) = run_ops exec ds s1 in (rs @ rs', s2))"
  by (induction cs arbitrary: s) (auto split: prod.splits)

text \<open>Every call keeps an invariant.\<close>

locale step_system =
  fixes exec :: "'op \<Rightarrow> 's \<Rightarrow> 'out \<times> 's"
    and inv :: "'s \<Rightarrow> bool"
  assumes step_inv: "inv s \<Longrightarrow> inv (snd (exec c s))"
begin

lemma step_inv_eq: "inv s \<Longrightarrow> exec c s = (r, s') \<Longrightarrow> inv s'"
  using step_inv [of s c] by simp

lemma run_inv: "inv s \<Longrightarrow> run_ops exec cs s = (rs, s') \<Longrightarrow> inv s'"
proof (induction cs arbitrary: s rs)
  case Nil
  then show ?case by simp
next
  case (Cons c cs)
  from Cons.prems(2) obtain r s1 rs' where
    "exec c s = (r, s1)" "run_ops exec cs s1 = (rs', s')"
    by (rule run_ops_Cons)
  with Cons.prems(1) show ?case by (blast intro: Cons.IH step_inv_eq)
qed

end

text \<open>
  A call moves items: \<open>entered\<close> are the items a call puts in, \<open>left\<close> those it hands out, and
  \<open>held\<close> those the state holds, in order. If each call is balanced, then so is a history: no
  item is lost, duplicated or reordered. \<open>live\<close> restricts the claim to histories that have
  not yet reached a state from which items are deliberately abandoned.
\<close>

locale fifo_system = step_system exec inv
  for exec :: "'op \<Rightarrow> 's \<Rightarrow> 'out \<times> 's" and inv :: "'s \<Rightarrow> bool" +
  fixes live :: "'s \<Rightarrow> bool"
    and held :: "'s \<Rightarrow> 'x list"
    and entered :: "'op \<Rightarrow> 'out \<Rightarrow> 'x list"
    and left :: "'out \<Rightarrow> 'x list"
  assumes live_back: "exec c s = (r, s') \<Longrightarrow> live s' \<Longrightarrow> live s"
    and balance:
      "inv s \<Longrightarrow> exec c s = (r, s') \<Longrightarrow> live s' \<Longrightarrow> held s @ entered c r = left r @ held s'"
begin

lemma run_live_back: "run_ops exec cs s = (rs, s') \<Longrightarrow> live s' \<Longrightarrow> live s"
proof (induction cs arbitrary: s rs)
  case Nil
  then show ?case by simp
next
  case (Cons c cs)
  from Cons.prems(1) obtain r s1 rs' where
    "exec c s = (r, s1)" "run_ops exec cs s1 = (rs', s')"
    by (rule run_ops_Cons)
  with Cons.prems(2) show ?case by (blast intro: Cons.IH live_back)
qed

lemma run_balance:
  "inv s \<Longrightarrow> run_ops exec cs s = (rs, s') \<Longrightarrow> live s' \<Longrightarrow>
     held s @ concat (map2 entered cs rs) = concat (map left rs) @ held s'"
proof (induction cs arbitrary: s rs)
  case Nil
  then show ?case by simp
next
  case (Cons c cs)
  from Cons.prems(2) obtain r s1 rs' where
    ex: "exec c s = (r, s1)" and run: "run_ops exec cs s1 = (rs', s')" and rs: "rs = r # rs'"
    by (rule run_ops_Cons)
  from run Cons.prems(3) have "live s1" by (rule run_live_back)
  with Cons.prems(1) ex have "held s @ entered c r = left r @ held s1"
    by (rule balance)
  moreover from Cons.prems(1) ex have "inv s1" by (rule step_inv_eq)
  then have "held s1 @ concat (map2 entered cs rs') = concat (map left rs') @ held s'"
    using run Cons.prems(3) by (rule Cons.IH)
  ultimately show ?case
    by (simp add: rs) (metis append_assoc)
qed

end

text \<open>
  The same for quantities: what the state stores and what has been handed out always add up
  to what was put in.
\<close>

locale counting_system = step_system exec inv
  for exec :: "'op \<Rightarrow> 's \<Rightarrow> 'out \<times> 's" and inv :: "'s \<Rightarrow> bool" +
  fixes stored :: "'s \<Rightarrow> 'm :: comm_monoid_add"
    and gained :: "'op \<Rightarrow> 'out \<Rightarrow> 'm"
    and spent :: "'out \<Rightarrow> 'm"
  assumes conserve:
    "inv s \<Longrightarrow> exec c s = (r, s') \<Longrightarrow> stored s + gained c r = spent r + stored s'"
begin

lemma run_conserve:
  "inv s \<Longrightarrow> run_ops exec cs s = (rs, s') \<Longrightarrow>
     stored s + sum_list (map2 gained cs rs) = sum_list (map spent rs) + stored s'"
proof (induction cs arbitrary: s rs)
  case Nil
  then show ?case by simp
next
  case (Cons c cs)
  from Cons.prems(2) obtain r s1 rs' where
    ex: "exec c s = (r, s1)" and run: "run_ops exec cs s1 = (rs', s')" and rs: "rs = r # rs'"
    by (rule run_ops_Cons)
  from Cons.prems(1) ex have "stored s + gained c r = spent r + stored s1"
    by (rule conserve)
  moreover from Cons.prems(1) ex have "inv s1" by (rule step_inv_eq)
  then have "stored s1 + sum_list (map2 gained cs rs') = sum_list (map spent rs') + stored s'"
    using run by (rule Cons.IH)
  ultimately show ?case by (simp add: rs) (metis add.assoc)
qed

end

end
