(* ===== verification/Control_Types.thy ===== *)
theory Control_Types
  imports Prelude
begin

section \<open>Messages and configuration of the control channel\<close>

text \<open>
  The public types of \<^verbatim>\<open>crates/control-channel/src/types.rs\<close>. Type parameters: \<open>'p\<close> is
  \<^verbatim>\<open>PData\<close>, \<open>'m\<close> the completion metadata \<^verbatim>\<open>Meta\<close>, and \<open>'j\<close> the third-party
  \<^verbatim>\<open>serde_json::Value\<close> that configuration updates carry. Constructors that several Rust
  enums share carry a prefix for their enum.
\<close>

datatype phase = PhNormal | PhIngressDrainRecorded | PhShutdownRecorded

datatype admission_class = Backpressured | BestEffort

record control_channel_config =
  completion_msg_capacity :: nat
  completion_batch_max :: nat
  completion_burst_limit :: nat

definition default_config :: control_channel_config where
  "default_config =
     \<lparr>completion_msg_capacity = 256, completion_batch_max = 32, completion_burst_limit = 32\<rparr>"

datatype config_error =
    ZeroCompletionMsgCapacity
  | ZeroCompletionBatchMax
  | CompletionBatchMaxExceedsCapacity
  | ZeroCompletionBurstLimit

definition validate :: "control_channel_config \<Rightarrow> config_error + unit" where
  "validate c =
     (if completion_msg_capacity c = 0 then Inl ZeroCompletionMsgCapacity
      else if completion_batch_max c = 0 then Inl ZeroCompletionBatchMax
      else if completion_batch_max c > completion_msg_capacity c
        then Inl CompletionBatchMaxExceedsCapacity
      else if completion_burst_limit c = 0 then Inl ZeroCompletionBurstLimit
      else Inr ())"

record drain_ingress_msg =
  drain_deadline :: instant
  drain_reason :: string

record shutdown_msg =
  sd_deadline :: instant
  sd_reason :: string

record ('p, 'm) ack_msg =
  accepted :: 'p
  ack_meta :: 'm

record ('p, 'm) nack_msg =
  nack_reason :: string
  refused :: 'p
  nack_meta :: 'm
  permanent :: bool

definition ack_with_meta :: "'p \<Rightarrow> 'm \<Rightarrow> ('p, 'm) ack_msg" where
  "ack_with_meta a m = \<lparr>accepted = a, ack_meta = m\<rparr>"

definition ack_new :: "'p \<Rightarrow> ('p, unit) ack_msg" where
  "ack_new a = ack_with_meta a ()"

definition nack_new_internal :: "string \<Rightarrow> 'p \<Rightarrow> 'm \<Rightarrow> bool \<Rightarrow> ('p, 'm) nack_msg" where
  "nack_new_internal why x m perm =
     \<lparr>nack_reason = why, refused = x, nack_meta = m, permanent = perm\<rparr>"

definition nack_with_meta :: "string \<Rightarrow> 'p \<Rightarrow> 'm \<Rightarrow> ('p, 'm) nack_msg" where
  "nack_with_meta why x m = nack_new_internal why x m False"

definition nack_with_meta_permanent :: "string \<Rightarrow> 'p \<Rightarrow> 'm \<Rightarrow> ('p, 'm) nack_msg" where
  "nack_with_meta_permanent why x m = nack_new_internal why x m True"

definition nack_new :: "string \<Rightarrow> 'p \<Rightarrow> ('p, unit) nack_msg" where
  "nack_new why x = nack_with_meta why x ()"

definition nack_new_permanent :: "string \<Rightarrow> 'p \<Rightarrow> ('p, unit) nack_msg" where
  "nack_new_permanent why x = nack_with_meta_permanent why x ()"

datatype ('p, 'm) completion_msg =
    CompletionAck "('p, 'm) ack_msg"
  | CompletionNack "('p, 'm) nack_msg"

datatype ('p, 'm, 'j) control_cmd =
    CmdAck "('p, 'm) ack_msg"
  | CmdNack "('p, 'm) nack_msg"
  | CmdConfig 'j
  | CmdTimerTick
  | CmdCollectTelemetry

datatype ('p, 'm, 'j) core_control_event =
    DrainIngress drain_ingress_msg
  | CompletionBatch "('p, 'm) completion_msg list"
  | Config 'j
  | TimerTick
  | CollectTelemetry
  | Shutdown shutdown_msg

datatype ('p, 'm, 'j) receiver_control_event =
    RcvDrainIngress drain_ingress_msg
  | RcvCompletionBatch "('p, 'm) completion_msg list"
  | RcvConfig 'j
  | RcvTimerTick
  | RcvCollectTelemetry
  | RcvShutdown shutdown_msg

datatype ('p, 'm, 'j) node_control_event =
    NodeCompletionBatch "('p, 'm) completion_msg list"
  | NodeConfig 'j
  | NodeTimerTick
  | NodeCollectTelemetry
  | NodeShutdown shutdown_msg

fun receiver_from_core ::
  "('p, 'm, 'j) core_control_event \<Rightarrow> ('p, 'm, 'j) receiver_control_event" where
  "receiver_from_core (DrainIngress m) = RcvDrainIngress m"
| "receiver_from_core (CompletionBatch b) = RcvCompletionBatch b"
| "receiver_from_core (Config j) = RcvConfig j"
| "receiver_from_core TimerTick = RcvTimerTick"
| "receiver_from_core CollectTelemetry = RcvCollectTelemetry"
| "receiver_from_core (Shutdown m) = RcvShutdown m"

text \<open>\<^verbatim>\<open>NodeControlEvent::from_core\<close> panics on \<open>DrainIngress\<close>: \<open>None\<close> is the panic.\<close>

fun node_from_core ::
  "('p, 'm, 'j) core_control_event \<Rightarrow> ('p, 'm, 'j) node_control_event option" where
  "node_from_core (DrainIngress m) = None"
| "node_from_core (CompletionBatch b) = Some (NodeCompletionBatch b)"
| "node_from_core (Config j) = Some (NodeConfig j)"
| "node_from_core TimerTick = Some NodeTimerTick"
| "node_from_core CollectTelemetry = Some NodeCollectTelemetry"
| "node_from_core (Shutdown m) = Some (NodeShutdown m)"

datatype send_outcome = Accepted | Coalesced | Replaced | DroppedDuringDrain

datatype lifecycle_send_result = LcAccepted | LcAlreadyAccepted | LcClosed

datatype ('p, 'm, 'j) try_send_error =
    TrySendClosed "('p, 'm, 'j) control_cmd"
  | TrySendFull admission_class "('p, 'm, 'j) control_cmd"

datatype ('p, 'm, 'j) send_error = SendClosed "('p, 'm, 'j) control_cmd"

lemma validate_ok_iff:
  "validate c = Inr () \<longleftrightarrow>
     0 < completion_msg_capacity c \<and> 0 < completion_batch_max c \<and>
     completion_batch_max c \<le> completion_msg_capacity c \<and> 0 < completion_burst_limit c"
  by (auto simp: validate_def)

lemma default_config_valid: "validate default_config = Inr ()"
  by (simp add: validate_def default_config_def)

end
