(* ===== verification/Control_Core.thy ===== *)
theory Control_Core
  imports Control_Types
begin

section \<open>The queue core of the control channel\<close>

text \<open>
  The state machine \<^verbatim>\<open>Inner\<close> of \<^verbatim>\<open>crates/control-channel/src/core.rs\<close>: admission,
  coalescing, completion batching, bounded fairness and deadline-bounded shutdown. Every
  method that calls \<^verbatim>\<open>Instant::now()\<close> does so at most once; the model takes the instant it
  reads as the argument \<open>now\<close>.
\<close>

subsection \<open>State\<close>

datatype normal_event_class = NConfig | NTimerTick | NCollectTelemetry

fun next_class :: "normal_event_class \<Rightarrow> normal_event_class" where
  "next_class NConfig = NTimerTick"
| "next_class NTimerTick = NCollectTelemetry"
| "next_class NCollectTelemetry = NConfig"

record ('p, 'm, 'j) inner =
  ci_config :: control_channel_config
  ci_phase :: phase
  ci_closed :: bool
  version :: u64
  drain_ingress :: "drain_ingress_msg option"
  shutdown :: "shutdown_msg option"
  shutdown_deadline :: "instant option"
  drain_ingress_recorded :: bool
  shutdown_recorded :: bool
  shutdown_forced :: bool
  completion :: "('p, 'm) completion_msg list"
  latest_config :: "'j option"
  pending_timer_tick :: bool
  pending_collect_telemetry :: bool
  completion_burst_len :: nat
  completion_batch_emitted_total :: nat
  completion_message_emitted_total :: nat
  config_replaced_total :: nat
  timer_tick_coalesced_total :: nat
  collect_telemetry_coalesced_total :: nat
  normal_event_dropped_during_drain_total :: nat
  completion_abandoned_on_forced_shutdown_total :: nat
  next_normal_event :: normal_event_class

definition new_inner :: "control_channel_config \<Rightarrow> ('p, 'm, 'j) inner" where
  "new_inner c =
     \<lparr>ci_config = c, ci_phase = PhNormal, ci_closed = False, version = 0,
      drain_ingress = None, shutdown = None, shutdown_deadline = None,
      drain_ingress_recorded = False, shutdown_recorded = False, shutdown_forced = False,
      completion = [], latest_config = None, pending_timer_tick = False,
      pending_collect_telemetry = False, completion_burst_len = 0,
      completion_batch_emitted_total = 0, completion_message_emitted_total = 0,
      config_replaced_total = 0, timer_tick_coalesced_total = 0,
      collect_telemetry_coalesced_total = 0, normal_event_dropped_during_drain_total = 0,
      completion_abandoned_on_forced_shutdown_total = 0, next_normal_event = NConfig\<rparr>"

record control_channel_stats =
  st_phase :: phase
  st_drain_ingress_recorded :: bool
  st_shutdown_recorded :: bool
  has_pending_drain_ingress :: bool
  has_pending_shutdown :: bool
  completion_len :: nat
  has_pending_config :: bool
  has_pending_timer_tick :: bool
  has_pending_collect_telemetry :: bool
  st_completion_burst_len :: nat
  st_completion_batch_emitted_total :: nat
  st_completion_message_emitted_total :: nat
  st_config_replaced_total :: nat
  st_timer_tick_coalesced_total :: nat
  st_collect_telemetry_coalesced_total :: nat
  st_normal_event_dropped_during_drain_total :: nat
  st_completion_abandoned_on_forced_shutdown_total :: nat
  st_shutdown_forced :: bool
  st_closed :: bool

definition stats :: "('p, 'm, 'j) inner \<Rightarrow> control_channel_stats" where
  "stats s =
     \<lparr>st_phase = ci_phase s,
      st_drain_ingress_recorded = drain_ingress_recorded s,
      st_shutdown_recorded = shutdown_recorded s,
      has_pending_drain_ingress = (drain_ingress s \<noteq> None),
      has_pending_shutdown = (shutdown s \<noteq> None),
      completion_len = length (completion s),
      has_pending_config = (latest_config s \<noteq> None),
      has_pending_timer_tick = pending_timer_tick s,
      has_pending_collect_telemetry = pending_collect_telemetry s,
      st_completion_burst_len = completion_burst_len s,
      st_completion_batch_emitted_total = completion_batch_emitted_total s,
      st_completion_message_emitted_total = completion_message_emitted_total s,
      st_config_replaced_total = config_replaced_total s,
      st_timer_tick_coalesced_total = timer_tick_coalesced_total s,
      st_collect_telemetry_coalesced_total = collect_telemetry_coalesced_total s,
      st_normal_event_dropped_during_drain_total = normal_event_dropped_during_drain_total s,
      st_completion_abandoned_on_forced_shutdown_total =
        completion_abandoned_on_forced_shutdown_total s,
      st_shutdown_forced = shutdown_forced s,
      st_closed = ci_closed s\<rparr>"

subsection \<open>Admission\<close>

definition bump_version :: "('p, 'm, 'j) inner \<Rightarrow> ('p, 'm, 'j) inner" where
  "bump_version s = s\<lparr>version := version s + 1\<rparr>"

definition close :: "('p, 'm, 'j) inner \<Rightarrow> bool \<times> ('p, 'm, 'j) inner" where
  "close s = (if ci_closed s then (False, s) else (True, bump_version (s\<lparr>ci_closed := True\<rparr>)))"

definition next_deadline :: "('p, 'm, 'j) inner \<Rightarrow> instant option" where
  "next_deadline s =
     (if ci_closed s \<or> shutdown_forced s then None
      else if ci_phase s = PhShutdownRecorded then shutdown_deadline s
      else None)"

definition refresh_shutdown_force ::
  "instant \<Rightarrow> ('p, 'm, 'j) inner \<Rightarrow> ('p, 'm, 'j) inner" where
  "refresh_shutdown_force now s =
     (if shutdown_forced s \<or> ci_phase s \<noteq> PhShutdownRecorded then s
      else case shutdown_deadline s of
        Some deadline \<Rightarrow>
          if now \<ge> deadline then bump_version (s\<lparr>shutdown_forced := True\<rparr>) else s
      | None \<Rightarrow> s)"

definition push_completion ::
  "('p, 'm) completion_msg \<Rightarrow> ('p, 'm, 'j) inner \<Rightarrow> send_outcome \<times> ('p, 'm, 'j) inner" where
  "push_completion msg s =
     (Accepted, bump_version (s\<lparr>completion := completion s @ [msg]\<rparr>))"

definition drop_during_drain ::
  "('p, 'm, 'j) inner \<Rightarrow> send_outcome \<times> ('p, 'm, 'j) inner" where
  \<comment> \<open>the branch the three \<^verbatim>\<open>send_*\<close> methods share outside the normal phase\<close>
  "drop_during_drain s =
     (DroppedDuringDrain,
      s\<lparr>normal_event_dropped_during_drain_total :=
          sat_add (normal_event_dropped_during_drain_total s) 1\<rparr>)"

definition send_config ::
  "'j \<Rightarrow> ('p, 'm, 'j) inner \<Rightarrow> send_outcome \<times> ('p, 'm, 'j) inner" where
  "send_config j s =
     (if ci_phase s \<noteq> PhNormal then drop_during_drain s
      else if latest_config s \<noteq> None
        then (Replaced,
              bump_version (s\<lparr>config_replaced_total := sat_add (config_replaced_total s) 1,
                              latest_config := Some j\<rparr>))
      else (Accepted, bump_version (s\<lparr>latest_config := Some j\<rparr>)))"

definition send_timer_tick ::
  "('p, 'm, 'j) inner \<Rightarrow> send_outcome \<times> ('p, 'm, 'j) inner" where
  "send_timer_tick s =
     (if ci_phase s \<noteq> PhNormal then drop_during_drain s
      else if pending_timer_tick s
        then (Coalesced,
              s\<lparr>timer_tick_coalesced_total := sat_add (timer_tick_coalesced_total s) 1\<rparr>)
      else (Accepted, bump_version (s\<lparr>pending_timer_tick := True\<rparr>)))"

definition send_telemetry_tick ::
  "('p, 'm, 'j) inner \<Rightarrow> send_outcome \<times> ('p, 'm, 'j) inner" where
  "send_telemetry_tick s =
     (if ci_phase s \<noteq> PhNormal then drop_during_drain s
      else if pending_collect_telemetry s
        then (Coalesced,
              s\<lparr>collect_telemetry_coalesced_total :=
                  sat_add (collect_telemetry_coalesced_total s) 1\<rparr>)
      else (Accepted, bump_version (s\<lparr>pending_collect_telemetry := True\<rparr>)))"

type_synonym ('p, 'm, 'j) send_answer = "('p, 'm, 'j) try_send_error + send_outcome"

fun try_send_admitted ::
  "('p, 'm, 'j) control_cmd \<Rightarrow> ('p, 'm, 'j) inner \<Rightarrow> ('p, 'm, 'j) send_answer \<times> ('p, 'm, 'j) inner"
where
  \<comment> \<open>the \<^verbatim>\<open>match cmd\<close> of \<^verbatim>\<open>try_send\<close>\<close>
  "try_send_admitted (CmdAck ack) s =
     (if length (completion s) \<ge> completion_msg_capacity (ci_config s)
      then (Inl (TrySendFull Backpressured (CmdAck ack)), s)
      else map_prod Inr id (push_completion (CompletionAck ack) s))"
| "try_send_admitted (CmdNack nack) s =
     (if length (completion s) \<ge> completion_msg_capacity (ci_config s)
      then (Inl (TrySendFull Backpressured (CmdNack nack)), s)
      else map_prod Inr id (push_completion (CompletionNack nack) s))"
| "try_send_admitted (CmdConfig j) s = map_prod Inr id (send_config j s)"
| "try_send_admitted CmdTimerTick s = map_prod Inr id (send_timer_tick s)"
| "try_send_admitted CmdCollectTelemetry s = map_prod Inr id (send_telemetry_tick s)"

definition try_send ::
  "instant \<Rightarrow> ('p, 'm, 'j) control_cmd \<Rightarrow> ('p, 'm, 'j) inner
    \<Rightarrow> ('p, 'm, 'j) send_answer \<times> ('p, 'm, 'j) inner" where
  "try_send now cmd s0 =
     (let s = (if ci_phase s0 = PhShutdownRecorded then refresh_shutdown_force now s0 else s0)
      in if ci_closed s \<or> shutdown_forced s then (Inl (TrySendClosed cmd), s)
         else try_send_admitted cmd s)"

definition clear_normal_pending :: "('p, 'm, 'j) inner \<Rightarrow> ('p, 'm, 'j) inner" where
  "clear_normal_pending s =
     s\<lparr>latest_config := None, pending_timer_tick := False,
       pending_collect_telemetry := False, completion_burst_len := 0\<rparr>"

definition record_drain_ingress ::
  "instant \<Rightarrow> drain_ingress_msg \<Rightarrow> ('p, 'm, 'j) inner
    \<Rightarrow> lifecycle_send_result \<times> ('p, 'm, 'j) inner" where
  "record_drain_ingress now msg s0 =
     (let s = (if ci_phase s0 = PhShutdownRecorded then refresh_shutdown_force now s0 else s0)
      in if ci_closed s then (LcClosed, s)
         else if drain_ingress_recorded s then (LcAlreadyAccepted, s)
         else if shutdown_forced s then (LcClosed, s)
         else
           let s1 = (clear_normal_pending s)
                      \<lparr>drain_ingress := Some msg, drain_ingress_recorded := True\<rparr>;
               s2 = (if ci_phase s1 = PhNormal
                     then s1\<lparr>ci_phase := PhIngressDrainRecorded\<rparr> else s1)
           in (LcAccepted, bump_version s2))"

definition record_shutdown ::
  "instant \<Rightarrow> shutdown_msg \<Rightarrow> ('p, 'm, 'j) inner
    \<Rightarrow> lifecycle_send_result \<times> ('p, 'm, 'j) inner" where
  "record_shutdown now msg s =
     (if ci_closed s then (LcClosed, s)
      else if shutdown_recorded s then (LcAlreadyAccepted, s)
      else
        let s1 = (clear_normal_pending s)
                   \<lparr>shutdown_deadline := Some (sd_deadline msg), shutdown := Some msg,
                    shutdown_recorded := True, ci_phase := PhShutdownRecorded\<rparr>
        in (LcAccepted, bump_version (refresh_shutdown_force now s1)))"

subsection \<open>Delivery\<close>

definition has_pending_normal_event :: "('p, 'm, 'j) inner \<Rightarrow> bool" where
  "has_pending_normal_event s \<longleftrightarrow>
     latest_config s \<noteq> None \<or> pending_timer_tick s \<or> pending_collect_telemetry s"

fun take_class ::
  "normal_event_class \<Rightarrow> ('p, 'm, 'j) inner
    \<Rightarrow> ('p, 'm, 'j) core_control_event option \<times> ('p, 'm, 'j) inner" where
  \<comment> \<open>the \<^verbatim>\<open>match candidate\<close> of \<^verbatim>\<open>take_next_normal_event\<close>\<close>
  "take_class NConfig s = (map_option Config (latest_config s), s\<lparr>latest_config := None\<rparr>)"
| "take_class NTimerTick s =
     (if pending_timer_tick s then (Some TimerTick, s\<lparr>pending_timer_tick := False\<rparr>)
      else (None, s))"
| "take_class NCollectTelemetry s =
     (if pending_collect_telemetry s
      then (Some CollectTelemetry, s\<lparr>pending_collect_telemetry := False\<rparr>)
      else (None, s))"

fun take_next_normal_loop ::
  "nat \<Rightarrow> ('p, 'm, 'j) inner
    \<Rightarrow> ('p, 'm, 'j) core_control_event option \<times> ('p, 'm, 'j) inner" where
  "take_next_normal_loop 0 s = (None, s)"
| "take_next_normal_loop (Suc n) s =
     (let candidate = next_normal_event s;
          (ev, s1) = take_class candidate (s\<lparr>next_normal_event := next_class candidate\<rparr>)
      in case ev of
           Some e \<Rightarrow> (Some e, bump_version (s1\<lparr>completion_burst_len := 0\<rparr>))
         | None \<Rightarrow> take_next_normal_loop n s1)"

definition take_next_normal_event ::
  "('p, 'm, 'j) inner \<Rightarrow> ('p, 'm, 'j) core_control_event option \<times> ('p, 'm, 'j) inner" where
  "take_next_normal_event s = take_next_normal_loop 3 s"

definition batch_len :: "nat option \<Rightarrow> ('p, 'm, 'j) inner \<Rightarrow> nat" where
  "batch_len fairness_budget s =
     (let n = min (length (completion s)) (completion_batch_max (ci_config s))
      in case fairness_budget of None \<Rightarrow> n | Some limit \<Rightarrow> min n (max limit 1))"

definition take_completion_batch ::
  "nat option \<Rightarrow> ('p, 'm, 'j) inner
    \<Rightarrow> ('p, 'm, 'j) core_control_event \<times> ('p, 'm, 'j) inner" where
  "take_completion_batch fairness_budget s =
     (let n = batch_len fairness_budget s
      in (CompletionBatch (take n (completion s)),
          bump_version
            (s\<lparr>completion := drop n (completion s),
               completion_burst_len := sat_add (completion_burst_len s) n,
               completion_batch_emitted_total := sat_add (completion_batch_emitted_total s) 1,
               completion_message_emitted_total :=
                 sat_add (completion_message_emitted_total s) n\<rparr>)))"

definition finalize_shutdown ::
  "bool \<Rightarrow> ('p, 'm, 'j) inner
    \<Rightarrow> ('p, 'm, 'j) core_control_event option \<times> ('p, 'm, 'j) inner" where
  "finalize_shutdown forced s =
     (case shutdown s of
        None \<Rightarrow> (None, s)
      | Some msg \<Rightarrow>
          let s0 = s\<lparr>shutdown := None\<rparr>;
              s1 = (if forced
                    then s0\<lparr>completion_abandoned_on_forced_shutdown_total :=
                              sat_add (completion_abandoned_on_forced_shutdown_total s0)
                                (length (completion s0)),
                            completion := []\<rparr>
                    else s0)
          in (Some (Shutdown msg),
              bump_version ((clear_normal_pending s1)
                              \<lparr>shutdown_deadline := None, ci_closed := True\<rparr>)))"

definition pop_normal_phase ::
  "('p, 'm, 'j) inner \<Rightarrow> ('p, 'm, 'j) core_control_event option \<times> ('p, 'm, 'j) inner" where
  \<comment> \<open>the part of \<^verbatim>\<open>pop_event\<close> after the \<^verbatim>\<open>match self.phase\<close>\<close>
  "pop_normal_phase s =
     (if \<not> has_pending_normal_event s then
        (if completion s \<noteq> [] then map_prod Some id (take_completion_batch None s)
         else (None, s))
      else
        let (ev, s1) =
              (if completion_burst_len s \<ge> completion_burst_limit (ci_config s)
               then take_next_normal_event s else (None, s))
        in case ev of
             Some e \<Rightarrow> (Some e, s1)
           | None \<Rightarrow>
               if completion s1 \<noteq> []
               then map_prod Some id
                      (take_completion_batch
                         (Some (completion_burst_limit (ci_config s1) - completion_burst_len s1))
                         s1)
               else take_next_normal_event s1)"

definition pop_event ::
  "instant \<Rightarrow> ('p, 'm, 'j) inner
    \<Rightarrow> ('p, 'm, 'j) core_control_event option \<times> ('p, 'm, 'j) inner" where
  "pop_event now s0 =
     (let s = (if ci_phase s0 = PhShutdownRecorded then refresh_shutdown_force now s0 else s0)
      in case drain_ingress s of
           Some msg \<Rightarrow>
             (Some (DrainIngress msg),
              bump_version (s\<lparr>drain_ingress := None, completion_burst_len := 0\<rparr>))
         | None \<Rightarrow>
             (case ci_phase s of
                PhShutdownRecorded \<Rightarrow>
                  if shutdown_forced s then finalize_shutdown True s
                  else if completion s \<noteq> []
                    then map_prod Some id (take_completion_batch None s)
                  else finalize_shutdown False s
              | PhIngressDrainRecorded \<Rightarrow>
                  if completion s \<noteq> [] then map_prod Some id (take_completion_batch None s)
                  else (None, s)
              | PhNormal \<Rightarrow> pop_normal_phase s))"

end
