(* ===== verification/Control_Core_Laws.thy ===== *)
theory Control_Core_Laws
  imports Control_Core
begin

section \<open>Laws of the control-channel queue core\<close>

text \<open>
  The invariant of \<open>inner\<close> and that every call keeps it; calls as data, so that a history is
  a list of calls; and the guarantees the comments of \<^verbatim>\<open>core.rs\<close> promise.
\<close>

subsection \<open>The invariant\<close>


lemmas admission_defs = push_completion_def drop_during_drain_def send_config_def
  send_timer_tick_def send_telemetry_tick_def bump_version_def

lemma refresh_guard [simp]:
  "(if ci_phase s = PhShutdownRecorded then refresh_shutdown_force now s else s) =
     refresh_shutdown_force now s"
  by (simp add: refresh_shutdown_force_def)

lemmas delivery_defs = finalize_shutdown_def take_completion_batch_def
  clear_normal_pending_def bump_version_def

definition config_wf :: "control_channel_config \<Rightarrow> bool" where
  \<comment> \<open>accepted by \<^verbatim>\<open>validate\<close>, and every field a \<^verbatim>\<open>usize\<close>\<close>
  "config_wf c \<longleftrightarrow>
     validate c = Inr () \<and> completion_msg_capacity c \<le> u64_max \<and>
     completion_burst_limit c \<le> u64_max"

definition core_inv :: "('p, 'm, 'j) inner \<Rightarrow> bool" where
  "core_inv s \<longleftrightarrow>
     config_wf (ci_config s) \<and>
     length (completion s) \<le> completion_msg_capacity (ci_config s) \<and>
     (ci_phase s \<noteq> PhNormal \<longrightarrow> \<not> has_pending_normal_event s) \<and>
     (shutdown_recorded s \<longleftrightarrow> ci_phase s = PhShutdownRecorded) \<and>
     (ci_phase s = PhIngressDrainRecorded \<longrightarrow> drain_ingress_recorded s) \<and>
     (ci_phase s = PhNormal \<longrightarrow> \<not> drain_ingress_recorded s) \<and>
     (drain_ingress s \<noteq> None \<longrightarrow> drain_ingress_recorded s) \<and>
     (\<forall>m. shutdown s = Some m \<longrightarrow>
        shutdown_recorded s \<and> shutdown_deadline s = Some (sd_deadline m)) \<and>
     (shutdown_recorded s \<and> shutdown s = None \<longrightarrow>
        ci_closed s \<and> completion s = [] \<and> drain_ingress s = None \<and> shutdown_deadline s = None) \<and>
     (shutdown_forced s \<longrightarrow> shutdown_recorded s) \<and>
     (completion_abandoned_on_forced_shutdown_total s \<noteq> 0 \<longrightarrow>
        shutdown_forced s \<and> shutdown s = None)"

lemma core_inv_new: "config_wf c \<Longrightarrow> core_inv (new_inner c)"
  by (simp add: core_inv_def new_inner_def has_pending_normal_event_def)

lemma core_inv_bump [simp]: "core_inv (bump_version s) = core_inv s"
  by (simp add: core_inv_def bump_version_def has_pending_normal_event_def)

lemma core_inv_close: "core_inv s \<Longrightarrow> core_inv (snd (close s))"
  by (auto simp: core_inv_def close_def bump_version_def has_pending_normal_event_def)

lemma core_inv_refresh: "core_inv s \<Longrightarrow> core_inv (refresh_shutdown_force now s)"
  by (auto simp: core_inv_def refresh_shutdown_force_def has_pending_normal_event_def bump_version_def
      split: option.splits)

lemma core_inv_try_send_admitted:
  "core_inv s \<Longrightarrow> \<not> ci_closed s \<Longrightarrow> core_inv (snd (try_send_admitted cmd s))"
  by (cases cmd) (auto simp: core_inv_def admission_defs has_pending_normal_event_def)

lemma core_inv_try_send: "core_inv s \<Longrightarrow> core_inv (snd (try_send now cmd s))"
  by (auto simp: try_send_def Let_def intro: core_inv_refresh core_inv_try_send_admitted)

lemma core_inv_record_drain: "core_inv s \<Longrightarrow> core_inv (snd (record_drain_ingress now msg s))"
proof -
  assume inv: "core_inv s"
  define t where "t = refresh_shutdown_force now s"
  from inv have "core_inv t" by (simp add: t_def core_inv_refresh)
  then show ?thesis
    unfolding record_drain_ingress_def refresh_guard unfolding t_def [symmetric]
    by (cases "ci_phase t"; clarsimp simp: Let_def core_inv_def clear_normal_pending_def
        has_pending_normal_event_def bump_version_def; auto)
qed

lemma core_inv_record_shutdown: "core_inv s \<Longrightarrow> core_inv (snd (record_shutdown now msg s))"
proof (cases "ci_closed s \<or> shutdown_recorded s")
  case True
  assume "core_inv s"
  with True show ?thesis by (auto simp: record_shutdown_def)
next
  case False
  assume inv: "core_inv s"
  define t where "t = (clear_normal_pending s)
     \<lparr>shutdown_deadline := Some (sd_deadline msg), shutdown := Some msg,
      shutdown_recorded := True, ci_phase := PhShutdownRecorded\<rparr>"
  from inv False have "core_inv t"
    by (clarsimp simp: t_def core_inv_def clear_normal_pending_def has_pending_normal_event_def)
  then have "core_inv (refresh_shutdown_force now t)" by (rule core_inv_refresh)
  with False show ?thesis
    by (simp add: record_shutdown_def Let_def t_def [symmetric])
qed

lemma core_inv_batch: "core_inv s \<Longrightarrow> completion s \<noteq> [] \<Longrightarrow> core_inv (snd (take_completion_batch b s))"
  by (auto simp: core_inv_def take_completion_batch_def Let_def bump_version_def has_pending_normal_event_def)

lemma core_inv_normal_loop:
  "core_inv s \<Longrightarrow> core_inv (snd (take_next_normal_loop n s))"
proof (induction n arbitrary: s)
  case 0 then show ?case by simp
next
  case (Suc n)
  define s1 where "s1 = snd (take_class (next_normal_event s)
     (s\<lparr>next_normal_event := next_class (next_normal_event s)\<rparr>))"
  have "core_inv s1" "core_inv (s1\<lparr>completion_burst_len := 0\<rparr>)"
    using Suc.prems by (cases "next_normal_event s";
      auto simp: s1_def core_inv_def has_pending_normal_event_def)+
  then show ?case using Suc.IH [of s1]
    by (auto simp: Let_def s1_def split: prod.splits option.splits)
qed

lemma core_inv_finalize:
  "core_inv s \<Longrightarrow> drain_ingress s = None \<Longrightarrow>
   (if forced then shutdown_forced s else completion s = []) \<Longrightarrow>
   core_inv (snd (finalize_shutdown forced s))"
  by (auto simp: core_inv_def delivery_defs Let_def has_pending_normal_event_def split: option.splits)


lemma take_next_normal_event_pending:
  assumes "has_pending_normal_event s"
  shows "\<exists>e s'. take_next_normal_event s = (Some e, s')"
  using assms
  by (cases "next_normal_event s")
    (auto simp: take_next_normal_event_def numeral_3_eq_3 Let_def has_pending_normal_event_def
      split: option.splits)

lemma core_inv_pop_normal: "core_inv s \<Longrightarrow> core_inv (snd (pop_normal_phase s))"
  using take_next_normal_event_pending [of s] core_inv_normal_loop [of s 3] 
  by (auto simp: pop_normal_phase_def take_next_normal_event_def Let_def core_inv_batch
      split: prod.splits option.splits)

lemma core_inv_pop: "core_inv s \<Longrightarrow> core_inv (snd (pop_event now s))"
proof -
  assume inv: "core_inv s"
  define t where "t = refresh_shutdown_force now s"
  from inv have t: "core_inv t" by (simp add: t_def core_inv_refresh)
  then have d: "core_inv (t\<lparr>drain_ingress := None, completion_burst_len := 0\<rparr>)"
    by (auto simp: core_inv_def has_pending_normal_event_def)
  show ?thesis using t d
    unfolding pop_event_def refresh_guard unfolding t_def [symmetric]
    by (auto simp: Let_def core_inv_finalize core_inv_batch core_inv_pop_normal
        split: option.splits phase.splits)
qed

subsection \<open>Histories of calls\<close>

datatype ('p, 'm, 'j) core_op =
    OpTrySend instant "('p, 'm, 'j) control_cmd"
  | OpDrain instant drain_ingress_msg
  | OpShutdown instant shutdown_msg
  | OpPop instant
  | OpClose

datatype ('p, 'm, 'j) core_answer =
    AnsSend "('p, 'm, 'j) send_answer"
  | AnsLifecycle lifecycle_send_result
  | AnsPop "('p, 'm, 'j) core_control_event option"
  | AnsClose bool

fun exec_core ::
  "('p, 'm, 'j) core_op \<Rightarrow> ('p, 'm, 'j) inner \<Rightarrow> ('p, 'm, 'j) core_answer \<times> ('p, 'm, 'j) inner"
where
  "exec_core (OpTrySend now cmd) s = map_prod AnsSend id (try_send now cmd s)"
| "exec_core (OpDrain now msg) s = map_prod AnsLifecycle id (record_drain_ingress now msg s)"
| "exec_core (OpShutdown now msg) s = map_prod AnsLifecycle id (record_shutdown now msg s)"
| "exec_core (OpPop now) s = map_prod AnsPop id (pop_event now s)"
| "exec_core OpClose s = map_prod AnsClose id (close s)"

lemma core_inv_exec: "core_inv s \<Longrightarrow> core_inv (snd (exec_core op s))"
  by (cases op) (auto simp: core_inv_try_send core_inv_record_drain core_inv_record_shutdown
      core_inv_pop core_inv_close)

interpretation core: step_system exec_core core_inv
  by unfold_locales (rule core_inv_exec)

fun accepted_by :: "('p, 'm, 'j) core_op \<Rightarrow> ('p, 'm, 'j) core_answer \<Rightarrow> ('p, 'm) completion_msg list"
where
  "accepted_by (OpTrySend now (CmdAck a)) (AnsSend (Inr _)) = [CompletionAck a]"
| "accepted_by (OpTrySend now (CmdNack a)) (AnsSend (Inr _)) = [CompletionNack a]"
| "accepted_by _ _ = []"

fun delivered_by :: "('p, 'm, 'j) core_answer \<Rightarrow> ('p, 'm) completion_msg list" where
  "delivered_by (AnsPop (Some (CompletionBatch b))) = b"
| "delivered_by _ = []"

lemma forced_refresh: "shutdown_forced s \<Longrightarrow> refresh_shutdown_force now s = s"
  by (simp add: refresh_shutdown_force_def)

lemma refresh_simps [simp]:
  "completion (refresh_shutdown_force now s) = completion s"
  "drain_ingress (refresh_shutdown_force now s) = drain_ingress s"
  "shutdown (refresh_shutdown_force now s) = shutdown s"
  "ci_phase (refresh_shutdown_force now s) = ci_phase s"
  "ci_closed (refresh_shutdown_force now s) = ci_closed s"
  "ci_config (refresh_shutdown_force now s) = ci_config s"
  "drain_ingress_recorded (refresh_shutdown_force now s) = drain_ingress_recorded s"
  "shutdown_recorded (refresh_shutdown_force now s) = shutdown_recorded s"
  "shutdown_deadline (refresh_shutdown_force now s) = shutdown_deadline s"
  "completion_abandoned_on_forced_shutdown_total (refresh_shutdown_force now s) =
     completion_abandoned_on_forced_shutdown_total s"
  by (auto simp: refresh_shutdown_force_def bump_version_def split: option.splits)

lemma normal_loop_frame:
  "completion (snd (take_next_normal_loop n s)) = completion s \<and>
   shutdown_forced (snd (take_next_normal_loop n s)) = shutdown_forced s \<and>
   shutdown (snd (take_next_normal_loop n s)) = shutdown s \<and>
   ci_phase (snd (take_next_normal_loop n s)) = ci_phase s \<and>
   ci_config (snd (take_next_normal_loop n s)) = ci_config s"
proof (induction n arbitrary: s)
  case 0 then show ?case by simp
next
  case (Suc n)
  then show ?case 
    by (cases "next_normal_event s") (simp_all add: Let_def bump_version_def split: option.splits)
qed

lemma bump_simps [simp]:
  "completion (bump_version s) = completion s"
  "drain_ingress (bump_version s) = drain_ingress s"
  "shutdown (bump_version s) = shutdown s"
  "ci_phase (bump_version s) = ci_phase s"
  "ci_closed (bump_version s) = ci_closed s"
  "ci_config (bump_version s) = ci_config s"
  "shutdown_forced (bump_version s) = shutdown_forced s"
  "completion_burst_len (bump_version s) = completion_burst_len s"
  "version (bump_version s) = version s + 1"
  "has_pending_normal_event (bump_version s) = has_pending_normal_event s"
  by (simp_all add: bump_version_def has_pending_normal_event_def)

lemma normal_loop_event:
  "fst (take_next_normal_loop n s) = Some e \<Longrightarrow> e \<in> range Config \<union> {TimerTick, CollectTelemetry}"
proof (induction n arbitrary: s)
  case 0 then show ?case by simp
next
  case (Suc n)
  then show ?case 
    by (cases "next_normal_event s") (auto simp: Let_def  split: option.splits if_splits)
qed

subsection \<open>Normal forms of delivery\<close>

lemma config_wf_pos:
  "config_wf c \<Longrightarrow>
     0 < completion_batch_max c \<and> 0 < completion_burst_limit c \<and> 0 < completion_msg_capacity c"
  by (simp add: config_wf_def validate_ok_iff)

lemma batch_len_le: "batch_len b s \<le> length (completion s)"
  by (auto simp: batch_len_def Let_def split: option.splits)

lemma batch_len_budget: "batch_len (Some n) s \<le> max n 1"
  by (simp add: batch_len_def Let_def)

lemma batch_len_pos: "core_inv s \<Longrightarrow> completion s \<noteq> [] \<Longrightarrow> 0 < batch_len b s"
  by (auto simp: batch_len_def Let_def core_inv_def dest!: config_wf_pos split: option.splits)

lemma batch_len_refresh [simp]: "batch_len b (refresh_shutdown_force now s) = batch_len b s"
  by (simp add: batch_len_def)

lemma batch_simps [simp]:
  "fst (take_completion_batch b s) = CompletionBatch (take (batch_len b s) (completion s))"
  "completion (snd (take_completion_batch b s)) = drop (batch_len b s) (completion s)"
  "shutdown_forced (snd (take_completion_batch b s)) = shutdown_forced s"
  "shutdown (snd (take_completion_batch b s)) = shutdown s"
  "drain_ingress (snd (take_completion_batch b s)) = drain_ingress s"
  "ci_phase (snd (take_completion_batch b s)) = ci_phase s"
  "ci_closed (snd (take_completion_batch b s)) = ci_closed s"
  "ci_config (snd (take_completion_batch b s)) = ci_config s"
  "version (snd (take_completion_batch b s)) = version s + 1"
  "completion_abandoned_on_forced_shutdown_total (snd (take_completion_batch b s)) =
     completion_abandoned_on_forced_shutdown_total s"
  "completion_burst_len (snd (take_completion_batch b s)) =
     sat_add (completion_burst_len s) (batch_len b s)"
  "has_pending_normal_event (snd (take_completion_batch b s)) = has_pending_normal_event s"
  by (simp_all add: take_completion_batch_def Let_def bump_version_def has_pending_normal_event_def)

lemma map_prod_batch:
  "map_prod Some id (take_completion_batch b s) =
     (Some (CompletionBatch (take (batch_len b s) (completion s))), snd (take_completion_batch b s))"
  by (cases "take_completion_batch b s") (use batch_simps(1) [of b s] in simp)

lemma refresh_normal: "ci_phase s \<noteq> PhShutdownRecorded \<Longrightarrow> refresh_shutdown_force now s = s"
  by (simp add: refresh_shutdown_force_def)

lemma pop_event_eq:
  "pop_event now s =
     (case drain_ingress s of
        Some msg \<Rightarrow>
          (Some (DrainIngress msg),
           bump_version ((refresh_shutdown_force now s)
             \<lparr>drain_ingress := None, completion_burst_len := 0\<rparr>))
      | None \<Rightarrow>
          if ci_phase s = PhShutdownRecorded then
            (if shutdown_forced (refresh_shutdown_force now s)
             then finalize_shutdown True (refresh_shutdown_force now s)
             else if completion s \<noteq> []
             then map_prod Some id (take_completion_batch None (refresh_shutdown_force now s))
             else finalize_shutdown False (refresh_shutdown_force now s))
          else if ci_phase s = PhIngressDrainRecorded then
            (if completion s \<noteq> [] then map_prod Some id (take_completion_batch None s)
             else (None, s))
          else pop_normal_phase s)"
  unfolding pop_event_def refresh_guard Let_def
  by (cases "ci_phase s") (simp_all add: refresh_normal split: option.split)

lemma pop_normal_phase_eq:
  "pop_normal_phase s =
     (if has_pending_normal_event s then
        (if completion s = [] \<or> completion_burst_limit (ci_config s) \<le> completion_burst_len s
         then take_next_normal_event s
         else map_prod Some id
                (take_completion_batch
                   (Some (completion_burst_limit (ci_config s) - completion_burst_len s)) s))
      else if completion s \<noteq> [] then map_prod Some id (take_completion_batch None s)
      else (None, s))"
proof (cases "has_pending_normal_event s")
  case True
  then obtain e t where "take_next_normal_event s = (Some e, t)"
    using take_next_normal_event_pending by blast
  with True show ?thesis by (simp add: pop_normal_phase_def)
qed (simp add: pop_normal_phase_def)

lemma pop_event_form:
  obtains
    (drain) m where "drain_ingress s = Some m"
      "pop_event now s = (Some (DrainIngress m),
         bump_version ((refresh_shutdown_force now s)
           \<lparr>drain_ingress := None, completion_burst_len := 0\<rparr>))"
  | (batch) b where "drain_ingress s = None" "completion s \<noteq> []"
      "ci_phase s = PhShutdownRecorded \<longrightarrow> \<not> shutdown_forced (refresh_shutdown_force now s)"
      "ci_phase s = PhNormal \<and> has_pending_normal_event s \<longrightarrow>
         completion_burst_len s < completion_burst_limit (ci_config s) \<and>
         b = Some (completion_burst_limit (ci_config s) - completion_burst_len s)"
      "pop_event now s = map_prod Some id (take_completion_batch b (refresh_shutdown_force now s))"
  | (fin) f where "drain_ingress s = None" "ci_phase s = PhShutdownRecorded"
      "f = shutdown_forced (refresh_shutdown_force now s)" "f \<or> completion s = []"
      "pop_event now s = finalize_shutdown f (refresh_shutdown_force now s)"
  | (normal) "drain_ingress s = None" "ci_phase s = PhNormal" "has_pending_normal_event s"
      "completion s = [] \<or> completion_burst_limit (ci_config s) \<le> completion_burst_len s"
      "pop_event now s = take_next_normal_event s"
  | (none) "drain_ingress s = None" "ci_phase s \<noteq> PhShutdownRecorded" "completion s = []"
      "ci_phase s = PhNormal \<longrightarrow> \<not> has_pending_normal_event s"
      "pop_event now s = (None, s)"
proof (cases "drain_ingress s")
  case (Some m)
  then show thesis by (intro drain) (simp_all add: pop_event_eq)
next
  case None
  show thesis
  proof (cases "ci_phase s")
    case PhNormal
    show thesis
    proof (cases "has_pending_normal_event s \<and>
        (completion s = [] \<or> completion_burst_limit (ci_config s) \<le> completion_burst_len s)")
      case True
      with None PhNormal show thesis by (intro normal) (auto simp: pop_event_eq pop_normal_phase_eq)
    next
      case False
      show thesis
      proof (cases "completion s = []")
        case True
        with False None PhNormal show thesis by (intro none) (auto simp: pop_event_eq pop_normal_phase_eq)
      next
        case ne: False
        define b where "b = (if has_pending_normal_event s then
          Some (completion_burst_limit (ci_config s) - completion_burst_len s) else None)"
        from ne False None PhNormal show thesis
          by (intro batch [of b]) (auto simp: pop_event_eq pop_normal_phase_eq b_def refresh_normal)
      qed
    qed
  next
    case PhIngressDrainRecorded
    with None show thesis
      by (cases "completion s = []") (auto simp: pop_event_eq refresh_normal intro: none batch [of None])
  next
    case PhShutdownRecorded
    show thesis
    proof (cases "\<not> shutdown_forced (refresh_shutdown_force now s) \<and> completion s \<noteq> []")
      case True
      with None PhShutdownRecorded show thesis by (intro batch [of None]) (auto simp: pop_event_eq)
    next
      case False
      with None PhShutdownRecorded show thesis
        by (intro fin [of "shutdown_forced (refresh_shutdown_force now s)"]) (auto simp: pop_event_eq)
    qed
  qed
qed

subsection \<open>No completion is lost, duplicated or reordered\<close>

lemma admitted_frame:
  "shutdown_forced (snd (try_send_admitted cmd s)) = shutdown_forced s"
  "completion_abandoned_on_forced_shutdown_total (snd (try_send_admitted cmd s)) =
     completion_abandoned_on_forced_shutdown_total s"
  by (cases cmd; simp add: admission_defs)+

lemma finalize_frame:
  "shutdown_forced (snd (finalize_shutdown f s)) = shutdown_forced s"
  by (simp add: finalize_shutdown_def Let_def clear_normal_pending_def split: option.splits)

lemma finalize_completion:
  "completion (snd (finalize_shutdown f s)) = (if f \<and> shutdown s \<noteq> None then [] else completion s)"
  by (auto simp: finalize_shutdown_def Let_def clear_normal_pending_def split: option.splits)

lemma refresh_forced: "shutdown_forced s \<Longrightarrow> shutdown_forced (refresh_shutdown_force now s)"
  by (simp add: refresh_shutdown_force_def)

lemma normal_event_frame:
  "completion (snd (take_next_normal_event s)) = completion s"
  "shutdown_forced (snd (take_next_normal_event s)) = shutdown_forced s"
  "shutdown (snd (take_next_normal_event s)) = shutdown s"
  "ci_phase (snd (take_next_normal_event s)) = ci_phase s"
  "ci_config (snd (take_next_normal_event s)) = ci_config s"
  using normal_loop_frame [of 3 s] by (simp_all add: take_next_normal_event_def)

lemma pop_forced: "shutdown_forced s \<Longrightarrow> shutdown_forced (snd (pop_event now s))"
  by (auto simp: pop_event_eq pop_normal_phase_eq map_prod_batch finalize_frame refresh_forced
      normal_event_frame split: option.splits)

lemma exec_forced:
  assumes "shutdown_forced s"
  shows "shutdown_forced (snd (exec_core op s))"
proof (cases op)
  case (OpTrySend now cmd)
  with assms show ?thesis
    by (simp add: try_send_def Let_def refresh_forced)
next
  case (OpDrain now msg)
  with assms show ?thesis
    by (simp add: record_drain_ingress_def Let_def refresh_forced)
next
  case (OpShutdown now msg)
  with assms show ?thesis
    by (simp add: record_shutdown_def Let_def refresh_forced clear_normal_pending_def)
next
  case (OpPop now)
  with assms show ?thesis by (simp add: pop_forced)
next
  case OpClose
  with assms show ?thesis by (simp add: close_def)
qed

lemma normal_event_not_batch:
  "fst (take_next_normal_event s) = Some e \<Longrightarrow> delivered_by (AnsPop (Some e)) = []"
  using normal_loop_event [of 3 s e] by (auto simp: take_next_normal_event_def)

lemma delivered_pop_batch:
  "delivered_by (AnsPop (fst (take_next_normal_event s))) = []"
  by (cases "fst (take_next_normal_event s)") (auto dest: normal_event_not_batch)

lemma delivered_finalize: "delivered_by (AnsPop (fst (finalize_shutdown f s))) = []"
  by (simp add: finalize_shutdown_def Let_def split: option.splits)

lemma fifo_pop:
  assumes "core_inv s" "\<not> shutdown_forced (snd (pop_event now s))"
  shows "completion s = delivered_by (AnsPop (fst (pop_event now s))) @ completion (snd (pop_event now s))"
  using assms(2)
  by (auto simp: pop_event_eq pop_normal_phase_eq map_prod_batch finalize_frame finalize_completion
      delivered_finalize delivered_pop_batch normal_event_frame split: option.splits if_splits)

lemma fifo_send:
  assumes "try_send now cmd s = (r, s')"
  shows "completion s @ accepted_by (OpTrySend now cmd) (AnsSend r) = completion s'"
  using assms
  by (cases cmd) (auto simp: try_send_def Let_def admission_defs split: if_splits)

lemma fifo_lifecycle:
  "completion (snd (record_drain_ingress now m s)) = completion s"
  "completion (snd (record_shutdown now m' s)) = completion s"
  "completion (snd (close s)) = completion s"
  by (simp_all add: record_drain_ingress_def record_shutdown_def Let_def clear_normal_pending_def close_def)

interpretation core_fifo: fifo_system exec_core core_inv "\<lambda>s. \<not> shutdown_forced s" completion
  accepted_by delivered_by
proof unfold_locales
  fix c :: "('p, 'm, 'j) core_op" and s s' :: "('p, 'm, 'j) inner" and r
  assume ex: "exec_core c s = (r, s')" and nf: "\<not> shutdown_forced s'"
  then show "\<not> shutdown_forced s" using exec_forced [of s c] by auto
  assume inv: "core_inv s"
  have rs: "r = fst (exec_core c s)" "s' = snd (exec_core c s)" using ex by auto
  show "completion s @ accepted_by c r = delivered_by r @ completion s'"
  proof (cases c)
    case (OpTrySend now cmd)
    with rs fifo_send [of now cmd s] show ?thesis by simp
  next
    case (OpPop now)
    with rs nf fifo_pop [OF inv, of now] show ?thesis by simp
  qed (simp_all add: rs fifo_lifecycle)
qed

lemma abandoned_finalize:
  assumes "core_inv s" "f \<Longrightarrow> shutdown_forced s"
  shows "length (completion s) + completion_abandoned_on_forced_shutdown_total s =
    length (completion (snd (finalize_shutdown f s))) +
    completion_abandoned_on_forced_shutdown_total (snd (finalize_shutdown f s))"
proof (cases "shutdown s")
  case (Some m)
  with assms have "completion_abandoned_on_forced_shutdown_total s = 0"
    "length (completion s) \<le> u64_max"
    by (auto simp: core_inv_def config_wf_def)
  with Some show ?thesis
    by (simp add: finalize_shutdown_def Let_def clear_normal_pending_def bump_version_def sat_add_exact)
qed (simp add: finalize_shutdown_def)

lemma normal_event_abandoned:
  "completion_abandoned_on_forced_shutdown_total (snd (take_next_normal_loop n s)) =
     completion_abandoned_on_forced_shutdown_total s"
proof (induction n arbitrary: s)
  case (Suc n)
  then show ?case
    by (cases "next_normal_event s") (simp_all add: Let_def bump_version_def split: option.splits)
qed simp

lemma count_pop:
  assumes "core_inv s"
  shows "length (completion s) + completion_abandoned_on_forced_shutdown_total s =
    length (delivered_by (AnsPop (fst (pop_event now s)))) +
    (length (completion (snd (pop_event now s))) +
     completion_abandoned_on_forced_shutdown_total (snd (pop_event now s)))"
proof (cases rule: pop_event_form [of s now])
  case (drain m)
  then show ?thesis by (simp add: bump_version_def)
next
  case (batch b)
  with batch_len_le [of b s] show ?thesis by (simp add: map_prod_batch)
next
  case (fin f)
  with abandoned_finalize [OF core_inv_refresh [OF assms], of f now] show ?thesis
    by (simp add: delivered_finalize)
next
  case normal
  then show ?thesis
    by (simp add: delivered_pop_batch normal_event_frame)
      (simp add: take_next_normal_event_def normal_event_abandoned)
qed simp

lemma count_send:
  assumes "try_send now cmd s = (r, s')"
  shows "completion_abandoned_on_forced_shutdown_total s' = completion_abandoned_on_forced_shutdown_total s"
  using assms
  by (cases cmd) (auto simp: try_send_def Let_def admission_defs split: if_splits)

lemma count_lifecycle:
  "completion_abandoned_on_forced_shutdown_total (snd (record_drain_ingress now m s)) = completion_abandoned_on_forced_shutdown_total s"
  "completion_abandoned_on_forced_shutdown_total (snd (record_shutdown now m' s)) = completion_abandoned_on_forced_shutdown_total s"
  "completion_abandoned_on_forced_shutdown_total (snd (close s)) = completion_abandoned_on_forced_shutdown_total s"
  by (simp_all add: record_drain_ingress_def record_shutdown_def Let_def clear_normal_pending_def close_def bump_version_def)

interpretation core_count: counting_system exec_core core_inv
  "\<lambda>s. length (completion s) + completion_abandoned_on_forced_shutdown_total s"
  "\<lambda>c r. length (accepted_by c r)" "\<lambda>r. length (delivered_by r)"
proof unfold_locales
  fix c :: "('p, 'm, 'j) core_op" and s s' :: "('p, 'm, 'j) inner" and r
  assume ex: "exec_core c s = (r, s')" and inv: "core_inv s"
  have rs: "r = fst (exec_core c s)" "s' = snd (exec_core c s)" using ex by auto
  show "length (completion s) + completion_abandoned_on_forced_shutdown_total s +
      length (accepted_by c r) = length (delivered_by r) +
      (length (completion s') + completion_abandoned_on_forced_shutdown_total s')"
  proof (cases c)
    case (OpTrySend now cmd)
    obtain a t where t: "try_send now cmd s = (a, t)" by (cases "try_send now cmd s")
    from arg_cong [OF fifo_send [OF t], of length] OpTrySend rs t count_send [OF t]
    show ?thesis by simp
  next
    case (OpPop now)
    with rs count_pop [OF inv, of now] show ?thesis by simp
  qed (simp_all add: rs fifo_lifecycle count_lifecycle)
qed

subsection \<open>Reachable states\<close>

inductive core_reach :: "control_channel_config \<Rightarrow> ('p, 'm, 'j) inner \<Rightarrow> bool" for c where
  reach_new: "core_reach c (new_inner c)"
| reach_step: "core_reach c s \<Longrightarrow> core_reach c (snd (exec_core op s))"

lemma exec_config: "ci_config (snd (exec_core op s)) = ci_config s"
proof (cases op)
  case (OpTrySend now cmd)
  then show ?thesis
    by (cases cmd) (simp_all add: try_send_def Let_def admission_defs)
next
  case (OpPop now)
  then show ?thesis
    by (simp add: pop_event_eq pop_normal_phase_eq map_prod_batch normal_event_frame
        finalize_shutdown_def Let_def clear_normal_pending_def split: option.splits)
qed (simp_all add: record_drain_ingress_def record_shutdown_def Let_def clear_normal_pending_def close_def)

lemma core_reach_inv: "core_reach c s \<Longrightarrow> config_wf c \<Longrightarrow> core_inv s \<and> ci_config s = c"
proof (induction rule: core_reach.induct)
  case reach_new
  then show ?case by (simp add: core_inv_new) (simp add: new_inner_def)
next
  case (reach_step s op)
  then show ?case by (simp add: core_inv_exec exec_config)
qed

subsection \<open>Bounded fairness\<close>

fun normal_class_of :: "('p, 'm, 'j) core_answer \<Rightarrow> normal_event_class option" where
  "normal_class_of (AnsPop (Some (Config _))) = Some NConfig"
| "normal_class_of (AnsPop (Some TimerTick)) = Some NTimerTick"
| "normal_class_of (AnsPop (Some CollectTelemetry)) = Some NCollectTelemetry"
| "normal_class_of _ = None"

fun pending_class :: "normal_event_class \<Rightarrow> ('p, 'm, 'j) inner \<Rightarrow> bool" where
  "pending_class NConfig s = (latest_config s \<noteq> None)"
| "pending_class NTimerTick s = pending_timer_tick s"
| "pending_class NCollectTelemetry s = pending_collect_telemetry s"

definition rr_dist :: "normal_event_class \<Rightarrow> normal_event_class \<Rightarrow> nat" where
  \<comment> \<open>how many classes the round-robin cursor visits before \<open>k\<close>\<close>
  "rr_dist cur k = (if cur = k then 0 else if next_class cur = k then 1 else 2)"

lemma pending_class_iff: "has_pending_normal_event s \<longleftrightarrow> (\<exists>k. pending_class k s)"
proof
  assume "has_pending_normal_event s"
  then show "\<exists>k. pending_class k s"
    by (metis has_pending_normal_event_def pending_class.simps)
next
  assume "\<exists>k. pending_class k s"
  then obtain k where "pending_class k s" ..
  then show "has_pending_normal_event s"
    by (cases k) (auto simp: has_pending_normal_event_def)
qed

lemma all_class: "(\<forall>k. P k) \<longleftrightarrow> P NConfig \<and> P NTimerTick \<and> P NCollectTelemetry"
  by (metis normal_event_class.exhaust)

lemma ex_class: "(\<exists>k. P k) \<longleftrightarrow> P NConfig \<or> P NTimerTick \<or> P NCollectTelemetry"
  by (metis normal_event_class.exhaust)

lemma take_next_normal_spec:
  assumes "take_next_normal_event s = (Some e, s')"
  shows "\<exists>k. normal_class_of (AnsPop (Some e)) = Some k \<and> pending_class k s \<and>
     next_normal_event s' = next_class k \<and>
     (\<forall>j. j \<noteq> k \<longrightarrow> pending_class j s' = pending_class j s) \<and>
     (\<forall>j. j \<noteq> k \<longrightarrow> pending_class j s \<longrightarrow>
        rr_dist (next_class k) j < rr_dist (next_normal_event s) j)"
  using assms unfolding all_class ex_class
  by (cases "next_normal_event s")
    (auto simp: take_next_normal_event_def numeral_3_eq_3 Let_def bump_version_def rr_dist_def
      split: option.splits if_splits)

lemma send_keeps_pending:
  assumes "ci_phase s = PhNormal" "pending_class k s"
  shows "pending_class k (snd (try_send now cmd s))"
    "next_normal_event (snd (try_send now cmd s)) = next_normal_event s"
    "completion_burst_len (snd (try_send now cmd s)) = completion_burst_len s"
  using assms
  by (cases cmd; cases k; simp add: try_send_def Let_def refresh_normal admission_defs)+

lemma phase_back: "ci_phase (snd (exec_core op s)) = PhNormal \<Longrightarrow> ci_phase s = PhNormal"
proof (cases op)
  case (OpTrySend now cmd)
  assume "ci_phase (snd (exec_core op s)) = PhNormal"
  with OpTrySend show ?thesis
    by (cases cmd) (auto simp: try_send_def Let_def admission_defs split: if_splits)
next
  case (OpPop now)
  assume "ci_phase (snd (exec_core op s)) = PhNormal"
  with OpPop show ?thesis
    by (auto simp: pop_event_eq pop_normal_phase_eq map_prod_batch normal_event_frame
        finalize_shutdown_def Let_def clear_normal_pending_def split: option.splits if_splits)
qed (auto simp: record_drain_ingress_def record_shutdown_def Let_def clear_normal_pending_def close_def
     split: if_splits)

lemma lifecycle_leaves_normal:
  assumes "ci_phase s = PhNormal" "core_inv s"
  shows "ci_phase (snd (record_drain_ingress now m s)) = PhNormal \<Longrightarrow> snd (record_drain_ingress now m s) = s"
    "ci_phase (snd (record_shutdown now m' s)) = PhNormal \<Longrightarrow> snd (record_shutdown now m' s) = s"
  using assms
  by (auto simp: record_drain_ingress_def record_shutdown_def Let_def refresh_normal split: if_splits)

lemma pending_class_batch [simp]:
  "pending_class k (snd (take_completion_batch b s)) = pending_class k s"
  "next_normal_event (snd (take_completion_batch b s)) = next_normal_event s"
  by (cases k) (simp_all add: take_completion_batch_def Let_def bump_version_def)

lemma fair_pop:
  assumes "core_inv s" "ci_phase s = PhNormal" "has_pending_normal_event s"
    "normal_class_of (AnsPop (fst (pop_event now s))) = None"
  obtains b where "pop_event now s = map_prod Some id (take_completion_batch b s)"
    "completion s \<noteq> []" "completion_burst_len s + batch_len b s \<le> completion_burst_limit (ci_config s)"
proof (cases rule: pop_event_form [of s now])
  case (drain m)
  with assms(1,2) have False by (auto simp: core_inv_def)
  then show ?thesis ..
next
  case (batch b)
  with assms(2,3) batch_len_budget [of "completion_burst_limit (ci_config s) - completion_burst_len s" s]
  show ?thesis by (intro that [of b]) (auto simp: refresh_normal)
next
  case (fin f)
  with assms(2) show ?thesis by simp
next
  case normal
  with take_next_normal_event_pending [OF assms(3)] take_next_normal_spec [of s] assms(4)
  have False by fastforce
  then show ?thesis ..
next
  case none
  with assms(2,3) show ?thesis by simp
qed


fun is_pop :: "('p, 'm, 'j) core_op \<Rightarrow> bool" where
  "is_pop (OpPop _) = True"
| "is_pop _ = False"

lemma fair_step:
  assumes inv: "core_inv s" and ex: "exec_core c s = (r, s')"
    and ph: "ci_phase s = PhNormal" "ci_phase s' = PhNormal"
    and pend: "pending_class k s" and r: "normal_class_of r = None"
  shows "pending_class k s'"
    "completion_burst_len s' = completion_burst_len s + length (delivered_by r)"
    "is_pop c \<Longrightarrow> delivered_by r \<noteq> []"
    "delivered_by r \<noteq> [] \<Longrightarrow> completion_burst_len s' \<le> completion_burst_limit (ci_config s)"
    "next_normal_event s' = next_normal_event s"
proof -
  have rs: "r = fst (exec_core c s)" "s' = snd (exec_core c s)" using ex by auto
  have "pending_class k s' \<and>
    completion_burst_len s' = completion_burst_len s + length (delivered_by r) \<and>
    (is_pop c \<longrightarrow> delivered_by r \<noteq> []) \<and>
    (delivered_by r \<noteq> [] \<longrightarrow> completion_burst_len s' \<le> completion_burst_limit (ci_config s)) \<and>
    next_normal_event s' = next_normal_event s"
  proof (cases c)
    case (OpTrySend now cmd)
    with rs send_keeps_pending [OF ph(1) pend] show ?thesis by simp
  next
    case (OpDrain now m)
    with rs ph lifecycle_leaves_normal(1) [OF ph(1) inv, of now m] pend show ?thesis by simp
  next
    case (OpShutdown now m)
    with rs ph lifecycle_leaves_normal(2) [OF ph(1) inv, of now m] pend show ?thesis by simp
  next
    case (OpPop now)
    from pend have "has_pending_normal_event s" by (auto simp: pending_class_iff)
    moreover from OpPop rs r have "normal_class_of (AnsPop (fst (pop_event now s))) = None" by simp
    ultimately obtain b where b: "pop_event now s = map_prod Some id (take_completion_batch b s)"
      and ne: "completion s \<noteq> []"
      and le: "completion_burst_len s + batch_len b s \<le> completion_burst_limit (ci_config s)"
      by (rule fair_pop [OF inv ph(1)])
    from inv le have "completion_burst_len s + batch_len b s \<le> u64_max"
      by (auto simp: core_inv_def config_wf_def)
    with OpPop rs b ne le pend batch_len_le [of b s] batch_len_pos [OF inv ne, of b] show ?thesis
      by (simp add: map_prod_batch sat_add_exact)
  next
    case OpClose
    with rs pend show ?thesis by (cases k) (simp_all add: close_def bump_version_def)
  qed
  then show "pending_class k s'"
    "completion_burst_len s' = completion_burst_len s + length (delivered_by r)"
    "is_pop c \<Longrightarrow> delivered_by r \<noteq> []"
    "delivered_by r \<noteq> [] \<Longrightarrow> completion_burst_len s' \<le> completion_burst_limit (ci_config s)"
    "next_normal_event s' = next_normal_event s"
    by blast+
qed

lemma run_phase_back: "run_ops exec_core cs s = (rs, s') \<Longrightarrow> ci_phase s' = PhNormal \<Longrightarrow> ci_phase s = PhNormal"
proof (induction cs arbitrary: s rs)
  case (Cons c cs)
  from Cons.prems(1) obtain r s1 rs' where
    "exec_core c s = (r, s1)" "run_ops exec_core cs s1 = (rs', s')"
    by (rule run_ops_Cons)
  with Cons.IH [of s1 rs'] Cons.prems(2) phase_back [of c s] show ?case by simp
qed simp

lemma fair_run:
  assumes "core_inv s" "run_ops exec_core cs s = (rs, s')" "ci_phase s' = PhNormal"
    "pending_class k s" "\<forall>r \<in> set rs. normal_class_of r = None"
  shows "length (filter is_pop cs) \<le> length (concat (map delivered_by rs)) \<and>
    length (concat (map delivered_by rs))
      \<le> completion_burst_limit (ci_config s) - completion_burst_len s"
  using assms
proof (induction cs arbitrary: s rs)
  case Nil
  then show ?case by simp
next
  case (Cons c cs)
  from Cons.prems(2) obtain r s1 rs' where
    ex: "exec_core c s = (r, s1)" and run: "run_ops exec_core cs s1 = (rs', s')" and rs: "rs = r # rs'"
    by (rule run_ops_Cons)
  have ph: "ci_phase s1 = PhNormal" using run Cons.prems(3) by (rule run_phase_back)
  then have ph0: "ci_phase s = PhNormal" using ex phase_back [of c s] by simp
  have r: "normal_class_of r = None" using Cons.prems(5) rs by simp
  note st = fair_step [OF Cons.prems(1) ex ph0 ph Cons.prems(4) r]
  have cfg: "ci_config s1 = ci_config s" using ex exec_config [of c s] by simp
  have "length (filter is_pop cs) \<le> length (concat (map delivered_by rs')) \<and>
    length (concat (map delivered_by rs'))
      \<le> completion_burst_limit (ci_config s1) - completion_burst_len s1"
    using core.step_inv_eq [OF Cons.prems(1) ex] run Cons.prems(3) st(1) Cons.prems(5)
    by (intro Cons.IH) (auto simp: rs)
  with st(2-4) cfg rs show ?case
    by (cases "delivered_by r") auto
qed

fun_cases normal_class_of_SomeE: "normal_class_of r = Some k"

lemma exec_core_pop: "exec_core c s = (AnsPop x, s') \<Longrightarrow> \<exists>now. c = OpPop now \<and> pop_event now s = (x, s')"
  by (cases c) (auto simp: map_prod_def split: prod.splits)

lemma rr_step:
  assumes inv: "core_inv s" and ex: "exec_core c s = (r, s')"
    and ph: "ci_phase s = PhNormal" "ci_phase s' = PhNormal"
    and pend: "pending_class k s" and r: "normal_class_of r \<noteq> Some k"
  shows "pending_class k s' \<and>
    rr_dist (next_normal_event s') k + (if normal_class_of r = None then 0 else 1)
      \<le> rr_dist (next_normal_event s) k"
proof (cases "normal_class_of r")
  case None
  with fair_step [OF inv ex ph pend None] show ?thesis by simp
next
  case (Some j)
  then obtain e where r': "r = AnsPop (Some e)" by (rule normal_class_of_SomeE) auto
  with ex obtain now where e: "pop_event now s = (Some e, s')" by (auto dest: exec_core_pop)
  have "take_next_normal_event s = (Some e, s')"
  proof (cases rule: pop_event_form [of s now])
    case normal
    with e show ?thesis by simp
  qed (use Some r' e ph in \<open>auto simp: map_prod_batch\<close>)
  from take_next_normal_spec [OF this] Some r'
  have "next_normal_event s' = next_class j"
    and keep: "\<forall>i. i \<noteq> j \<longrightarrow> pending_class i s' = pending_class i s"
    and less: "\<forall>i. i \<noteq> j \<longrightarrow> pending_class i s \<longrightarrow>
      rr_dist (next_class j) i < rr_dist (next_normal_event s) i"
    by simp_all
  moreover from r Some have "k \<noteq> j" by simp
  ultimately show ?thesis using keep [rule_format, of k] less [rule_format, of k] pend Some
    by (simp add: Suc_le_eq)
qed

lemma rr_run:
  assumes "core_inv s" "run_ops exec_core cs s = (rs, s')" "ci_phase s' = PhNormal"
    "pending_class k s" "\<forall>r \<in> set rs. normal_class_of r \<noteq> Some k"
  shows "length (filter (\<lambda>r. normal_class_of r \<noteq> None) rs) \<le> rr_dist (next_normal_event s) k"
  using assms
proof (induction cs arbitrary: s rs)
  case Nil
  then show ?case by simp
next
  case (Cons c cs)
  from Cons.prems(2) obtain r s1 rs' where
    ex: "exec_core c s = (r, s1)" and run: "run_ops exec_core cs s1 = (rs', s')" and rs: "rs = r # rs'"
    by (rule run_ops_Cons)
  have ph: "ci_phase s1 = PhNormal" using run Cons.prems(3) by (rule run_phase_back)
  then have ph0: "ci_phase s = PhNormal" using ex phase_back [of c s] by simp
  have "normal_class_of r \<noteq> Some k" using Cons.prems(5) rs by simp
  note st = rr_step [OF Cons.prems(1) ex ph0 ph Cons.prems(4) this]
  have "length (filter (\<lambda>r. normal_class_of r \<noteq> None) rs') \<le> rr_dist (next_normal_event s1) k"
    using core.step_inv_eq [OF Cons.prems(1) ex] run Cons.prems(3) st Cons.prems(5)
    by (intro Cons.IH) (auto simp: rs)
  with st rs show ?case by auto
qed


subsection \<open>Shutdown\<close>

lemma shutdown_pop:
  assumes inv: "core_inv s" and sd: "shutdown s = Some m"
  shows "fst (pop_event now s) = Some (Shutdown m) \<or>
    shutdown (snd (pop_event now s)) = Some m \<and>
    of_bool (drain_ingress (snd (pop_event now s)) \<noteq> None) + length (completion (snd (pop_event now s)))
      < of_bool (drain_ingress s \<noteq> None) + length (completion s)"
proof -
  from inv sd have ph: "ci_phase s = PhShutdownRecorded" by (auto simp: core_inv_def)
  show ?thesis
  proof (cases rule: pop_event_form [of s now])
    case (drain m')
    with sd show ?thesis by simp
  next
    case (batch b)
    with sd batch_len_le [of b s] batch_len_pos [OF inv, of b] show ?thesis
      by (simp add: map_prod_batch)
  next
    case (fin f)
    with sd show ?thesis by (simp add: finalize_shutdown_def Let_def)
  qed (use ph in simp_all)
qed

lemma shutdown_within:
  assumes "core_inv s" "shutdown s = Some m"
    "of_bool (drain_ingress s \<noteq> None) + length (completion s) < length nows"
  shows "AnsPop (Some (Shutdown m)) \<in> set (fst (run_ops exec_core (map OpPop nows) s))"
  using assms
proof (induction nows arbitrary: s)
  case Nil
  then show ?case by simp
next
  case (Cons t nows)
  show ?case
  proof (cases "fst (pop_event t s) = Some (Shutdown m)")
    case True
    then show ?thesis by (simp add: Let_def case_prod_beta)
  next
    case False
    with shutdown_pop [OF Cons.prems(1,2), of t] Cons.prems(3)
    have "AnsPop (Some (Shutdown m)) \<in>
      set (fst (run_ops exec_core (map OpPop nows) (snd (pop_event t s))))"
      by (intro Cons.IH) (auto simp: core_inv_pop [OF Cons.prems(1)])
    then show ?thesis by (simp add: Let_def case_prod_beta)
  qed
qed

definition finished :: "('p, 'm, 'j) inner \<Rightarrow> bool" where
  "finished s \<longleftrightarrow> core_inv s \<and> shutdown_recorded s \<and> shutdown s = None"

fun inert :: "('p, 'm, 'j) core_answer \<Rightarrow> bool" where
  "inert (AnsSend (Inl (TrySendClosed _))) = True"
| "inert (AnsLifecycle LcClosed) = True"
| "inert (AnsPop None) = True"
| "inert (AnsClose False) = True"
| "inert _ = False"

lemma finished_step:
  assumes "finished s"
  shows "inert (fst (exec_core op s)) \<and> finished (snd (exec_core op s))"
proof -
  have inv: "core_inv (snd (exec_core op s))" using assms by (simp add: finished_def core_inv_exec)
  have f: "ci_closed s" "completion s = []" "drain_ingress s = None" "shutdown_deadline s = None"
    "shutdown s = None" "shutdown_recorded s" "ci_phase s = PhShutdownRecorded"
    using assms by (auto simp: finished_def core_inv_def)
  have refr: "refresh_shutdown_force now s = s" for now
    using f by (simp add: refresh_shutdown_force_def)
  show ?thesis
    by (cases op) (use inv f assms refr in \<open>auto simp: finished_def try_send_def Let_def record_drain_ingress_def
      record_shutdown_def pop_event_eq finalize_shutdown_def close_def\<close>)
qed

lemma finished_run:
  "finished s \<Longrightarrow> run_ops exec_core ops s = (rs, s') \<Longrightarrow> (\<forall>r \<in> set rs. inert r)"
proof (induction ops arbitrary: s rs)
  case (Cons c cs)
  from Cons.prems(2) obtain r s1 rs' where
    "exec_core c s = (r, s1)" "run_ops exec_core cs s1 = (rs', s')" "rs = r # rs'"
    by (rule run_ops_Cons)
  with Cons.IH [of s1 rs'] finished_step [OF Cons.prems(1), of c] show ?case by simp
qed simp

lemma pop_shutdown_finished:
  assumes "core_inv s" "pop_event now s = (Some (Shutdown m), s')"
  shows "finished s'"
proof -
  have "core_inv s'" using core_inv_pop [OF assms(1), of now] assms(2) by simp
  moreover have "shutdown s' = None \<and> shutdown_recorded s'"
  proof (cases rule: pop_event_form [of s now])
    case (fin f)
    with assms show ?thesis
      by (auto simp: finalize_shutdown_def Let_def clear_normal_pending_def bump_version_def core_inv_def
          split: option.splits)
  next
    case normal
    with assms(2) take_next_normal_spec [of s "Shutdown m" s'] show ?thesis by auto
  qed (use assms(2) in \<open>auto simp: map_prod_batch\<close>)
  ultimately show ?thesis by (simp add: finished_def)
qed

subsection \<open>Waiting\<close>

lemma pop_ready_any_clock:
  assumes "core_inv s"
  shows "fst (pop_event now s) = None \<longleftrightarrow>
    drain_ingress s = None \<and> completion s = [] \<and> shutdown s = None \<and>
    \<not> has_pending_normal_event s"
proof (cases rule: pop_event_form [of s now])
  case (fin f)
  with assms show ?thesis
    by (auto simp: finalize_shutdown_def Let_def core_inv_def split: option.splits)
next
  case normal
  with take_next_normal_event_pending [of s] show ?thesis by auto
next
  case none
  with assms show ?thesis by (auto simp: core_inv_def)
qed (auto simp: map_prod_batch)

lemma no_deadline_no_force:
  assumes "core_inv s" "next_deadline s = None" "\<not> ci_closed s"
  shows "refresh_shutdown_force now s = s"
  using assms by (auto simp: core_inv_def next_deadline_def refresh_shutdown_force_def split: if_splits)

lemma try_send_clock:
  assumes "core_inv s" "next_deadline s = None"
  shows "fst (try_send now cmd s) = fst (try_send now' cmd s)"
  using no_deadline_no_force [OF assms]
  by (cases "ci_closed s") (simp_all add: try_send_def Let_def)

lemma try_send_errors:
  assumes "try_send now cmd s = (Inl e, s')"
  shows "s' = refresh_shutdown_force now s \<and>
    (e = TrySendClosed cmd \<and> (ci_closed s' \<or> shutdown_forced s') \<or>
     e = TrySendFull Backpressured cmd \<and> \<not> ci_closed s' \<and> \<not> shutdown_forced s' \<and>
       completion_msg_capacity (ci_config s) \<le> length (completion s) \<and>
       ((\<exists>a. cmd = CmdAck a) \<or> (\<exists>n. cmd = CmdNack n)))"
  using assms
  by (cases cmd) (auto simp: try_send_def Let_def admission_defs split: if_splits)


definition same_waits :: "('p, 'm, 'j) inner \<Rightarrow> ('p, 'm, 'j) inner \<Rightarrow> bool" where
  \<comment> \<open>the two states agree on everything a blocked sender or receiver waits for\<close>
  "same_waits s s' \<longleftrightarrow>
     drain_ingress s' = drain_ingress s \<and> completion s' = completion s \<and>
     shutdown s' = shutdown s \<and> shutdown_deadline s' = shutdown_deadline s \<and>
     has_pending_normal_event s' = has_pending_normal_event s \<and> ci_closed s' = ci_closed s \<and>
     shutdown_forced s' = shutdown_forced s \<and> ci_config s' = ci_config s \<and>
     ci_phase s' = ci_phase s"

lemma same_waits_refl [simp]: "same_waits s s"
  by (simp add: same_waits_def)

lemma refresh_version:
  "refresh_shutdown_force now s = s \<or> version (refresh_shutdown_force now s) = version s + 1"
  by (auto simp: refresh_shutdown_force_def split: option.splits)

lemma two_succ_neq [simp]: "(v::u64) + 1 + 1 \<noteq> v" "v + 2 \<noteq> v"
  by simp_all

lemma send_version:
  assumes "try_send now cmd s = (r, s')" "version s' = version s"
  shows "same_waits s s'"
  using assms refresh_version [of now s]
  by (cases cmd)
    (auto simp: same_waits_def try_send_def Let_def admission_defs has_pending_normal_event_def
      split: if_splits)

lemma normal_event_version:
  assumes "has_pending_normal_event s"
  shows "version (snd (take_next_normal_event s)) = version s + 1"
  using assms
  by (cases "next_normal_event s")
    (auto simp: take_next_normal_event_def numeral_3_eq_3 Let_def has_pending_normal_event_def
      split: option.splits)

lemma pop_version:
  assumes "version (snd (pop_event now s)) = version s"
  shows "same_waits s (snd (pop_event now s))"
proof (cases rule: pop_event_form [of s now])
  case (drain m)
  with assms refresh_version [of now s] show ?thesis by auto
next
  case (batch b)
  with assms refresh_version [of now s] show ?thesis by (auto simp: map_prod_batch)
next
  case (fin f)
  show ?thesis
  proof (cases "shutdown s")
    case None
    with fin assms refresh_version [of now s] show ?thesis by (auto simp: finalize_shutdown_def)
  next
    case (Some m)
    have "version (snd (pop_event now s)) = version (refresh_shutdown_force now s) + 1"
      using fin Some by (simp add: finalize_shutdown_def Let_def clear_normal_pending_def)
    with assms refresh_version [of now s] show ?thesis by auto
  qed
next
  case normal
  with assms normal_event_version [of s] show ?thesis by simp
qed simp

lemma lifecycle_version:
  "version (snd (record_drain_ingress now m s)) = version s \<Longrightarrow>
     same_waits s (snd (record_drain_ingress now m s))"
  "version (snd (record_shutdown now m' s)) = version s \<Longrightarrow>
     same_waits s (snd (record_shutdown now m' s))"
  "version (snd (close s)) = version s \<Longrightarrow> same_waits s (snd (close s))"
  using refresh_version [of now s]
    refresh_version [of now "(clear_normal_pending s)
                   \<lparr>shutdown_deadline := Some (sd_deadline m'), shutdown := Some m',
                    shutdown_recorded := True, ci_phase := PhShutdownRecorded\<rparr>"]
  by (auto simp: record_drain_ingress_def record_shutdown_def Let_def clear_normal_pending_def close_def
      split: if_splits)

lemma exec_version:
  assumes "version (snd (exec_core op s)) = version s"
  shows "same_waits s (snd (exec_core op s))"
proof (cases op)
  case (OpTrySend now cmd)
  with assms send_version [of now cmd s] show ?thesis by (metis exec_core.simps(1) prod.collapse snd_map_prod id_apply)
qed (use assms pop_version lifecycle_version in auto)

lemma same_waits_send:
  assumes "same_waits s s'"
  shows "(\<exists>a. fst (try_send t cmd s') = Inl (TrySendFull a cmd)) \<longleftrightarrow>
    (\<exists>a. fst (try_send t cmd s) = Inl (TrySendFull a cmd))"
proof -
  have "shutdown_forced (refresh_shutdown_force t s') = shutdown_forced (refresh_shutdown_force t s)"
    using assms by (simp add: same_waits_def refresh_shutdown_force_def split: option.splits)
  with assms show ?thesis
    unfolding try_send_def refresh_guard Let_def
    by (cases cmd) (auto simp: same_waits_def admission_defs)
qed

subsection \<open>Properties\<close>

text \<open>A concrete history for the witnesses, and the facts that evaluate it.\<close>

definition ack7 :: "(nat, unit, nat) control_cmd" where
  "ack7 = CmdAck (ack_new 7)"

lemmas core_eval = ack7_def new_inner_def default_config_def try_send_def Let_def
  refresh_shutdown_force_def admission_defs pop_event_eq pop_normal_phase_eq
  has_pending_normal_event_def take_completion_batch_def batch_len_def record_shutdown_def
  clear_normal_pending_def finalize_shutdown_def close_def

lemma config_wf_default: "config_wf default_config"
  by (simp add: config_wf_def default_config_valid) (simp add: default_config_def u64_max_def)

text \<open>
  C1. In every state a history of calls can reach, the queue core keeps its invariant: the
  completion backlog never exceeds its configured capacity, no normal event is pending once
  drain or shutdown has been recorded, the sticky lifecycle flags agree with the phase, a
  pending shutdown token is accompanied by its deadline, and once it has been delivered the
  core is closed and empty.
\<close>

theorem core_reach_bounded:
  assumes "config_wf c" and "core_reach c s"
  shows "core_inv s \<and> ci_config s = c"
  using core_reach_inv [OF assms(2,1)] .

theorem core_reach_bounded_witness:
  "core_inv (snd (exec_core (OpTrySend 0 ack7) (new_inner default_config)))"
  using core_reach_bounded [OF config_wf_default reach_step [OF reach_new],
      of "OpTrySend 0 ack7"] by simp

text \<open>
  C2. Completion traffic is lossless and in order: over any history of calls that has not
  been cut short by a forced shutdown, the completions accepted by \<^verbatim>\<open>try_send\<close>, in the order
  of their sends, are exactly those delivered in batches followed by those still queued.
\<close>

theorem completions_lossless_fifo:
  assumes "config_wf c"
    and "run_ops exec_core ops (new_inner c) = (answers, s')"
    and "\<not> shutdown_forced s'"
  shows "concat (map2 accepted_by ops answers) =
    concat (map delivered_by answers) @ completion s'"
  using core_fifo.run_balance [OF core_inv_new [OF assms(1)] assms(2,3)]
  by (simp add: new_inner_def)

theorem completions_lossless_fifo_witness:
  "\<exists>answers s'. run_ops exec_core [OpTrySend 0 ack7, OpTrySend 1 ack7, OpPop 2, OpTrySend 3 ack7]
      (new_inner default_config) = (answers, s') \<and>
    concat (map delivered_by answers) @ completion s' =
      [CompletionAck (ack_new 7), CompletionAck (ack_new 7), CompletionAck (ack_new (7::nat))]"
proof -
  let ?ops = "[OpTrySend 0 ack7, OpTrySend 1 ack7, OpPop 2, OpTrySend 3 ack7]"
  obtain rs s' where run: "run_ops exec_core ?ops (new_inner default_config) = (rs, s')"
    by (metis surj_pair)
  then have "\<not> shutdown_forced s'" "concat (map2 accepted_by ?ops rs) =
    [CompletionAck (ack_new 7), CompletionAck (ack_new 7), CompletionAck (ack_new (7::nat))]"
    by (auto simp: core_eval)
  then show ?thesis using completions_lossless_fifo [OF config_wf_default run] run by metis
qed

text \<open>
  C15. Nothing disappears unaccounted even when shutdown is forced: over any history, the
  number of accepted completions is the number delivered plus the number still queued plus
  the counter of completions abandoned by a forced shutdown.
\<close>

theorem completions_accounted:
  assumes "config_wf c"
    and "run_ops exec_core ops (new_inner c) = (answers, s')"
  shows "(\<Sum>(op, r) \<leftarrow> zip ops answers. length (accepted_by op r)) =
    (\<Sum>r \<leftarrow> answers. length (delivered_by r)) + length (completion s') +
    completion_abandoned_on_forced_shutdown_total s'"
  using core_count.run_conserve [OF core_inv_new [OF assms(1)] assms(2)]
  by (simp add: new_inner_def add.assoc)

theorem completions_accounted_witness:
  "\<exists>answers s'. run_ops exec_core
      [OpTrySend 0 ack7, OpTrySend 1 ack7, OpShutdown 2 \<lparr>sd_deadline = 5, sd_reason = ''stop''\<rparr>,
       OpPop 9] (new_inner default_config) = (answers, s') \<and>
    (\<Sum>r \<leftarrow> answers. length (delivered_by r)) + length (completion s') +
    completion_abandoned_on_forced_shutdown_total s' = 2 \<and> completion s' = []"
proof -
  let ?ops = "[OpTrySend 0 ack7, OpTrySend 1 ack7,
    OpShutdown 2 \<lparr>sd_deadline = 5, sd_reason = ''stop''\<rparr>, OpPop 9]"
  obtain rs s' where run: "run_ops exec_core ?ops (new_inner default_config) = (rs, s')"
    by (metis surj_pair)
  then have "(\<Sum>(op, r) \<leftarrow> zip ?ops rs. length (accepted_by op r)) = 2" "completion s' = []"
    by (auto simp: core_eval)
  then show ?thesis using completions_accounted [OF config_wf_default run] run by auto
qed

text \<open>
  C4. Bounded fairness: while a normal control event (config, timer tick or telemetry) is
  pending, at most \<^verbatim>\<open>completion_burst_limit\<close> completions are delivered before one. In a history
  that stays in the normal phase and delivers no normal event, even one that keeps sending
  completions, the completions delivered, and the calls to \<^verbatim>\<open>pop_event\<close>, number at most what is
  left of the burst budget.
\<close>

theorem bounded_fairness:
  assumes "config_wf c" and "core_reach c s" and "has_pending_normal_event s"
    and "run_ops exec_core ops s = (answers, s')" and "ci_phase s' = PhNormal"
    and "\<forall>r \<in> set answers. normal_class_of r = None"
  shows "length (filter is_pop ops) \<le> length (concat (map delivered_by answers)) \<and>
    length (concat (map delivered_by answers)) \<le>
      completion_burst_limit c - completion_burst_len s"
proof -
  from core_reach_inv [OF assms(2,1)] have "core_inv s" and "ci_config s = c" by auto
  moreover obtain k where "pending_class k s" using assms(3) by (auto simp: pending_class_iff)
  ultimately show ?thesis using fair_run [of s ops answers s' k] assms(4-6) by simp
qed

theorem bounded_fairness_witness:
  "\<exists>s answers s'. has_pending_normal_event s \<and>
    run_ops exec_core [OpPop 2, OpTrySend 3 ack7] s = (answers, s') \<and>
    length (concat (map delivered_by answers)) = 1 \<and>
    length (concat (map delivered_by answers)) \<le> completion_burst_limit default_config"
proof -
  define s where
    "s = snd (exec_core (OpTrySend 1 ack7) (snd (exec_core (OpTrySend 0 CmdTimerTick) (new_inner default_config))))"
  have reach: "core_reach default_config s"
    unfolding s_def by (intro core_reach.intros)
  obtain rs s' where run: "run_ops exec_core [OpPop 2, OpTrySend 3 ack7] s = (rs, s')"
    by (metis surj_pair)
  have p: "has_pending_normal_event s" by (simp add: s_def core_eval)
  from run have h: "ci_phase s' = PhNormal" "\<forall>r \<in> set rs. normal_class_of r = None"
    and one: "length (concat (map delivered_by rs)) = 1"
    by (auto simp: s_def core_eval)
  from bounded_fairness [OF config_wf_default reach p run h]
  have "length (concat (map delivered_by rs)) \<le> completion_burst_limit default_config" by linarith
  with p run one show ?thesis by blast
qed

text \<open>
  Round robin among normal events: a pending config update, timer tick or telemetry
  request is never overtaken by more than two other normal events; among any three normal
  events delivered while it is pending is its own.
\<close>

theorem normal_events_round_robin:
  assumes "config_wf c" and "core_reach c s" and "pending_class k s"
    and "run_ops exec_core ops s = (answers, s')" and "ci_phase s' = PhNormal"
    and "3 \<le> length (filter (\<lambda>r. normal_class_of r \<noteq> None) answers)"
  shows "\<exists>r \<in> set answers. normal_class_of r = Some k"
proof (rule ccontr)
  assume "\<not> ?thesis"
  then have "\<forall>r \<in> set answers. normal_class_of r \<noteq> Some k" by blast
  with core_reach_inv [OF assms(2,1)] assms(3-5)
  have "length (filter (\<lambda>r. normal_class_of r \<noteq> None) answers) \<le> rr_dist (next_normal_event s) k"
    by (intro rr_run) auto
  with assms(6) show False by (simp add: rr_dist_def split: if_splits)
qed

text \<open>
  C5. Shutdown makes progress: once a shutdown has been accepted, calling \<^verbatim>\<open>pop_event\<close> at any
  clock readings delivers it after at most one call for a pending drain token and one call per
  queued completion, without any further activity by the senders.
\<close>

theorem shutdown_is_delivered:
  assumes "config_wf c" and "core_reach c s" and "shutdown s = Some msg"
    and "length (completion s) + 2 \<le> length nows"
  shows "AnsPop (Some (Shutdown msg)) \<in> set (fst (run_ops exec_core (map OpPop nows) s))"
proof -
  have "of_bool (drain_ingress s \<noteq> None) + length (completion s) < length nows"
    using assms(4) by (cases "drain_ingress s") auto
  with core_reach_inv [OF assms(2,1)] assms(3) show ?thesis
    by (intro shutdown_within) auto
qed

definition stop5 :: shutdown_msg where
  "stop5 = \<lparr>sd_deadline = 5, sd_reason = ''stop''\<rparr>"

definition core_stopping :: "(nat, unit, nat) inner" where
  \<comment> \<open>two completions queued, then shutdown recorded\<close>
  "core_stopping = snd (exec_core (OpShutdown 2 stop5)
     (snd (exec_core (OpTrySend 1 ack7)
       (snd (exec_core (OpTrySend 0 ack7) (new_inner default_config))))))"

lemma core_stopping_reach: "core_reach default_config core_stopping"
  unfolding core_stopping_def by (intro core_reach.intros)

lemma core_stopping_shutdown:
  "shutdown core_stopping = Some stop5" "drain_ingress core_stopping = None"
  "completion core_stopping = [CompletionAck (ack_new 7), CompletionAck (ack_new 7)]"
  by (simp_all add: core_stopping_def stop5_def core_eval)

theorem shutdown_is_delivered_witness:
  "AnsPop (Some (Shutdown stop5)) \<in>
     set (fst (run_ops exec_core (map OpPop [3, 3, 4, 4]) core_stopping))"
  using shutdown_is_delivered [OF config_wf_default core_stopping_reach core_stopping_shutdown(1),
      of "[3, 3, 4, 4]"]
  by (simp add: core_stopping_shutdown(3))

text \<open>
  A shutdown whose deadline has passed is forced: the very next \<^verbatim>\<open>pop_event\<close> (after a pending
  drain token) returns the shutdown token, drops the whole completion backlog, counts it as
  abandoned, and closes the channel.
\<close>

theorem shutdown_forced_at_deadline:
  assumes "config_wf c" and "core_reach c s" and "shutdown s = Some msg"
    and "drain_ingress s = None" and "sd_deadline msg \<le> now"
  shows "\<exists>s'. pop_event now s = (Some (Shutdown msg), s') \<and> completion s' = [] \<and> ci_closed s' \<and>
    shutdown_forced s' \<and>
    completion_abandoned_on_forced_shutdown_total s' = length (completion s)"
proof -
  from core_reach_inv [OF assms(2,1)] have inv: "core_inv s" by simp
  with assms(3) have ph: "ci_phase s = PhShutdownRecorded" "shutdown_deadline s = Some (sd_deadline msg)"
    "completion_abandoned_on_forced_shutdown_total s = 0" "length (completion s) \<le> u64_max"
    by (auto simp: core_inv_def config_wf_def)
  then have f: "shutdown_forced (refresh_shutdown_force now s)"
    using assms(5) by (simp add: refresh_shutdown_force_def)
  then have "pop_event now s = finalize_shutdown True (refresh_shutdown_force now s)"
    using ph(1) assms(4) by (simp add: pop_event_eq)
  with f ph assms(3) show ?thesis
    by (auto simp: finalize_shutdown_def Let_def clear_normal_pending_def bump_version_def sat_add_exact)
qed

text \<open>
  C16. The shutdown token is terminal: after \<^verbatim>\<open>pop_event\<close> has delivered it, whatever calls follow,
  every send answers \<^verbatim>\<open>Closed\<close>, every lifecycle token is refused as \<^verbatim>\<open>Closed\<close>, and no further
  event, in particular no second shutdown, is ever delivered.
\<close>

theorem nothing_after_shutdown:
  assumes "config_wf c" and "core_reach c s"
    and "pop_event now s = (Some (Shutdown msg), s1)"
    and "run_ops exec_core ops s1 = (answers, s2)"
  shows "\<forall>r \<in> set answers. inert r"
proof -
  from core_reach_inv [OF assms(2,1)] have "core_inv s" by simp
  then have "finished s1" using assms(3) by (rule pop_shutdown_finished)
  then show ?thesis using assms(4) by (rule finished_run)
qed

theorem nothing_after_shutdown_witness:
  "\<exists>s1. pop_event 5 core_stopping = (Some (Shutdown stop5), s1) \<and>
    (\<forall>r \<in> set (fst (run_ops exec_core [OpTrySend 6 ack7, OpPop 7, OpShutdown 8 stop5] s1)). inert r)"
proof -
  obtain s1 where s1: "pop_event 5 core_stopping = (Some (Shutdown stop5), s1)"
    by (auto simp: core_stopping_def stop5_def core_eval)
  obtain rs s2 where "run_ops exec_core [OpTrySend 6 ack7, OpPop 7, OpShutdown 8 stop5] s1 = (rs, s2)"
    by (metis surj_pair)
  with nothing_after_shutdown [OF config_wf_default core_stopping_reach s1 this] s1
  show ?thesis by simp
qed

text \<open>
  Lifecycle tokens have reserved capacity: on a core that is neither closed nor forced and
  has not yet recorded a drain, \<^verbatim>\<open>record_drain_ingress\<close> is accepted however full the completion
  backlog is, discards all pending normal work, and is the next event delivered.
\<close>

theorem drain_ingress_reserved:
  assumes "config_wf c" and "core_reach c s" and "\<not> ci_closed s" and "\<not> drain_ingress_recorded s"
    and "\<not> shutdown_forced (refresh_shutdown_force now s)"
  shows "\<exists>s'. record_drain_ingress now msg s = (LcAccepted, s') \<and>
    \<not> has_pending_normal_event s' \<and> completion s' = completion s \<and>
    fst (pop_event later s') = Some (DrainIngress msg)"
  using assms(3-5)
  unfolding record_drain_ingress_def refresh_guard Let_def
  by (simp add: clear_normal_pending_def has_pending_normal_event_def bump_version_def pop_event_eq)

text \<open>
  A failed send loses nothing: when \<^verbatim>\<open>try_send\<close> returns an error it hands back the very
  command it was given and leaves the queue as it was (up to noticing that the shutdown
  deadline has passed); \<^verbatim>\<open>Closed\<close> is returned only by a closed or forced core, and \<^verbatim>\<open>Full\<close>
  only for a completion that finds the backlog at capacity.
\<close>

theorem try_send_error_returns_command:
  assumes "try_send now cmd s = (Inl e, s')"
  shows "s' = refresh_shutdown_force now s \<and>
    (e = TrySendClosed cmd \<and> (ci_closed s' \<or> shutdown_forced s') \<or>
     e = TrySendFull Backpressured cmd \<and> \<not> ci_closed s' \<and> \<not> shutdown_forced s' \<and>
       completion_msg_capacity (ci_config s) \<le> length (completion s) \<and>
       ((\<exists>a. cmd = CmdAck a) \<or> (\<exists>n. cmd = CmdNack n)))"
  by (rule try_send_errors [OF assms])

text \<open>
  Waiters are never left behind: if a call leaves the generation counter \<^verbatim>\<open>version\<close>
  unchanged, then it changed nothing a blocked party waits for. At every clock reading the
  receiver finds an event exactly if it did before, and a sender finds the queue full exactly
  if it did before.
\<close>

theorem version_guards_waiters:
  assumes "config_wf c" and "core_reach c s"
    and "exec_core op s = (r, s')" and "version s' = version s"
  shows "(fst (pop_event t s') = None \<longleftrightarrow> fst (pop_event t s) = None) \<and>
    ((\<exists>a. fst (try_send t cmd s') = Inl (TrySendFull a cmd)) \<longleftrightarrow>
     (\<exists>a. fst (try_send t cmd s) = Inl (TrySendFull a cmd)))"
proof -
  from core_reach_inv [OF assms(2,1)] have inv: "core_inv s" by simp
  then have inv': "core_inv s'" using assms(3) by (rule core.step_inv_eq)
  have w: "same_waits s s'" using exec_version [of op s] assms(3,4) by simp
  then show ?thesis
    using pop_ready_any_clock [OF inv, of t] pop_ready_any_clock [OF inv', of t] same_waits_send [OF w]
    by (simp add: same_waits_def)
qed

text \<open>
  Deadlines are reported exactly: where \<^verbatim>\<open>next_deadline\<close> is \<^verbatim>\<open>None\<close>, waiting for the clock
  cannot change the answer of a send; and whether \<^verbatim>\<open>pop_event\<close> finds an event never depends on
  the clock at all.
\<close>

theorem next_deadline_sufficient:
  assumes "config_wf c" and "core_reach c s" and "next_deadline s = None"
  shows "fst (try_send now cmd s) = fst (try_send now' cmd s) \<and>
    (fst (pop_event now s) = None \<longleftrightarrow> fst (pop_event now' s) = None)"
  using core_reach_inv [OF assms(2,1)] try_send_clock [OF _ assms(3)] pop_ready_any_clock [of s]
  by blast

end
