(* ===== verification/Waiter_Spec.thy ===== *)
theory Waiter_Spec
  imports Prelude
begin

section \<open>The contract of a keyed waiter queue\<close>

text \<open>
  Blocked senders park in a keyed waiter structure. Two crates have their own copy of it
  (\<^verbatim>\<open>SenderWaiters\<close> in \<^verbatim>\<open>crates/channel/src/mpsc.rs\<close> and in
  \<^verbatim>\<open>crates/control-channel/src/channel.rs\<close>); this theory states what the channels built on
  top rely on. A waiter is named by a key. \<open>regd\<close> are the keys in use, \<open>waiting\<close> those of them
  that are queued for a wakeup, \<open>requeue\<close> those that may be queued again, and \<open>fits\<close> says that a
  new waiter can be taken in. Tasks are numbers; waking a task is naming it.
\<close>

type_synonym task = nat

datatype waiter_key = WaiterKey (wk_index: nat) (wk_generation: u64)

locale waiter_queue =
  fixes invar :: "'w \<Rightarrow> bool"
    and regd :: "'w \<Rightarrow> waiter_key set"
    and waiting :: "'w \<Rightarrow> waiter_key set"
    and requeue :: "'w \<Rightarrow> waiter_key set"
    and empty :: 'w
    and register :: "waiter_key option \<Rightarrow> task \<Rightarrow> 'w \<Rightarrow> waiter_key option \<times> 'w"
    and unregister :: "waiter_key \<Rightarrow> 'w \<Rightarrow> 'w"
    and wake_all :: "'w \<Rightarrow> task list \<times> 'w"
    and fits :: "'w \<Rightarrow> bool"
  assumes empty: "invar empty" "regd empty = {}" "waiting empty = {}"
    and finite_regd: "invar w \<Longrightarrow> finite (regd w)"
    and waiting_requeue: "invar w \<Longrightarrow> waiting w \<subseteq> requeue w"
    and requeue_regd: "invar w \<Longrightarrow> requeue w \<subseteq> regd w"
    and refresh:
      "invar w \<Longrightarrow> k \<in> requeue w \<Longrightarrow> register (Some k) t w = (ko, w') \<Longrightarrow>
         ko = Some k \<and> invar w' \<and> regd w' = regd w \<and> waiting w' = insert k (waiting w)"
    and enter:
      "invar w \<Longrightarrow> fits w \<Longrightarrow> (\<And>k. k0 = Some k \<Longrightarrow> k \<notin> regd w) \<Longrightarrow> register k0 t w = (ko, w') \<Longrightarrow>
         \<exists>k. ko = Some k \<and> k \<notin> regd w \<and> invar w' \<and> regd w' = insert k (regd w) \<and>
             waiting w' = insert k (waiting w)"
    and leave:
      "invar w \<Longrightarrow> invar (unregister k w) \<and> regd (unregister k w) = regd w - {k} \<and>
         waiting (unregister k w) = waiting w - {k}"
    and wake_all:
      "invar w \<Longrightarrow> wake_all w = (ts, w') \<Longrightarrow>
         invar w' \<and> regd w' = regd w \<and> waiting w' = {}"
begin

lemma waiting_regd: "invar w \<Longrightarrow> waiting w \<subseteq> regd w"
  using waiting_requeue requeue_regd by blast

lemma finite_waiting: "invar w \<Longrightarrow> finite (waiting w)"
  using finite_regd waiting_regd by (blast intro: finite_subset)

lemma leave_absent: "invar w \<Longrightarrow> k \<notin> regd w \<Longrightarrow> regd (unregister k w) = regd w \<and> waiting (unregister k w) = waiting w"
  using leave [of w k] waiting_regd [of w] by auto

lemma enter_None:
  "invar w \<Longrightarrow> fits w \<Longrightarrow> register None t w = (ko, w') \<Longrightarrow>
     \<exists>k. ko = Some k \<and> k \<notin> regd w \<and> invar w' \<and> regd w' = insert k (regd w) \<and>
         waiting w' = insert k (waiting w)"
  by (rule enter) auto

end

text \<open>
  A waiter structure that reserves a slot for the waiter it wakes: \<open>granted\<close> are the keys that
  own an unused reservation.
\<close>

locale reserving_waiters =
  waiter_queue invar regd waiting requeue empty register unregister wake_all fits
  for invar :: "'w \<Rightarrow> bool"
    and regd waiting requeue empty register unregister wake_all fits +
  fixes granted :: "'w \<Rightarrow> waiter_key set"
    and reserve_one :: "'w \<Rightarrow> task option \<times> 'w"
    and consume :: "waiter_key \<Rightarrow> 'w \<Rightarrow> bool \<times> 'w"
  assumes granted_empty: "granted empty = {}"
    and granted_regd: "invar w \<Longrightarrow> granted w \<subseteq> regd w - waiting w"
    and requeue_eq: "invar w \<Longrightarrow> requeue w = regd w - granted w"
    and granted_refresh:
      "invar w \<Longrightarrow> register k0 t w = (ko, w') \<Longrightarrow> (\<And>k. k0 = Some k \<Longrightarrow> k \<notin> granted w) \<Longrightarrow>
         granted w' = granted w"
    and granted_leave: "invar w \<Longrightarrow> granted (unregister k w) = granted w - {k}"
    and granted_wake_all: "invar w \<Longrightarrow> wake_all w = (ts, w') \<Longrightarrow> granted w' = granted w"
    and reserve_None:
      "invar w \<Longrightarrow> reserve_one w = (None, w') \<Longrightarrow>
         waiting w = {} \<and> invar w' \<and> regd w' = regd w \<and> waiting w' = {} \<and> granted w' = granted w"
    and reserve_Some:
      "invar w \<Longrightarrow> reserve_one w = (Some t, w') \<Longrightarrow>
         \<exists>k \<in> waiting w. invar w' \<and> regd w' = regd w \<and> waiting w' = waiting w - {k} \<and>
            granted w' = insert k (granted w)"
    and consume:
      "invar w \<Longrightarrow> consume k w = (b, w') \<Longrightarrow>
         b = (k \<in> granted w) \<and> invar w' \<and> regd w' = regd w \<and> waiting w' = waiting w \<and>
         granted w' = granted w - {k}"
begin

lemma finite_granted: "invar w \<Longrightarrow> finite (granted w)"
  using finite_regd granted_regd by (blast intro: finite_subset)

lemma reserve_card:
  assumes "invar w" "reserve_one w = (Some t, w')"
  shows "card (granted w') = Suc (card (granted w))"
proof -
  from reserve_Some [OF assms] obtain k where "k \<in> waiting w" "granted w' = insert k (granted w)"
    by blast
  moreover from this(1) granted_regd [OF assms(1)] have "k \<notin> granted w" by blast
  ultimately show ?thesis by (simp add: finite_granted [OF assms(1)])
qed

lemma consume_card:
  assumes "invar w" "consume k w = (True, w')"
  shows "card (granted w) = Suc (card (granted w'))"
proof -
  from consume [OF assms] have "k \<in> granted w" "granted w' = granted w - {k}" by simp_all
  then show ?thesis using card.remove [OF finite_granted [OF assms(1)], of k] by (simp only:)
qed

lemma leave_card:
  assumes "invar w"
  shows "card (granted w) = card (granted (unregister k w)) + of_bool (k \<in> granted w)"
proof (cases "k \<in> granted w")
  case True
  show ?thesis unfolding granted_leave [OF assms]
    using card.remove [OF finite_granted [OF assms] True] True by simp
next
  case False
  then show ?thesis by (simp add: granted_leave [OF assms])
qed

end

text \<open>
  The order in which waiters are served. \<open>line\<close> lists the waiting keys with their tasks, first to be
  served first; \<open>tidy\<close> strengthens the invariant by the uniqueness of the generations in use and
  \<open>room\<close> says that the generation counter has not come round.
\<close>

locale waiter_line =
  waiter_queue invar regd waiting requeue empty register unregister wake_all fits
  for invar :: "'w \<Rightarrow> bool"
    and regd waiting requeue empty register unregister wake_all fits +
  fixes line :: "'w \<Rightarrow> (waiter_key \<times> task) list"
    and tidy :: "'w \<Rightarrow> bool"
    and room :: "'w \<Rightarrow> bool"
  assumes tidy_empty: "tidy empty"
    and tidy_invar: "tidy w \<Longrightarrow> invar w"
    and line_keys: "tidy w \<Longrightarrow> distinct (map fst (line w)) \<and> fst ` set (line w) = waiting w"
    and line_refresh:
      "tidy w \<Longrightarrow> k \<in> requeue w \<Longrightarrow> register (Some k) t w = (ko, w') \<Longrightarrow>
         tidy w' \<and> line w' = (if k \<in> waiting w
           then map (\<lambda>p. if fst p = k then (k, t) else p) (line w) else line w @ [(k, t)])"
    and line_enter:
      "tidy w \<Longrightarrow> room w \<Longrightarrow> (\<And>k. k0 = Some k \<Longrightarrow> k \<notin> regd w) \<Longrightarrow> register k0 t w = (ko, w') \<Longrightarrow>
         tidy w' \<and> line w' = line w @ [(the ko, t)]"
    and line_leave:
      "tidy w \<Longrightarrow> tidy (unregister k w) \<and> line (unregister k w) = filter (\<lambda>p. fst p \<noteq> k) (line w)"
    and line_wake_all:
      "tidy w \<Longrightarrow> wake_all w = (ts, w') \<Longrightarrow> tidy w' \<and> ts = map snd (line w) \<and> line w' = []"
begin

lemma waiting_empty_iff: "tidy w \<Longrightarrow> waiting w = {} \<longleftrightarrow> line w = []"
  using line_keys [of w] by auto

text \<open>
  Whatever happens to the others, a waiter never loses its place to a later arrival: registering or
  cancelling other waiters leaves everything in front of it, in the same order.
\<close>

lemma enter_keeps_place:
  assumes "tidy w" "room w" "line w = front @ (k, u) # rest" "register None t w = (ko, w')"
  shows "\<exists>rest'. line w' = front @ (k, u) # rest'"
  using line_enter [of w None t ko w'] assms by simp

lemma leave_keeps_place:
  assumes "tidy w" "line w = front @ (k, u) # rest" "j \<noteq> k"
  shows "\<exists>rest'. line (unregister j w) = filter (\<lambda>p. fst p \<noteq> j) front @ (k, u) # rest'"
  using line_leave [of w j] assms by simp

end

text \<open>
  A waiter structure that wakes the first waiters of its line, as many as slots were freed.
\<close>

locale batch_waiters =
  waiter_line invar regd waiting requeue empty register unregister wake_all fits line tidy room
  for invar :: "'w \<Rightarrow> bool"
    and regd waiting requeue empty register unregister wake_all fits line tidy room +
  fixes wake_n :: "nat \<Rightarrow> 'w \<Rightarrow> task list \<times> 'w"
  assumes wake_n:
    "tidy w \<Longrightarrow> wake_n n w = (ts, w') \<Longrightarrow>
       tidy w' \<and> regd w' = regd w \<and> line w' = drop n (line w) \<and> ts = map snd (take n (line w))"
begin

lemma card_waiting: "tidy w \<Longrightarrow> card (waiting w) = length (line w)"
  using line_keys [of w] distinct_card [of "map fst (line w)"] by auto

lemma wake_n_waiting:
  assumes "tidy w" "wake_n n w = (ts, w')"
  shows "waiting w' \<subseteq> waiting w" "card (waiting w') = card (waiting w) - n"
proof -
  have w': "tidy w'" "line w' = drop n (line w)" using wake_n [OF assms] by simp_all
  have "fst ` set (drop n (line w)) \<subseteq> fst ` set (line w)" using set_drop_subset by fast
  then show "waiting w' \<subseteq> waiting w" using line_keys [OF assms(1)] line_keys [OF w'(1)] w'(2) by simp
  show "card (waiting w') = card (waiting w) - n" using card_waiting assms(1) w' by simp
qed

text \<open>
  The waiters that were woken and did not come back yet. While someone still waits after waking
  \<open>n\<close> waiters, there are \<open>n\<close> more of them.
\<close>

lemma wake_n_woken:
  assumes "tidy w" "wake_n n w = (ts, w')" "waiting w' \<noteq> {}"
  shows "card (regd w' - waiting w') = card (regd w - waiting w) + n"
proof -
  have w': "tidy w'" "regd w' = regd w" using wake_n [OF assms(1,2)] by simp_all
  note inv = tidy_invar [OF assms(1)] tidy_invar [OF w'(1)]
  have fin: "finite (waiting w)" "finite (waiting w')" using finite_waiting inv by blast+
  have "0 < card (waiting w')" using assms(3) fin(2) by (simp add: card_gt_0_iff)
  then have "card (waiting w) = card (waiting w') + n" using wake_n_waiting(2) [OF assms(1,2)] by simp
  moreover have "card (waiting w) \<le> card (regd w)" by (rule card_mono [OF finite_regd waiting_regd]) (rule inv)+
  moreover have "card (regd w - waiting w) = card (regd w) - card (waiting w)"
    by (rule card_Diff_subset [OF fin(1) waiting_regd [OF inv(1)]])
  moreover have "card (regd w' - waiting w') = card (regd w') - card (waiting w')"
    by (rule card_Diff_subset [OF fin(2) waiting_regd [OF inv(2)]])
  ultimately show ?thesis using w'(2) by simp
qed

lemma served_are_first:
  assumes "tidy w" "wake_n n w = (ts, w')"
  shows "map snd (line w) = ts @ map snd (line w')"
  using wake_n [OF assms] by (simp flip: map_append)

end

end
