(* ===== verification/Mpsc_Waiters.thy ===== *)
theory Mpsc_Waiters
  imports Waiter_Spec
begin

section \<open>Blocked senders of the data channel\<close>

text \<open>
  \<^verbatim>\<open>SenderWaiters\<close> of \<^verbatim>\<open>crates/channel/src/mpsc.rs\<close>. A waker is the number of the task it
  wakes, and \<^verbatim>\<open>will_wake\<close> is equality; operations that wake return the tasks they wake, in
  order. \<^verbatim>\<open>free_slots\<close> is a stack whose top is the end of the list, as in the source's \<^verbatim>\<open>Vec\<close>.
\<close>

record waiter_slot =
  sl_generation :: u64
  sl_waker :: "task option"
  sl_in_use :: bool
  sl_queued :: bool
  sl_reserved :: bool

definition vacant :: waiter_slot where
  "vacant = \<lparr>sl_generation = 0, sl_waker = None, sl_in_use = False, sl_queued = False,
             sl_reserved = False\<rparr>"

record sender_waiters =
  wq_queue :: "waiter_key list"
  wq_slots :: "waiter_slot list"
  wq_free :: "nat list"
  wq_next_generation :: u64

definition new_waiters :: sender_waiters where
  "new_waiters = \<lparr>wq_queue = [], wq_slots = [], wq_free = [], wq_next_generation = 0\<rparr>"

definition live_entry :: "waiter_slot list \<Rightarrow> waiter_key \<Rightarrow> bool" where
  \<comment> \<open>negation of the staleness test of \<^verbatim>\<open>reserve_one\<close> and \<^verbatim>\<open>wake_all\<close>, slot lookup included\<close>
  "live_entry slots k \<longleftrightarrow> wk_index k < length slots \<and> sl_in_use (slots ! wk_index k) \<and>
     sl_generation (slots ! wk_index k) = wk_generation k \<and> sl_queued (slots ! wk_index k)"

fun reserve_loop ::
  "waiter_key list \<Rightarrow> waiter_slot list \<Rightarrow> task option \<times> waiter_key list \<times> waiter_slot list" where
  "reserve_loop [] slots = (None, [], slots)"
| "reserve_loop (k # q) slots =
     (if \<not> live_entry slots k then reserve_loop q slots
      else
        let i = wk_index k; slot = (slots ! i)\<lparr>sl_queued := False\<rparr>
        in case sl_waker slot of
             Some t \<Rightarrow> (Some t, q, slots[i := slot\<lparr>sl_waker := None, sl_reserved := True\<rparr>])
           | None \<Rightarrow> reserve_loop q (slots[i := slot]))"

definition reserve_one :: "sender_waiters \<Rightarrow> task option \<times> sender_waiters" where
  "reserve_one w =
     (let (t, q, slots) = reserve_loop (wq_queue w) (wq_slots w)
      in (t, w\<lparr>wq_queue := q, wq_slots := slots\<rparr>))"

fun wake_loop :: "waiter_key list \<Rightarrow> waiter_slot list \<Rightarrow> task list \<times> waiter_slot list" where
  "wake_loop [] slots = ([], slots)"
| "wake_loop (k # q) slots =
     (if \<not> live_entry slots k then wake_loop q slots
      else
        let i = wk_index k; slot = (slots ! i)\<lparr>sl_queued := False\<rparr>
        in case sl_waker slot of
             Some t \<Rightarrow> apfst (Cons t) (wake_loop q (slots[i := slot\<lparr>sl_waker := None\<rparr>]))
           | None \<Rightarrow> wake_loop q (slots[i := slot]))"

definition wake_all :: "sender_waiters \<Rightarrow> task list \<times> sender_waiters" where
  "wake_all w =
     (let (ts, slots) = wake_loop (wq_queue w) (wq_slots w)
      in (ts, w\<lparr>wq_queue := [], wq_slots := slots\<rparr>))"

definition owns_key :: "waiter_slot list \<Rightarrow> waiter_key \<Rightarrow> bool" where
  \<comment> \<open>the slot of the key exists, is in use and has the key's generation\<close>
  "owns_key slots k \<longleftrightarrow> wk_index k < length slots \<and> sl_in_use (slots ! wk_index k) \<and>
     sl_generation (slots ! wk_index k) = wk_generation k"

definition refresh_waiter :: "waiter_key \<Rightarrow> task \<Rightarrow> sender_waiters \<Rightarrow> sender_waiters" where
  "refresh_waiter k t w =
     (let slot = wq_slots w ! wk_index k;
          slot1 = (if sl_waker slot = Some t then slot else slot\<lparr>sl_waker := Some t\<rparr>)
      in if sl_queued slot1 then w\<lparr>wq_slots := (wq_slots w)[wk_index k := slot1]\<rparr>
         else w\<lparr>wq_slots := (wq_slots w)[wk_index k := slot1\<lparr>sl_queued := True\<rparr>],
                wq_queue := wq_queue w @ [k]\<rparr>)"

definition enter_waiter :: "task \<Rightarrow> sender_waiters \<Rightarrow> waiter_key \<times> sender_waiters" where
  "enter_waiter t w =
     (let (i, free, slots) =
            (if wq_free w \<noteq> [] then (last (wq_free w), butlast (wq_free w), wq_slots w)
             else (length (wq_slots w), [], wq_slots w @ [vacant]));
          g = wq_next_generation w;
          slot = (slots ! i)\<lparr>sl_generation := g, sl_waker := Some t, sl_in_use := True,
                             sl_queued := True, sl_reserved := False\<rparr>;
          k = WaiterKey i g
      in (k, w\<lparr>wq_queue := wq_queue w @ [k], wq_slots := slots[i := slot], wq_free := free,
               wq_next_generation := g + 1\<rparr>))"

definition register_or_refresh ::
  "waiter_key option \<Rightarrow> task \<Rightarrow> sender_waiters \<Rightarrow> waiter_key option \<times> sender_waiters" where
  "register_or_refresh ko t w =
     (case ko of
        Some k \<Rightarrow>
          if owns_key (wq_slots w) k then (ko, refresh_waiter k t w)
          else map_prod Some id (enter_waiter t w)
      | None \<Rightarrow> map_prod Some id (enter_waiter t w))"

definition consume_reservation :: "waiter_key \<Rightarrow> sender_waiters \<Rightarrow> bool \<times> sender_waiters" where
  "consume_reservation k w =
     (if \<not> owns_key (wq_slots w) k then (False, w)
      else
        let slot = wq_slots w ! wk_index k
        in (sl_reserved slot,
            w\<lparr>wq_slots := (wq_slots w)[wk_index k := slot\<lparr>sl_reserved := False\<rparr>]\<rparr>))"

definition unregister :: "waiter_key \<Rightarrow> sender_waiters \<Rightarrow> bool \<times> sender_waiters" where
  "unregister k w =
     (if \<not> owns_key (wq_slots w) k then (False, w)
      else
        let slot = wq_slots w ! wk_index k
        in (sl_reserved slot,
            w\<lparr>wq_slots := (wq_slots w)[wk_index k :=
                slot\<lparr>sl_in_use := False, sl_queued := False, sl_waker := None,
                     sl_reserved := False\<rparr>],
              wq_free := wq_free w @ [wk_index k]\<rparr>))"

subsection \<open>Well-formed waiters\<close>

text \<open>
  The keys of the slots that satisfy a predicate; the sets of the contract are instances of it.
\<close>

definition keys_where :: "(waiter_slot \<Rightarrow> bool) \<Rightarrow> waiter_slot list \<Rightarrow> waiter_key set" where
  "keys_where P slots = {k. wk_index k < length slots \<and>
     sl_generation (slots ! wk_index k) = wk_generation k \<and> P (slots ! wk_index k)}"

definition regd :: "sender_waiters \<Rightarrow> waiter_key set" where
  "regd w = keys_where sl_in_use (wq_slots w)"

definition waiting :: "sender_waiters \<Rightarrow> waiter_key set" where
  "waiting w = keys_where (\<lambda>s. sl_in_use s \<and> sl_queued s) (wq_slots w)"

definition granted :: "sender_waiters \<Rightarrow> waiter_key set" where
  "granted w = keys_where (\<lambda>s. sl_in_use s \<and> sl_reserved s) (wq_slots w)"

definition requeue :: "sender_waiters \<Rightarrow> waiter_key set" where
  "requeue w = keys_where (\<lambda>s. sl_in_use s \<and> \<not> sl_reserved s) (wq_slots w)"

lemmas key_sets = regd_def waiting_def granted_def requeue_def

definition slots_ok :: "waiter_key list \<Rightarrow> waiter_slot list \<Rightarrow> bool" where
  "slots_ok q slots \<longleftrightarrow> (\<forall>i < length slots.
     (sl_queued (slots ! i) \<longrightarrow> sl_in_use (slots ! i) \<and> \<not> sl_reserved (slots ! i) \<and>
        sl_waker (slots ! i) \<noteq> None \<and> WaiterKey i (sl_generation (slots ! i)) \<in> set q) \<and>
     (sl_reserved (slots ! i) \<longrightarrow> sl_in_use (slots ! i)))"

definition free_ok :: "nat list \<Rightarrow> waiter_slot list \<Rightarrow> bool" where
  "free_ok free slots \<longleftrightarrow> distinct free \<and>
     (\<forall>i. i \<in> set free \<longleftrightarrow> i < length slots \<and> \<not> sl_in_use (slots ! i))"

definition waiters_wf :: "sender_waiters \<Rightarrow> bool" where
  "waiters_wf w \<longleftrightarrow> slots_ok (wq_queue w) (wq_slots w) \<and> free_ok (wq_free w) (wq_slots w)"

lemma keys_whereI [intro?]:
  "i < length slots \<Longrightarrow> P (slots ! i) \<Longrightarrow> WaiterKey i (sl_generation (slots ! i)) \<in> keys_where P slots"
  by (simp add: keys_where_def)

lemma finite_keys_where [simp]: "finite (keys_where P slots)"
proof -
  have "keys_where P slots \<subseteq> (\<lambda>i. WaiterKey i (sl_generation (slots ! i))) ` {..< length slots}"
    by (auto simp: keys_where_def image_iff) (metis lessThan_iff waiter_key.collapse)
  then show ?thesis by (rule finite_subset) simp
qed

lemma keys_where_mono: "(\<And>s. P s \<Longrightarrow> Q s) \<Longrightarrow> keys_where P slots \<subseteq> keys_where Q slots"
  by (auto simp: keys_where_def)

lemma keys_where_update:
  "i < length slots \<Longrightarrow> keys_where P (slots[i := s]) =
     {k \<in> keys_where P slots. wk_index k \<noteq> i} \<union> (if P s then {WaiterKey i (sl_generation s)} else {})"
  by (auto simp: keys_where_def nth_list_update waiter_key.expand split: if_splits)

lemma keys_where_same_index:
  "k \<in> keys_where P slots \<Longrightarrow>
     {k' \<in> keys_where Q slots. wk_index k' \<noteq> wk_index k} = keys_where Q slots - {k}"
  by (auto simp: keys_where_def intro: waiter_key.expand)

lemma keys_where_snoc:
  "\<not> P vacant \<Longrightarrow> keys_where P (slots @ [vacant]) = keys_where P slots"
  by (auto simp: keys_where_def nth_append split: if_splits)

lemma owns_key_iff: "owns_key (wq_slots w) k \<longleftrightarrow> k \<in> regd w"
  by (auto simp: owns_key_def regd_def keys_where_def)

lemma live_entry_iff: "live_entry slots k \<longleftrightarrow> k \<in> keys_where (\<lambda>s. sl_in_use s \<and> sl_queued s) slots"
  by (auto simp: live_entry_def keys_where_def)

lemma slots_ok_update:
  assumes "slots_ok q slots" "i < length slots"
    and "\<And>j. j < length slots \<Longrightarrow> j \<noteq> i \<Longrightarrow> sl_queued (slots ! j) \<Longrightarrow>
           WaiterKey j (sl_generation (slots ! j)) \<in> set q'"
    and "sl_queued s \<Longrightarrow> sl_in_use s \<and> \<not> sl_reserved s \<and> sl_waker s \<noteq> None \<and>
           WaiterKey i (sl_generation s) \<in> set q'"
    and "sl_reserved s \<Longrightarrow> sl_in_use s"
  shows "slots_ok q' (slots[i := s])"
  unfolding slots_ok_def length_list_update
proof (intro allI impI)
  fix j assume "j < length slots"
  then show "(sl_queued (slots[i := s] ! j) \<longrightarrow> sl_in_use (slots[i := s] ! j) \<and>
      \<not> sl_reserved (slots[i := s] ! j) \<and> sl_waker (slots[i := s] ! j) \<noteq> None \<and>
      WaiterKey j (sl_generation (slots[i := s] ! j)) \<in> set q') \<and>
     (sl_reserved (slots[i := s] ! j) \<longrightarrow> sl_in_use (slots[i := s] ! j))"
    using assms by (cases "j = i") (simp_all add: slots_ok_def)
qed

lemma free_ok_update:
  "free_ok free slots \<Longrightarrow> i < length slots \<Longrightarrow> sl_in_use s = sl_in_use (slots ! i) \<Longrightarrow>
     free_ok free (slots[i := s])"
  by (auto simp: free_ok_def nth_list_update)

subsection \<open>What the loops do\<close>

lemma queued_key_live:
  "slots_ok q slots \<Longrightarrow> i < length slots \<Longrightarrow> sl_queued (slots ! i) \<Longrightarrow>
     live_entry slots (WaiterKey i (sl_generation (slots ! i)))"
  by (simp add: slots_ok_def live_entry_def)

lemma slots_ok_skip:
  "slots_ok (k # q) slots \<Longrightarrow> \<not> live_entry slots k \<Longrightarrow> slots_ok q slots"
  by (auto simp: slots_ok_def live_entry_def)

lemma live_waker:
  "slots_ok q slots \<Longrightarrow> live_entry slots k \<Longrightarrow> \<exists>t. sl_waker (slots ! wk_index k) = Some t"
  by (auto simp: slots_ok_def live_entry_def)

lemma slots_ok_serve:
  assumes "slots_ok (k # q) slots" "live_entry slots k" "\<not> sl_queued s"
    and "sl_reserved s \<Longrightarrow> sl_in_use s"
  shows "slots_ok q (slots[wk_index k := s])"
proof (rule slots_ok_update [OF assms(1)])
  show "wk_index k < length slots" using assms(2) by (simp add: live_entry_def)
  fix j assume j: "j < length slots" "j \<noteq> wk_index k" "sl_queued (slots ! j)"
  then have "WaiterKey j (sl_generation (slots ! j)) \<in> set (k # q)"
    using assms(1) by (simp add: slots_ok_def)
  with j(2) show "WaiterKey j (sl_generation (slots ! j)) \<in> set q" by auto
qed (use assms in auto)

lemma reserve_loop_None:
  "slots_ok q slots \<Longrightarrow> reserve_loop q slots = (None, q', slots') \<Longrightarrow>
     q' = [] \<and> slots' = slots \<and> keys_where (\<lambda>s. sl_in_use s \<and> sl_queued s) slots = {}"
proof (induction q slots rule: reserve_loop.induct)
  case (1 slots)
  then show ?case by (auto simp: slots_ok_def keys_where_def)
next
  case (2 k q slots)
  show ?case
  proof (cases "live_entry slots k")
    case True
    with 2(3) obtain t where "sl_waker (slots ! wk_index k) = Some t" using live_waker by blast
    with True 2(4) show ?thesis by (simp add: Let_def)
  next
    case False
    with 2 slots_ok_skip show ?thesis by auto
  qed
qed

lemma reserve_loop_Some:
  "slots_ok q slots \<Longrightarrow> reserve_loop q slots = (Some t, q', slots') \<Longrightarrow>
     \<exists>k stale. q = stale @ k # q' \<and> (\<forall>x \<in> set stale. \<not> live_entry slots x) \<and> live_entry slots k \<and>
       sl_waker (slots ! wk_index k) = Some t \<and> slots_ok q' slots' \<and>
       slots' = slots[wk_index k := (slots ! wk_index k)
         \<lparr>sl_queued := False, sl_waker := None, sl_reserved := True\<rparr>]"
proof (induction q slots rule: reserve_loop.induct)
  case (1 slots)
  then show ?case by simp
next
  case (2 k q slots)
  show ?case
  proof (cases "live_entry slots k")
    case True
    with 2(3) obtain u where u: "sl_waker (slots ! wk_index k) = Some u" using live_waker by blast
    define s where "s = (slots ! wk_index k)\<lparr>sl_queued := False, sl_waker := None, sl_reserved := True\<rparr>"
    from u True 2(4) have e: "t = u" "q' = q" "slots' = slots[wk_index k := s]"
      by (simp_all add: Let_def s_def)
    moreover have "slots_ok q (slots[wk_index k := s])"
      by (rule slots_ok_serve [OF 2(3) True]) (use True in \<open>simp_all add: s_def live_entry_def\<close>)
    ultimately show ?thesis using True u by (intro exI [of _ k] exI [of _ "[]"]) (simp add: s_def)
  next
    case False
    from 2(1) [OF False slots_ok_skip [OF 2(3) False]] 2(4) False obtain k' stale where
      *: "q = stale @ k' # q'" "\<forall>x \<in> set stale. \<not> live_entry slots x" "live_entry slots k'"
         "sl_waker (slots ! wk_index k') = Some t" "slots_ok q' slots'"
         "slots' = slots[wk_index k' := (slots ! wk_index k')
           \<lparr>sl_queued := False, sl_waker := None, sl_reserved := True\<rparr>]"
      by auto
    from *(1) have "k # q = (k # stale) @ k' # q'" by simp
    moreover have "\<forall>x \<in> set (k # stale). \<not> live_entry slots x" using *(2) False by simp
    ultimately show ?thesis using *(3-6) by blast
  qed
qed

definition dequeued :: "waiter_slot \<Rightarrow> waiter_slot" where
  "dequeued s = (if sl_queued s then s\<lparr>sl_queued := False, sl_waker := None\<rparr> else s)"

lemma dequeued_simps [simp]:
  "sl_in_use (dequeued s) = sl_in_use s" "sl_generation (dequeued s) = sl_generation s"
  "sl_reserved (dequeued s) = sl_reserved s" "\<not> sl_queued (dequeued s)"
  by (simp_all add: dequeued_def)

lemma map_dequeued_update:
  "i < length slots \<Longrightarrow> dequeued s = dequeued (slots ! i) \<Longrightarrow>
     map dequeued (slots[i := s]) = map dequeued slots"
  by (simp add: map_update list_update_same_conv)

lemma wake_loop_slots:
  "slots_ok q slots \<Longrightarrow> wake_loop q slots = (ts, slots') \<Longrightarrow> slots' = map dequeued slots"
proof (induction q slots arbitrary: ts rule: wake_loop.induct)
  case (1 slots)
  then have "map dequeued slots = slots"
    by (intro nth_equalityI) (auto simp: slots_ok_def dequeued_def)
  with 1 show ?case by simp
next
  case (2 k q slots)
  show ?case
  proof (cases "live_entry slots k")
    case True
    with 2(4) obtain u where u: "sl_waker (slots ! wk_index k) = Some u" using live_waker by blast
    define s where "s = (slots ! wk_index k)\<lparr>sl_queued := False, sl_waker := None\<rparr>"
    have "slots_ok q (slots[wk_index k := s])"
      by (rule slots_ok_serve [OF 2(4) True])
        (use 2(4) True in \<open>simp_all add: s_def live_entry_def slots_ok_def\<close>)
    moreover from 2(5) True u obtain ts1 where "wake_loop q (slots[wk_index k := s]) = (ts1, slots')"
      by (auto simp: Let_def s_def apfst_def map_prod_def split: prod.splits)
    ultimately have "slots' = map dequeued (slots[wk_index k := s])"
      using 2(2,3) True u by (simp add: s_def)
    then show ?thesis using True
      by (subst (asm) map_dequeued_update) (auto simp: s_def live_entry_def dequeued_def)
  next
    case False
    with 2 slots_ok_skip show ?thesis by auto
  qed
qed

subsection \<open>The data channel's waiters implement the contract\<close>

lemma regdD: "k \<in> regd w \<Longrightarrow> wk_index k < length (wq_slots w) \<and>
    sl_generation (wq_slots w ! wk_index k) = wk_generation k \<and> sl_in_use (wq_slots w ! wk_index k)"
  by (simp add: regd_def keys_where_def)

lemma slot_refresh:
  "sl_queued s \<Longrightarrow> s\<lparr>sl_waker := Some t, sl_queued := True\<rparr> = s\<lparr>sl_waker := Some t\<rparr>"
  "sl_waker s = Some t \<Longrightarrow> s\<lparr>sl_waker := Some t, sl_queued := q\<rparr> = s\<lparr>sl_queued := q\<rparr>"
  "sl_waker s = Some t \<Longrightarrow> sl_queued s \<Longrightarrow> s\<lparr>sl_queued := True\<rparr> = s"
  "sl_waker s = Some t \<Longrightarrow> s\<lparr>sl_waker := Some t\<rparr> = s"
  by (cases s; simp)+

lemma refresh_waiter_slots:
  "\<exists>s q. refresh_waiter k t w = w\<lparr>wq_slots := (wq_slots w)[wk_index k := s], wq_queue := wq_queue w @ q\<rparr> \<and>
     s = (wq_slots w ! wk_index k)\<lparr>sl_waker := Some t, sl_queued := True\<rparr> \<and>
     q = (if sl_queued (wq_slots w ! wk_index k) then [] else [k])"
  by (cases "sl_queued (wq_slots w ! wk_index k)"; cases "sl_waker (wq_slots w ! wk_index k) = Some t")
     (simp_all add: refresh_waiter_def Let_def slot_refresh)

lemma refresh_waiter_law:
  assumes "waiters_wf w" "k \<in> requeue w"
  shows "waiters_wf (refresh_waiter k t w)" "regd (refresh_waiter k t w) = regd w"
    "waiting (refresh_waiter k t w) = insert k (waiting w)"
    "granted (refresh_waiter k t w) = granted w"
proof -
  obtain s q where r: "refresh_waiter k t w =
      w\<lparr>wq_slots := (wq_slots w)[wk_index k := s], wq_queue := wq_queue w @ q\<rparr>"
    and s: "s = (wq_slots w ! wk_index k)\<lparr>sl_waker := Some t, sl_queued := True\<rparr>"
    and q: "q = (if sl_queued (wq_slots w ! wk_index k) then [] else [k])"
    using refresh_waiter_slots by blast
  have k: "k \<in> keys_where (\<lambda>s. sl_in_use s \<and> \<not> sl_reserved s) (wq_slots w)"
    using assms(2) by (simp add: requeue_def)
  then have i: "wk_index k < length (wq_slots w)" "sl_in_use (wq_slots w ! wk_index k)"
    "\<not> sl_reserved (wq_slots w ! wk_index k)"
    "sl_generation (wq_slots w ! wk_index k) = wk_generation k"
    by (simp_all add: keys_where_def)
  from i have ss: "sl_generation s = wk_generation k" "sl_in_use s" "sl_queued s" "\<not> sl_reserved s"
    "sl_waker s \<noteq> None"
    by (simp_all add: s)
  have wf: "slots_ok (wq_queue w) (wq_slots w)" "free_ok (wq_free w) (wq_slots w)"
    using assms(1) by (simp_all add: waiters_wf_def)
  have kq: "k \<in> set (wq_queue w @ q)"
    using wf(1) i q by (auto simp: slots_ok_def)
  have "slots_ok (wq_queue w @ q) ((wq_slots w)[wk_index k := s])"
    by (rule slots_ok_update [OF wf(1) i(1)]) (use wf(1) ss kq in \<open>auto simp: slots_ok_def\<close>)
  moreover have "free_ok (wq_free w) ((wq_slots w)[wk_index k := s])"
    by (rule free_ok_update [OF wf(2) i(1)]) (simp add: i ss)
  ultimately show "waiters_wf (refresh_waiter k t w)" by (simp add: waiters_wf_def r)
  have kk: "k \<in> keys_where sl_in_use (wq_slots w)" using i by (simp add: keys_where_def)
  have kg: "k \<notin> keys_where (\<lambda>s. sl_in_use s \<and> sl_reserved s) (wq_slots w)"
    using i by (simp add: keys_where_def)
  show "regd (refresh_waiter k t w) = regd w"
    "waiting (refresh_waiter k t w) = insert k (waiting w)"
    "granted (refresh_waiter k t w) = granted w"
    using kk kg ss by (auto simp: r key_sets keys_where_update [OF i(1)] keys_where_same_index [OF k])
qed

lemma slot_overwrite:
  "s\<lparr>sl_generation := g, sl_waker := t, sl_in_use := u, sl_queued := q, sl_reserved := r\<rparr> =
     \<lparr>sl_generation = g, sl_waker = t, sl_in_use = u, sl_queued = q, sl_reserved = r\<rparr>"
  by (cases s) simp

lemma enter_waiter_form:
  assumes "waiters_wf w" "enter_waiter t w = (k, w')"
  obtains slots where "\<And>P. \<not> P vacant \<Longrightarrow> keys_where P slots = keys_where P (wq_slots w)"
    "wk_index k < length slots" "\<not> sl_in_use (slots ! wk_index k)"
    "slots_ok (wq_queue w) slots" "wk_generation k = wq_next_generation w"
    "w' = \<lparr>wq_queue = wq_queue w @ [k],
           wq_slots = slots[wk_index k := \<lparr>sl_generation = wk_generation k, sl_waker = Some t,
             sl_in_use = True, sl_queued = True, sl_reserved = False\<rparr>],
           wq_free = wq_free w', wq_next_generation = wq_next_generation w + 1\<rparr>"
    "\<And>i. i < length (wq_slots w) \<Longrightarrow> slots ! i = wq_slots w ! i"
    "distinct (wq_free w')" "\<And>i. i \<in> set (wq_free w') \<longleftrightarrow> i < length slots \<and> i \<noteq> wk_index k \<and> \<not> sl_in_use (slots ! i)"
proof (cases "wq_free w = []")
  case True
  have wf: "slots_ok (wq_queue w) (wq_slots w)" "free_ok [] (wq_slots w)"
    using assms(1) True by (simp_all add: waiters_wf_def)
  show thesis
  proof (rule that [of "wq_slots w @ [vacant]"])
    show "slots_ok (wq_queue w) (wq_slots w @ [vacant])"
      using wf(1) by (auto simp: slots_ok_def nth_append vacant_def less_Suc_eq)
    show "keys_where P (wq_slots w @ [vacant]) = keys_where P (wq_slots w)" if "\<not> P vacant" for P
      using that by (rule keys_where_snoc)
  qed (use assms(2) True wf(2) in
      \<open>auto simp: enter_waiter_def Let_def keys_where_snoc vacant_def nth_append free_ok_def less_Suc_eq\<close>)
next
  case False
  have wf: "slots_ok (wq_queue w) (wq_slots w)" "free_ok (wq_free w) (wq_slots w)"
    using assms(1) by (simp_all add: waiters_wf_def)
  from False obtain ys i where f: "wq_free w = ys @ [i]" by (cases "wq_free w" rule: rev_cases) auto
  have fr: "j \<in> set ys \<or> j = i \<longleftrightarrow> j < length (wq_slots w) \<and> \<not> sl_in_use (wq_slots w ! j)" for j
    using wf(2) f by (simp add: free_ok_def) metis
  have i: "i < length (wq_slots w)" "\<not> sl_in_use (wq_slots w ! i)" using fr [of i] by simp_all
  have ys: "distinct ys" "i \<notin> set ys" using wf(2) f by (simp_all add: free_ok_def)
  have k: "k = WaiterKey i (wq_next_generation w)" and fw: "wq_free w' = ys"
    and w': "w' = \<lparr>wq_queue = wq_queue w @ [k],
           wq_slots = (wq_slots w)[i := \<lparr>sl_generation = wk_generation k, sl_waker = Some t,
             sl_in_use = True, sl_queued = True, sl_reserved = False\<rparr>],
           wq_free = wq_free w', wq_next_generation = wq_next_generation w + 1\<rparr>"
    using assms(2) f by (auto simp: enter_waiter_def Let_def slot_overwrite)
  show thesis
  proof (rule that [of "wq_slots w"])
    fix j
    show "j \<in> set (wq_free w') \<longleftrightarrow>
        j < length (wq_slots w) \<and> j \<noteq> wk_index k \<and> \<not> sl_in_use (wq_slots w ! j)"
      unfolding fw using fr [of j] ys(2) k by auto
  qed (use k w' i ys wf(1) fw in \<open>simp_all\<close>)
qed

lemma enter_waiter_law:
  assumes "waiters_wf w" "enter_waiter t w = (k, w')"
  shows "k \<notin> regd w" "waiters_wf w'" "regd w' = insert k (regd w)"
    "waiting w' = insert k (waiting w)" "granted w' = granted w"
proof -
  from enter_waiter_form [OF assms] obtain slots where
    old: "\<And>P. \<not> P vacant \<Longrightarrow> keys_where P slots = keys_where P (wq_slots w)"
    and i: "wk_index k < length slots" "\<not> sl_in_use (slots ! wk_index k)"
    and ok: "slots_ok (wq_queue w) slots"
    and w': "w' = \<lparr>wq_queue = wq_queue w @ [k],
           wq_slots = slots[wk_index k := \<lparr>sl_generation = wk_generation k, sl_waker = Some t,
             sl_in_use = True, sl_queued = True, sl_reserved = False\<rparr>],
           wq_free = wq_free w', wq_next_generation = wq_next_generation w + 1\<rparr>"
    and free: "distinct (wq_free w')"
      "\<And>i. i \<in> set (wq_free w') \<longleftrightarrow> i < length slots \<and> i \<noteq> wk_index k \<and> \<not> sl_in_use (slots ! i)"
    by metis
  define s where "s = \<lparr>sl_generation = wk_generation k, sl_waker = Some t,
             sl_in_use = True, sl_queued = True, sl_reserved = False\<rparr>"
  have sel: "wq_queue w' = wq_queue w @ [k]" "wq_slots w' = slots[wk_index k := s]"
    by (subst w', simp add: s_def)+
  have "slots_ok (wq_queue w @ [k]) (slots[wk_index k := s])"
    by (rule slots_ok_update [OF ok i(1)]) (use ok in \<open>auto simp: s_def slots_ok_def\<close>)
  moreover have "free_ok (wq_free w') (slots[wk_index k := s])"
    using free i by (auto simp: free_ok_def s_def nth_list_update)
  ultimately show "waiters_wf w'" by (simp add: waiters_wf_def sel)
  have unused: "{x \<in> keys_where P slots. wk_index x \<noteq> wk_index k} = keys_where P slots"
    if "\<And>s. P s \<Longrightarrow> sl_in_use s" for P
    using that i by (auto simp: keys_where_def)
  note unused = unused [of sl_in_use] unused [of "\<lambda>s. sl_in_use s \<and> sl_queued s"]
    unused [of "\<lambda>s. sl_in_use s \<and> sl_reserved s"]
  have sets: "regd w = keys_where sl_in_use slots"
    "waiting w = keys_where (\<lambda>s. sl_in_use s \<and> sl_queued s) slots"
    "granted w = keys_where (\<lambda>s. sl_in_use s \<and> sl_reserved s) slots"
    by (simp_all add: key_sets old vacant_def)
  show "k \<notin> regd w" using i by (simp add: sets keys_where_def)
  show "regd w' = insert k (regd w)" "waiting w' = insert k (waiting w)" "granted w' = granted w"
    by (simp_all add: key_sets(1-3) [of w'] sets sel keys_where_update [OF i(1)] unused s_def)
qed

lemma unregister_law:
  assumes "waiters_wf w"
  shows "fst (unregister k w) = (k \<in> granted w)" "waiters_wf (snd (unregister k w))"
    "regd (snd (unregister k w)) = regd w - {k}" "waiting (snd (unregister k w)) = waiting w - {k}"
    "granted (snd (unregister k w)) = granted w - {k}"
proof -
  have sub: "waiting w \<subseteq> regd w" "granted w \<subseteq> regd w"
    by (auto simp: key_sets keys_where_def)
  have "fst (unregister k w) = (k \<in> granted w) \<and> waiters_wf (snd (unregister k w)) \<and>
    regd (snd (unregister k w)) = regd w - {k} \<and> waiting (snd (unregister k w)) = waiting w - {k} \<and>
    granted (snd (unregister k w)) = granted w - {k}"
  proof (cases "k \<in> regd w")
    case False
    then show ?thesis using assms sub by (auto simp: unregister_def owns_key_iff)
  next
    case True
    then have k: "k \<in> keys_where sl_in_use (wq_slots w)" by (simp add: regd_def)
    note i = regdD [OF True]
    define s where "s = (wq_slots w ! wk_index k)\<lparr>sl_in_use := False, sl_queued := False,
      sl_waker := None, sl_reserved := False\<rparr>"
    have u: "unregister k w = (sl_reserved (wq_slots w ! wk_index k),
        w\<lparr>wq_slots := (wq_slots w)[wk_index k := s], wq_free := wq_free w @ [wk_index k]\<rparr>)"
      using True by (simp add: unregister_def owns_key_iff s_def Let_def)
    have wf: "slots_ok (wq_queue w) (wq_slots w)" "free_ok (wq_free w) (wq_slots w)"
      using assms by (simp_all add: waiters_wf_def)
    have "slots_ok (wq_queue w) ((wq_slots w)[wk_index k := s])"
      by (rule slots_ok_update [OF wf(1)]) (use i wf(1) in \<open>auto simp: s_def slots_ok_def\<close>)
    moreover have "free_ok (wq_free w @ [wk_index k]) ((wq_slots w)[wk_index k := s])"
      using wf(2) i by (auto simp: free_ok_def nth_list_update s_def)
    ultimately have "waiters_wf (snd (unregister k w))" by (simp add: waiters_wf_def u)
    moreover have "fst (unregister k w) = (k \<in> granted w)"
      using i by (simp add: u granted_def keys_where_def)
    ultimately show ?thesis using i
      by (simp add: u key_sets keys_where_update keys_where_same_index [OF k] s_def)
  qed
  then show "fst (unregister k w) = (k \<in> granted w)" "waiters_wf (snd (unregister k w))"
    "regd (snd (unregister k w)) = regd w - {k}" "waiting (snd (unregister k w)) = waiting w - {k}"
    "granted (snd (unregister k w)) = granted w - {k}" by blast+
qed

lemma register_law_known:
  assumes "waiters_wf w" "k \<in> requeue w" "register_or_refresh (Some k) t w = (ko, w')"
  shows "ko = Some k \<and> waiters_wf w' \<and> regd w' = regd w \<and> waiting w' = insert k (waiting w) \<and>
    granted w' = granted w"
proof -
  have "k \<in> regd w" using assms(2) by (auto simp: key_sets keys_where_def)
  with assms(3) have "ko = Some k" "w' = refresh_waiter k t w"
    by (auto simp: register_or_refresh_def owns_key_iff)
  then show ?thesis using refresh_waiter_law [OF assms(1,2), of t] by simp
qed

lemma register_law_new:
  assumes "waiters_wf w" "\<And>k. k0 = Some k \<Longrightarrow> k \<notin> regd w" "register_or_refresh k0 t w = (ko, w')"
  shows "\<exists>k. ko = Some k \<and> k \<notin> regd w \<and> waiters_wf w' \<and> regd w' = insert k (regd w) \<and>
    waiting w' = insert k (waiting w) \<and> granted w' = granted w"
proof -
  obtain k v where e: "enter_waiter t w = (k, v)" by force
  with assms(2,3) have "ko = Some k" "w' = v"
    by (auto simp: register_or_refresh_def owns_key_iff split: option.splits)
  then show ?thesis using enter_waiter_law [OF assms(1) e] by simp
qed

lemma wake_all_law:
  assumes "waiters_wf w" "wake_all w = (ts, w')"
  shows "waiters_wf w' \<and> regd w' = regd w \<and> waiting w' = {} \<and> granted w' = granted w"
proof -
  have wf: "slots_ok (wq_queue w) (wq_slots w)" "free_ok (wq_free w) (wq_slots w)"
    using assms(1) by (simp_all add: waiters_wf_def)
  obtain slots where l: "wake_loop (wq_queue w) (wq_slots w) = (ts, slots)"
    and w': "w' = w\<lparr>wq_queue := [], wq_slots := slots\<rparr>"
    using assms(2) by (auto simp: wake_all_def split: prod.splits)
  have s: "slots = map dequeued (wq_slots w)" by (rule wake_loop_slots [OF wf(1) l])
  have "waiters_wf w'" using wf by (auto simp: waiters_wf_def w' s slots_ok_def free_ok_def)
  then show ?thesis by (auto simp: key_sets keys_where_def w' s)
qed

lemma reserve_one_None:
  assumes "waiters_wf w" "reserve_one w = (None, w')"
  shows "waiting w = {} \<and> waiters_wf w' \<and> regd w' = regd w \<and> waiting w' = {} \<and> granted w' = granted w"
proof -
  obtain q slots where l: "reserve_loop (wq_queue w) (wq_slots w) = (None, q, slots)"
    and w': "w' = w\<lparr>wq_queue := q, wq_slots := slots\<rparr>"
    using assms(2) by (auto simp: reserve_one_def split: prod.splits)
  have wf: "slots_ok (wq_queue w) (wq_slots w)" "free_ok (wq_free w) (wq_slots w)"
    using assms(1) by (simp_all add: waiters_wf_def)
  note r = reserve_loop_None [OF wf(1) l]
  have "slots_ok [] (wq_slots w)"
    using r wf(1) by (auto simp: slots_ok_def keys_where_def) (metis waiter_key.sel)+
  then show ?thesis using r wf by (simp add: key_sets waiters_wf_def w')
qed

lemma reserve_one_Some:
  assumes "waiters_wf w" "reserve_one w = (Some t, w')"
  shows "\<exists>k \<in> waiting w. waiters_wf w' \<and> regd w' = regd w \<and> waiting w' = waiting w - {k} \<and>
    granted w' = insert k (granted w)"
proof -
  obtain q slots where l: "reserve_loop (wq_queue w) (wq_slots w) = (Some t, q, slots)"
    and w': "w' = w\<lparr>wq_queue := q, wq_slots := slots\<rparr>"
    using assms(2) by (auto simp: reserve_one_def split: prod.splits)
  have wf: "slots_ok (wq_queue w) (wq_slots w)" "free_ok (wq_free w) (wq_slots w)"
    using assms(1) by (simp_all add: waiters_wf_def)
  from reserve_loop_Some [OF wf(1) l] obtain k where k: "live_entry (wq_slots w) k"
    and ok: "slots_ok q slots"
    and s: "slots = (wq_slots w)[wk_index k := (wq_slots w ! wk_index k)
      \<lparr>sl_queued := False, sl_waker := None, sl_reserved := True\<rparr>]"
    by blast
  have i: "wk_index k < length (wq_slots w)" "sl_in_use (wq_slots w ! wk_index k)"
    "sl_generation (wq_slots w ! wk_index k) = wk_generation k"
    using k by (simp_all add: live_entry_def)
  have kk: "k \<in> keys_where (\<lambda>s. sl_in_use s \<and> sl_queued s) (wq_slots w)"
    using k by (simp add: live_entry_iff)
  then have kr: "k \<in> keys_where sl_in_use (wq_slots w)" by (auto simp: keys_where_def)
  have "free_ok (wq_free w) slots" unfolding s
    by (rule free_ok_update [OF wf(2) i(1)]) simp
  with ok have "waiters_wf w'" by (simp add: waiters_wf_def w')
  moreover have "k \<in> waiting w" using kk by (simp add: waiting_def)
  moreover have "regd w' = regd w" "waiting w' = waiting w - {k}" "granted w' = insert k (granted w)"
    using i kr by (auto simp: key_sets w' s keys_where_update keys_where_same_index [OF kk])
  ultimately show ?thesis by blast
qed

lemma consume_law:
  assumes "waiters_wf w" "consume_reservation k w = (b, w')"
  shows "b = (k \<in> granted w) \<and> waiters_wf w' \<and> regd w' = regd w \<and> waiting w' = waiting w \<and>
    granted w' = granted w - {k}"
proof (cases "k \<in> regd w")
  case False
  moreover from this have "k \<notin> granted w" by (auto simp: key_sets keys_where_def)
  ultimately show ?thesis using assms by (simp add: consume_reservation_def owns_key_iff)
next
  case True
  note i = regdD [OF True]
  have k: "k \<in> keys_where sl_in_use (wq_slots w)" using True by (simp add: regd_def)
  define s where "s = (wq_slots w ! wk_index k)\<lparr>sl_reserved := False\<rparr>"
  have b: "b = sl_reserved (wq_slots w ! wk_index k)"
    and w': "w' = w\<lparr>wq_slots := (wq_slots w)[wk_index k := s]\<rparr>"
    using assms(2) True by (auto simp: consume_reservation_def owns_key_iff s_def Let_def)
  have wf: "slots_ok (wq_queue w) (wq_slots w)" "free_ok (wq_free w) (wq_slots w)"
    using assms(1) by (simp_all add: waiters_wf_def)
  have "slots_ok (wq_queue w) ((wq_slots w)[wk_index k := s])"
    by (rule slots_ok_update [OF wf(1)]) (use i wf(1) in \<open>auto simp: s_def slots_ok_def\<close>)
  moreover have "free_ok (wq_free w) ((wq_slots w)[wk_index k := s])"
    by (rule free_ok_update [OF wf(2)]) (use i in \<open>simp_all add: s_def\<close>)
  ultimately have "waiters_wf w'" by (simp add: waiters_wf_def w')
  moreover have "b = (k \<in> granted w)" using i by (simp add: b granted_def keys_where_def)
  ultimately show ?thesis using i
    by (auto simp: w' key_sets keys_where_update keys_where_same_index [OF k] s_def)
      (auto simp: keys_where_def)
qed

lemma key_sets_nested:
  assumes "waiters_wf w"
  shows "waiting w \<subseteq> requeue w" "requeue w \<subseteq> regd w" "granted w \<subseteq> regd w - waiting w"
    "requeue w = regd w - granted w"
  using assms by (auto simp: waiters_wf_def slots_ok_def key_sets keys_where_def)

lemma new_waiters_law [simp]:
  "waiters_wf new_waiters" "regd new_waiters = {}" "waiting new_waiters = {}" "granted new_waiters = {}"
  by (auto simp: new_waiters_def waiters_wf_def slots_ok_def free_ok_def key_sets keys_where_def)

lemma register_keeps_grants:
  assumes "waiters_wf w" "register_or_refresh k0 t w = (ko, w')" "\<And>k. k0 = Some k \<Longrightarrow> k \<notin> granted w"
  shows "granted w' = granted w"
proof (cases "\<exists>k. k0 = Some k \<and> k \<in> regd w")
  case True
  then obtain k where "k0 = Some k" "k \<in> requeue w" using assms(3) key_sets_nested(4) [OF assms(1)] by blast
  with register_law_known [OF assms(1)] assms(2) show ?thesis by blast
next
  case False
  with register_law_new [OF assms(1) _ assms(2)] show ?thesis by blast
qed

interpretation mw: reserving_waiters waiters_wf regd waiting requeue new_waiters register_or_refresh
    "\<lambda>k w. snd (unregister k w)" wake_all "\<lambda>w. True" granted reserve_one consume_reservation
proof (unfold_locales, goal_cases)
  case 4 show ?case by (simp add: regd_def)
next
  case 5 then show ?case by (rule key_sets_nested)
next
  case 6 then show ?case by (rule key_sets_nested)
next
  case 7 from register_law_known [OF this] show ?case by blast
next
  case 8 from register_law_new [OF this(1,3,4)] show ?case by blast
next
  case 9 from unregister_law [OF this] show ?case by blast
next
  case 10 from wake_all_law [OF this] show ?case by blast
next
  case 12 then show ?case by (rule key_sets_nested)
next
  case 13 then show ?case by (rule key_sets_nested)
next
  case 14 then show ?case by (rule register_keeps_grants)
next
  case 15 then show ?case by (rule unregister_law)
next
  case 16 from wake_all_law [OF this] show ?case by blast
next
  case 17 then show ?case by (rule reserve_one_None)
next
  case 18 then show ?case by (rule reserve_one_Some)
next
  case 19 then show ?case by (rule consume_law)
qed simp_all

subsection \<open>First come, first served\<close>

text \<open>
  The waiting line of the data channel: the live entries of the queue with the tasks parked in
  their slots. Entries of cancelled waiters stay in the queue until they come up, but they are not
  in the line.
\<close>

definition waker_of :: "waiter_slot list \<Rightarrow> waiter_key \<Rightarrow> task" where
  "waker_of slots k = the (sl_waker (slots ! wk_index k))"

definition line :: "sender_waiters \<Rightarrow> (waiter_key \<times> task) list" where
  "line w = map (\<lambda>k. (k, waker_of (wq_slots w) k)) (filter (live_entry (wq_slots w)) (wq_queue w))"

definition waiters_tidy :: "sender_waiters \<Rightarrow> bool" where
  "waiters_tidy w \<longleftrightarrow> waiters_wf w \<and> distinct (wq_queue w) \<and>
     (\<forall>k \<in> set (wq_queue w) \<union> regd w. unat (wk_generation k) < unat (wq_next_generation w)) \<and>
     (\<forall>k \<in> set (wq_queue w). owns_key (wq_slots w) k \<longrightarrow> live_entry (wq_slots w) k)"

definition waiters_room :: "sender_waiters \<Rightarrow> bool" where
  "waiters_room w \<longleftrightarrow> wq_next_generation w \<noteq> - 1"

lemma live_entry_update:
  "i < length slots \<Longrightarrow> live_entry (slots[i := s]) x =
     (if wk_index x = i then sl_in_use s \<and> sl_generation s = wk_generation x \<and> sl_queued s
      else live_entry slots x)"
  by (auto simp: live_entry_def)

lemma owns_key_update:
  "i < length slots \<Longrightarrow> owns_key (slots[i := s]) x =
     (if wk_index x = i then sl_in_use s \<and> sl_generation s = wk_generation x else owns_key slots x)"
  by (auto simp: owns_key_def)

lemma waker_of_update:
  "i < length slots \<Longrightarrow> waker_of (slots[i := s]) x =
     (if wk_index x = i then the (sl_waker s) else waker_of slots x)"
  by (auto simp: waker_of_def)

lemmas entry_update = live_entry_update owns_key_update waker_of_update

lemma same_index_live:
  "live_entry slots x \<Longrightarrow> owns_key slots k \<Longrightarrow> wk_index x = wk_index k \<Longrightarrow> x = k"
  by (simp add: live_entry_def owns_key_def waiter_key.expand)

lemma live_owns: "live_entry slots k \<Longrightarrow> owns_key slots k"
  by (simp add: live_entry_def owns_key_def)

lemma live_waiting: "live_entry (wq_slots w) k \<longleftrightarrow> k \<in> waiting w"
  by (simp add: live_entry_iff waiting_def)

lemma waiting_queued:
  "waiters_wf w \<Longrightarrow> k \<in> waiting w \<Longrightarrow> k \<in> set (wq_queue w)"
  by (cases k) (auto simp: waiters_wf_def slots_ok_def waiting_def keys_where_def)

lemma line_keys_eq:
  assumes "waiters_tidy w"
  shows "distinct (map fst (line w)) \<and> fst ` set (line w) = waiting w"
proof -
  have "fst ` set (line w) = {k \<in> set (wq_queue w). k \<in> waiting w}"
    by (auto simp: line_def live_waiting image_image)
  also have "\<dots> = waiting w" using assms waiting_queued by (auto simp: waiters_tidy_def)
  finally show ?thesis using assms by (simp add: line_def waiters_tidy_def o_def)
qed

lemma filter_index_eq:
  assumes "\<And>x. x \<in> set q \<Longrightarrow> P x = Q x"
  shows "filter P q = filter Q q"
  using assms by (rule filter_cong [OF refl])

lemma line_refresh_waiting:
  assumes "waiters_tidy w" "k \<in> requeue w" "k \<in> waiting w"
  shows "waiters_tidy (refresh_waiter k t w)"
    "line (refresh_waiter k t w) = map (\<lambda>p. if fst p = k then (k, t) else p) (line w)"
proof -
  have wf: "waiters_wf w" using assms(1) by (simp add: waiters_tidy_def)
  have live: "live_entry (wq_slots w) k" using assms(3) by (simp add: live_waiting)
  then have i: "wk_index k < length (wq_slots w)" "sl_queued (wq_slots w ! wk_index k)"
    by (simp_all add: live_entry_def)
  define s where "s = (wq_slots w ! wk_index k)\<lparr>sl_waker := Some t, sl_queued := True\<rparr>"
  have r: "refresh_waiter k t w = w\<lparr>wq_slots := (wq_slots w)[wk_index k := s]\<rparr>"
    using refresh_waiter_slots [of k t w] i by (simp add: s_def)
  have same: "live_entry ((wq_slots w)[wk_index k := s]) x = live_entry (wq_slots w) x"
    "owns_key ((wq_slots w)[wk_index k := s]) x = owns_key (wq_slots w) x" for x
    using live by (auto simp: nth_list_update s_def live_entry_def owns_key_def)
  have ws: "waker_of ((wq_slots w)[wk_index k := s]) x =
      (if wk_index x = wk_index k then t else waker_of (wq_slots w) x)" for x
    by (simp add: entry_update [OF i(1)] s_def)
  show "waiters_tidy (refresh_waiter k t w)"
    using assms(1) refresh_waiter_law(1,2) [OF wf assms(2), of t] same by (simp add: waiters_tidy_def r)
  show "line (refresh_waiter k t w) = map (\<lambda>p. if fst p = k then (k, t) else p) (line w)"
    using same_index_live [OF _ live_owns [OF live]] same(1) ws
    by (auto simp: line_def r cong: filter_cong)
qed

lemma line_refresh_idle:
  assumes "waiters_tidy w" "k \<in> requeue w" "k \<notin> waiting w"
  shows "waiters_tidy (refresh_waiter k t w)" "line (refresh_waiter k t w) = line w @ [(k, t)]"
proof -
  have wf: "waiters_wf w" using assms(1) by (simp add: waiters_tidy_def)
  have kr: "k \<in> regd w" using assms(2) key_sets_nested(2) [OF wf] by blast
  have i: "wk_index k < length (wq_slots w)" "\<not> sl_queued (wq_slots w ! wk_index k)"
    using regdD [OF kr] assms(3) by (auto simp: waiting_def keys_where_def)
  have own: "owns_key (wq_slots w) k" using kr by (simp add: owns_key_iff)
  have dead: "\<not> live_entry (wq_slots w) k" using assms(3) by (simp add: live_waiting)
  with own assms(1) have new: "k \<notin> set (wq_queue w)" by (auto simp: waiters_tidy_def)
  define s where "s = (wq_slots w ! wk_index k)\<lparr>sl_waker := Some t, sl_queued := True\<rparr>"
  have r: "refresh_waiter k t w = w\<lparr>wq_slots := (wq_slots w)[wk_index k := s],
      wq_queue := wq_queue w @ [k]\<rparr>"
    using refresh_waiter_slots [of k t w] i by (simp add: s_def)
  have other: "wk_index x \<noteq> wk_index k \<or> \<not> owns_key ((wq_slots w)[wk_index k := s]) x"
    if "x \<in> set (wq_queue w)" for x
  proof (rule ccontr, clarsimp)
    assume "wk_index x = wk_index k" "owns_key ((wq_slots w)[wk_index k := s]) x"
    then have "wk_generation x = wk_generation k" using own i(1) by (simp add: owns_key_def s_def)
    with \<open>wk_index x = wk_index k\<close> have "x = k" by (simp add: waiter_key.expand)
    with that new show False by simp
  qed
  have same: "live_entry ((wq_slots w)[wk_index k := s]) x = live_entry (wq_slots w) x"
    if "x \<in> set (wq_queue w)" for x
    using other [OF that] same_index_live [OF _ own, of x] dead live_owns
    by (auto simp: entry_update [OF i(1)])
  have k: "live_entry ((wq_slots w)[wk_index k := s]) k" "waker_of ((wq_slots w)[wk_index k := s]) k = t"
    using own by (simp_all add: i s_def owns_key_def live_entry_def waker_of_def)
  show "waiters_tidy (refresh_waiter k t w)"
    using assms(1) refresh_waiter_law(1,2) [OF wf assms(2), of t] same other k new kr
    by (auto simp: waiters_tidy_def r entry_update [OF i(1)])
  have keep: "waker_of ((wq_slots w)[wk_index k := s]) x = waker_of (wq_slots w) x"
    if "x \<in> set (wq_queue w)" "live_entry (wq_slots w) x" for x
    using that dead same_index_live [OF that(2) own] by (auto simp: entry_update [OF i(1)])
  show "line (refresh_waiter k t w) = line w @ [(k, t)]"
    using k same keep by (auto simp: line_def r cong: filter_cong)
qed

lemma enter_waiter_line:
  assumes "waiters_tidy w" "waiters_room w" "enter_waiter t w = (k, w')"
  shows "waiters_tidy w'" "line w' = line w @ [(k, t)]"
proof -
  have wf: "waiters_wf w" using assms(1) by (simp add: waiters_tidy_def)
  from enter_waiter_form [OF wf assms(3)] obtain slots where
    old: "\<And>P. \<not> P vacant \<Longrightarrow> keys_where P slots = keys_where P (wq_slots w)"
    and i: "wk_index k < length slots" "\<not> sl_in_use (slots ! wk_index k)"
    and g: "wk_generation k = wq_next_generation w"
    and w': "w' = \<lparr>wq_queue = wq_queue w @ [k],
           wq_slots = slots[wk_index k := \<lparr>sl_generation = wk_generation k, sl_waker = Some t,
             sl_in_use = True, sl_queued = True, sl_reserved = False\<rparr>],
           wq_free = wq_free w', wq_next_generation = wq_next_generation w + 1\<rparr>"
    and pre: "\<And>i. i < length (wq_slots w) \<Longrightarrow> slots ! i = wq_slots w ! i"
    by metis
  define s where "s = \<lparr>sl_generation = wk_generation k, sl_waker = Some t,
             sl_in_use = True, sl_queued = True, sl_reserved = False\<rparr>"
  have sel: "wq_queue w' = wq_queue w @ [k]" "wq_slots w' = slots[wk_index k := s]"
    "wq_next_generation w' = wq_next_generation w + 1"
    by (subst w', simp add: s_def)+
  have next_eq: "unat (wq_next_generation w + 1) = Suc (unat (wq_next_generation w))"
    using assms(2) by (simp add: waiters_room_def unat_succ)
  have gen: "wk_generation x \<noteq> wk_generation k" if "x \<in> set (wq_queue w)" for x
  proof -
    have "unat (wk_generation x) < unat (wq_next_generation w)"
      using that assms(1) by (simp add: waiters_tidy_def)
    with g show ?thesis by auto
  qed
  have live0: "live_entry slots x = live_entry (wq_slots w) x" for x
    by (simp add: live_entry_iff old vacant_def)
  have own0: "owns_key slots x = owns_key (wq_slots w) x" for x
  proof -
    have "owns_key slots x = (x \<in> keys_where sl_in_use slots)"
      by (auto simp: owns_key_def keys_where_def)
    also have "\<dots> = (x \<in> regd w)" by (simp add: old vacant_def regd_def)
    finally show ?thesis by (simp add: owns_key_iff)
  qed
  have unused: "\<not> live_entry (wq_slots w) x" "\<not> owns_key (wq_slots w) x" if "wk_index x = wk_index k" for x
    using that i live0 [of x] own0 [of x] by (auto simp: live_entry_def owns_key_def)
  have same: "live_entry (wq_slots w') x = live_entry (wq_slots w) x"
    "owns_key (wq_slots w') x \<Longrightarrow> owns_key (wq_slots w) x"
    if "x \<in> set (wq_queue w)" for x
    using gen [OF that] unused [of x] by (auto simp: sel entry_update [OF i(1)] s_def live0 own0 split: if_splits)
  have k: "live_entry (wq_slots w') k" "waker_of (wq_slots w') k = t"
    by (simp_all add: sel entry_update [OF i(1)] s_def)
  have keep: "waker_of (wq_slots w') x = waker_of (wq_slots w) x"
    if "x \<in> set (wq_queue w)" "live_entry (wq_slots w) x" for x
  proof -
    have "live_entry slots x" using that(2) live0 by simp
    then have "wk_index x \<noteq> wk_index k" using i by (auto simp: live_entry_def)
    moreover have "wk_index x < length (wq_slots w)" using that(2) by (simp add: live_entry_def)
    ultimately show ?thesis using pre by (simp add: sel entry_update [OF i(1)]) (simp add: waker_of_def)
  qed
  show "waiters_tidy w'" unfolding waiters_tidy_def
  proof (intro conjI)
    show "waiters_wf w'" by (rule enter_waiter_law [OF wf assms(3)])
    show "distinct (wq_queue w')" using assms(1) gen by (auto simp: sel waiters_tidy_def)
    show "\<forall>x \<in> set (wq_queue w') \<union> regd w'. unat (wk_generation x) < unat (wq_next_generation w')"
      using assms(1) enter_waiter_law(3) [OF wf assms(3)] g
      by (auto simp: sel next_eq waiters_tidy_def less_Suc_eq)
    show "\<forall>x \<in> set (wq_queue w'). owns_key (wq_slots w') x \<longrightarrow> live_entry (wq_slots w') x"
      using assms(1) same k by (auto simp: sel(1) waiters_tidy_def)
  qed
  show "line w' = line w @ [(k, t)]"
    using k same keep by (auto simp: line_def sel(1) cong: filter_cong)
qed

lemma unregister_line:
  assumes "waiters_tidy w"
  shows "waiters_tidy (snd (unregister k w))"
    "line (snd (unregister k w)) = filter (\<lambda>p. fst p \<noteq> k) (line w)"
proof -
  have wf: "waiters_wf w" using assms by (simp add: waiters_tidy_def)
  have "waiters_tidy (snd (unregister k w)) \<and>
    line (snd (unregister k w)) = filter (\<lambda>p. fst p \<noteq> k) (line w)"
  proof (cases "k \<in> regd w")
    case False
    moreover have "fst ` set (line w) \<subseteq> regd w"
      using line_keys_eq [OF assms] mw.waiting_regd [OF wf] by simp
    ultimately have "filter (\<lambda>p. fst p \<noteq> k) (line w) = line w" by (auto intro!: filter_True)
    with False assms show ?thesis by (simp add: unregister_def owns_key_iff)
  next
    case True
    then have own: "owns_key (wq_slots w) k" by (simp add: owns_key_iff)
    then have i: "wk_index k < length (wq_slots w)" by (simp add: owns_key_def)
    define s where "s = (wq_slots w ! wk_index k)\<lparr>sl_in_use := False, sl_queued := False,
      sl_waker := None, sl_reserved := False\<rparr>"
    define w' where "w' = snd (unregister k w)"
    have sel: "wq_queue w' = wq_queue w" "wq_slots w' = (wq_slots w)[wk_index k := s]"
      "wq_next_generation w' = wq_next_generation w"
      using own by (simp_all add: unregister_def s_def Let_def w'_def)
    have live: "live_entry (wq_slots w') x \<longleftrightarrow> live_entry (wq_slots w) x \<and> x \<noteq> k" for x
      using same_index_live [OF _ own, of x] by (auto simp: sel entry_update [OF i] s_def)
    have owns: "owns_key (wq_slots w') x \<Longrightarrow> owns_key (wq_slots w) x \<and> x \<noteq> k" for x
      by (auto simp: sel entry_update [OF i] s_def split: if_splits)
    have waker: "waker_of (wq_slots w') x = waker_of (wq_slots w) x"
      if "live_entry (wq_slots w') x" for x
      using that by (auto simp: sel entry_update [OF i] s_def)
    have "waiters_tidy w'"
      using assms unregister_law(2,3) [OF wf, of k] live owns
      by (auto simp: waiters_tidy_def sel(1,3) w'_def [symmetric])
    moreover have "line w' = filter (\<lambda>p. fst p \<noteq> k) (line w)"
    proof -
      have "line w' = map (\<lambda>x. (x, waker_of (wq_slots w) x))
          (filter (\<lambda>x. live_entry (wq_slots w) x \<and> x \<noteq> k) (wq_queue w))"
        unfolding line_def sel(1) using waker by (auto simp: live cong: filter_cong)
      then show ?thesis by (simp add: line_def filter_map o_def conj_commute)
    qed
    ultimately show ?thesis by (simp add: w'_def)
  qed
  then show "waiters_tidy (snd (unregister k w))"
    "line (snd (unregister k w)) = filter (\<lambda>p. fst p \<noteq> k) (line w)" by blast+
qed

lemma wake_loop_order:
  "slots_ok q slots \<Longrightarrow> distinct q \<Longrightarrow> wake_loop q slots = (ts, slots') \<Longrightarrow>
     ts = map (waker_of slots) (filter (live_entry slots) q)"
proof (induction q slots arbitrary: ts rule: wake_loop.induct)
  case (1 slots)
  then show ?case by simp
next
  case (2 k q slots)
  show ?case
  proof (cases "live_entry slots k")
    case True
    with 2(4) obtain u where u: "sl_waker (slots ! wk_index k) = Some u" using live_waker by blast
    define s where "s = (slots ! wk_index k)\<lparr>sl_queued := False, sl_waker := None\<rparr>"
    have i: "wk_index k < length slots" using True by (simp add: live_entry_def)
    have "slots_ok q (slots[wk_index k := s])"
      by (rule slots_ok_serve [OF 2(4) True])
        (use 2(4) True in \<open>simp_all add: s_def live_entry_def slots_ok_def\<close>)
    moreover from 2(6) True u obtain ts1 where l: "wake_loop q (slots[wk_index k := s]) = (ts1, slots')"
      and ts: "ts = u # ts1"
      by (auto simp: Let_def s_def apfst_def map_prod_def split: prod.splits)
    ultimately have "ts1 = map (waker_of (slots[wk_index k := s]))
        (filter (live_entry (slots[wk_index k := s])) q)"
      using 2(2,3,5) True u by (simp add: s_def)
    moreover have "live_entry (slots[wk_index k := s]) x = live_entry slots x" if "x \<in> set q" for x
      using that 2(5) same_index_live [OF _ live_owns [OF True], of x]
      by (auto simp: entry_update [OF i] s_def)
    moreover have "waker_of (slots[wk_index k := s]) x = waker_of slots x"
      if "live_entry slots x" "x \<in> set q" for x
      using that 2(5) same_index_live [OF that(1) live_owns [OF True]] by (auto simp: entry_update [OF i])
    ultimately show ?thesis using True u by (auto simp: ts waker_of_def [of _ k] cong: filter_cong)
  next
    case False
    with 2 slots_ok_skip show ?thesis by auto
  qed
qed

lemma wake_all_line:
  assumes "waiters_tidy w" "wake_all w = (ts, w')"
  shows "waiters_tidy w' \<and> ts = map snd (line w) \<and> line w' = []"
proof -
  have wf: "waiters_wf w" "slots_ok (wq_queue w) (wq_slots w)" "distinct (wq_queue w)"
    using assms(1) by (simp_all add: waiters_tidy_def waiters_wf_def)
  obtain slots where l: "wake_loop (wq_queue w) (wq_slots w) = (ts, slots)"
    and w': "w' = w\<lparr>wq_queue := [], wq_slots := slots\<rparr>"
    using assms(2) by (auto simp: wake_all_def split: prod.splits)
  show ?thesis
    using wake_loop_order [OF wf(2,3) l] wake_all_law [OF wf(1) assms(2)] assms(1)
    by (auto simp: w' line_def waiters_tidy_def)
qed

text \<open>A reservation goes to the head of the line.\<close>

lemma reserve_one_line:
  assumes "waiters_tidy w" "reserve_one w = (Some t, w')"
  shows "waiters_tidy w' \<and> (\<exists>k. line w = (k, t) # line w')"
proof -
  have wf: "waiters_wf w" "slots_ok (wq_queue w) (wq_slots w)" "distinct (wq_queue w)"
    using assms(1) by (simp_all add: waiters_tidy_def waiters_wf_def)
  obtain q slots where l: "reserve_loop (wq_queue w) (wq_slots w) = (Some t, q, slots)"
    and w': "w' = w\<lparr>wq_queue := q, wq_slots := slots\<rparr>"
    using assms(2) by (auto simp: reserve_one_def split: prod.splits)
  from reserve_loop_Some [OF wf(2) l] obtain k stale where
    q: "wq_queue w = stale @ k # q" "\<forall>x \<in> set stale. \<not> live_entry (wq_slots w) x"
    and k: "live_entry (wq_slots w) k" "sl_waker (wq_slots w ! wk_index k) = Some t"
    and s: "slots = (wq_slots w)[wk_index k := (wq_slots w ! wk_index k)
      \<lparr>sl_queued := False, sl_waker := None, sl_reserved := True\<rparr>]"
    by blast
  have i: "wk_index k < length (wq_slots w)" using k by (simp add: live_entry_def)
  have ne: "x \<noteq> k" if "x \<in> set q" for x using that q(1) wf(3) by auto
  have live: "live_entry slots x = live_entry (wq_slots w) x"
    "owns_key slots x = owns_key (wq_slots w) x" if "x \<in> set q" for x
    using ne [OF that] same_index_live [OF _ live_owns [OF k(1)], of x] k(1)
    by (auto simp: s entry_update [OF i]) (auto simp: live_entry_def owns_key_def)
  have waker: "waker_of slots x = waker_of (wq_slots w) x"
    if "live_entry (wq_slots w) x" "x \<in> set q" for x
    using ne [OF that(2)] same_index_live [OF that(1) live_owns [OF k(1)]]
    by (auto simp: s entry_update [OF i])
  have "line w = (k, t) # map (\<lambda>x. (x, waker_of (wq_slots w) x)) (filter (live_entry (wq_slots w)) q)"
    using q k by (simp add: line_def waker_of_def)
  also have "map (\<lambda>x. (x, waker_of (wq_slots w) x)) (filter (live_entry (wq_slots w)) q) = line w'"
    using live waker by (auto simp: line_def w' cong: filter_cong)
  finally have "line w = (k, t) # line w'" .
  moreover have "waiters_tidy w'"
    using assms(1) reserve_one_Some [OF wf(1) assms(2)] live q(1)
    by (auto simp: waiters_tidy_def w')
  ultimately show ?thesis by blast
qed

interpretation ml: waiter_line waiters_wf regd waiting requeue new_waiters register_or_refresh
    "\<lambda>k w. snd (unregister k w)" wake_all "\<lambda>w. True" line waiters_tidy waiters_room
proof (unfold_locales, goal_cases)
  case 1
  show ?case by (simp add: waiters_tidy_def) (simp add: new_waiters_def)
next
  case (2 w)
  then show ?case by (simp add: waiters_tidy_def)
next
  case (3 w)
  then show ?case by (rule line_keys_eq)
next
  case (4 w k t ko w')
  then have "k \<in> regd w" using key_sets_nested(2) by (auto simp: waiters_tidy_def)
  with 4(3) have "w' = refresh_waiter k t w" by (simp add: register_or_refresh_def owns_key_iff)
  with line_refresh_waiting [OF 4(1,2)] line_refresh_idle [OF 4(1,2)] show ?case by auto
next
  case (5 w k0 t ko w')
  obtain k v where e: "enter_waiter t w = (k, v)" by force
  with 5(3,4) have "ko = Some k" "w' = v"
    by (auto simp: register_or_refresh_def owns_key_iff split: option.splits)
  with enter_waiter_line [OF 5(1,2) e] show ?case by simp
next
  case (6 w k)
  then show ?case using unregister_line by blast
next
  case (7 w ts w')
  then show ?case by (rule wake_all_line)
qed

subsection \<open>The waiters refine a queue\<close>

text \<open>
  The slot array, free list and queue with tombstones implement a plain first-in first-out
  list of tasks: a reservation goes to the task at its head, a new waiter enters at its end,
  cancelling removes exactly that waiter, and waking all wakes them in order.
\<close>

theorem waiters_refine_queue:
  assumes "waiters_tidy w" "waiters_room w"
  shows "map snd (line w) = (case reserve_one w of (Some t, w') \<Rightarrow> t # map snd (line w') | (None, w') \<Rightarrow> []) \<and>
    map snd (line (snd (register_or_refresh None t w))) = map snd (line w) @ [t] \<and>
    line (snd (unregister k w)) = filter (\<lambda>(j, _). j \<noteq> k) (line w) \<and>
    fst (wake_all w) = map snd (line w) \<and> line (snd (wake_all w)) = []"
proof -
  have wf: "waiters_wf w" by (rule ml.tidy_invar [OF assms(1)])
  obtain ko w1 where r: "register_or_refresh None t w = (ko, w1)" by force
  obtain ts w2 where a: "wake_all w = (ts, w2)" by force
  have "map snd (line w) = (case reserve_one w of (Some t, w') \<Rightarrow> t # map snd (line w') | (None, w') \<Rightarrow> [])"
  proof (cases "reserve_one w")
    case (Pair t' w')
    then show ?thesis
    proof (cases t')
      case None
      with Pair mw.reserve_None [OF wf] ml.waiting_empty_iff [OF assms(1)] show ?thesis by simp
    next
      case (Some u)
      with Pair reserve_one_line [OF assms(1)] show ?thesis by force
    qed
  qed
  then show ?thesis
    using ml.line_enter [OF assms _ r] ml.line_leave [OF assms(1), of k] ml.line_wake_all [OF assms(1) a] r a
    by (simp add: case_prod_beta')
qed

end
