(* ===== verification/Control_Waiters.thy ===== *)
theory Control_Waiters
  imports Mpsc_Waiters
begin

section \<open>Blocked senders of the control channel\<close>

text \<open>
  \<^verbatim>\<open>SenderWaiters\<close> of \<^verbatim>\<open>crates/control-channel/src/channel.rs\<close>: the structure of the data
  channel without reservations, with counters of live and stale queue entries and with compaction
  of the queue. Wakers are task numbers as there. An operation that can fail a debug assertion or
  underflow a counter has an optional result, and \<^term>\<open>None\<close> is that panic; the laws show that it
  does not happen.
\<close>

record ctl_slot =
  cl_generation :: u64
  cl_waker :: "task option"
  cl_in_use :: bool
  cl_queued :: bool

definition ctl_vacant :: ctl_slot where
  "ctl_vacant = \<lparr>cl_generation = 0, cl_waker = None, cl_in_use = False, cl_queued = False\<rparr>"

definition COMPACT_MIN_QUEUE_LEN :: nat where "COMPACT_MIN_QUEUE_LEN = 64"

record ctl_waiters =
  cw_queue :: "waiter_key list"
  cw_slots :: "ctl_slot list"
  cw_free_slots :: "nat list"
  cw_queued_live :: nat
  cw_queued_stale :: nat
  cw_next_generation :: u64

definition ctl_waiters_new :: ctl_waiters where
  "ctl_waiters_new = \<lparr>cw_queue = [], cw_slots = [], cw_free_slots = [], cw_queued_live = 0,
     cw_queued_stale = 0, cw_next_generation = 0\<rparr>"

definition entry_is_live :: "ctl_slot list \<Rightarrow> waiter_key \<Rightarrow> bool" where
  \<comment> \<open>negation of the staleness test of \<^verbatim>\<open>wake_n\<close> and \<^verbatim>\<open>wake_all\<close>, slot lookup included\<close>
  "entry_is_live slots k \<longleftrightarrow> wk_index k < length slots \<and> cl_in_use (slots ! wk_index k) \<and>
     cl_generation (slots ! wk_index k) = wk_generation k \<and> cl_queued (slots ! wk_index k)"

fun wake_n_loop ::
  "nat \<Rightarrow> waiter_key list \<Rightarrow> ctl_slot list \<Rightarrow> nat \<Rightarrow> nat \<Rightarrow>
     (task list \<times> waiter_key list \<times> ctl_slot list \<times> nat \<times> nat) option" where
  "wake_n_loop 0 q slots live stale = Some ([], q, slots, live, stale)"
| "wake_n_loop (Suc n) [] slots live stale = Some ([], [], slots, live, stale)"
| "wake_n_loop (Suc n) (k # q) slots live stale =
     (if \<not> entry_is_live slots k then
        (if stale = 0 then None else wake_n_loop (Suc n) q slots live (stale - 1))
      else if live = 0 then None
      else
        let i = wk_index k; slot = (slots ! i)\<lparr>cl_queued := False\<rparr>
        in case cl_waker slot of
             Some t \<Rightarrow> map_option (apfst (Cons t))
               (wake_n_loop n q (slots[i := slot\<lparr>cl_waker := None\<rparr>]) (live - 1) stale)
           | None \<Rightarrow> wake_n_loop (Suc n) q (slots[i := slot]) (live - 1) stale)"

definition ctl_wake_n :: "nat \<Rightarrow> ctl_waiters \<Rightarrow> (task list \<times> ctl_waiters) option" where
  "ctl_wake_n count w =
     map_option (\<lambda>(ts, q, slots, live, stale).
         (ts, w\<lparr>cw_queue := q, cw_slots := slots, cw_queued_live := live, cw_queued_stale := stale\<rparr>))
       (wake_n_loop count (cw_queue w) (cw_slots w) (cw_queued_live w) (cw_queued_stale w))"

fun wake_all_loop ::
  "waiter_key list \<Rightarrow> ctl_slot list \<Rightarrow> nat \<Rightarrow> nat \<Rightarrow> (task list \<times> ctl_slot list \<times> nat \<times> nat) option" where
  "wake_all_loop [] slots live stale = Some ([], slots, live, stale)"
| "wake_all_loop (k # q) slots live stale =
     (if \<not> entry_is_live slots k then
        (if stale = 0 then None else wake_all_loop q slots live (stale - 1))
      else if live = 0 then None
      else
        let i = wk_index k; slot = (slots ! i)\<lparr>cl_queued := False\<rparr>
        in case cl_waker slot of
             Some t \<Rightarrow> map_option (apfst (Cons t))
               (wake_all_loop q (slots[i := slot\<lparr>cl_waker := None\<rparr>]) (live - 1) stale)
           | None \<Rightarrow> wake_all_loop q (slots[i := slot]) (live - 1) stale)"

definition ctl_wake_all :: "ctl_waiters \<Rightarrow> (task list \<times> ctl_waiters) option" where
  "ctl_wake_all w =
     map_option (\<lambda>(ts, slots, live, stale).
         (ts, w\<lparr>cw_queue := [], cw_slots := slots, cw_queued_live := live, cw_queued_stale := stale\<rparr>))
       (wake_all_loop (cw_queue w) (cw_slots w) (cw_queued_live w) (cw_queued_stale w))"

definition ctl_owns_key :: "ctl_slot list \<Rightarrow> waiter_key \<Rightarrow> bool" where
  "ctl_owns_key slots k \<longleftrightarrow> wk_index k < length slots \<and> cl_in_use (slots ! wk_index k) \<and>
     cl_generation (slots ! wk_index k) = wk_generation k"

definition ctl_refresh :: "waiter_key \<Rightarrow> task \<Rightarrow> ctl_waiters \<Rightarrow> ctl_waiters" where
  "ctl_refresh k t w =
     (let slot = cw_slots w ! wk_index k;
          slot1 = (if cl_waker slot = Some t then slot else slot\<lparr>cl_waker := Some t\<rparr>)
      in if cl_queued slot1 then w\<lparr>cw_slots := (cw_slots w)[wk_index k := slot1]\<rparr>
         else w\<lparr>cw_slots := (cw_slots w)[wk_index k := slot1\<lparr>cl_queued := True\<rparr>],
                cw_queue := cw_queue w @ [k], cw_queued_live := cw_queued_live w + 1\<rparr>)"

definition ctl_enter :: "task \<Rightarrow> ctl_waiters \<Rightarrow> waiter_key \<times> ctl_waiters" where
  "ctl_enter t w =
     (let (i, free, slots) =
            (if cw_free_slots w \<noteq> [] then (last (cw_free_slots w), butlast (cw_free_slots w), cw_slots w)
             else (length (cw_slots w), [], cw_slots w @ [ctl_vacant]));
          g = cw_next_generation w;
          slot = (slots ! i)\<lparr>cl_generation := g, cl_waker := Some t, cl_in_use := True, cl_queued := True\<rparr>;
          k = WaiterKey i g
      in (k, w\<lparr>cw_queue := cw_queue w @ [k], cw_slots := slots[i := slot], cw_free_slots := free,
               cw_queued_live := cw_queued_live w + 1, cw_next_generation := g + 1\<rparr>))"

definition ctl_register_or_refresh ::
  "waiter_key option \<Rightarrow> task \<Rightarrow> ctl_waiters \<Rightarrow> waiter_key option \<times> ctl_waiters" where
  "ctl_register_or_refresh ko t w =
     (case ko of
        Some k \<Rightarrow>
          if ctl_owns_key (cw_slots w) k then (ko, ctl_refresh k t w)
          else map_prod Some id (ctl_enter t w)
      | None \<Rightarrow> map_prod Some id (ctl_enter t w))"

definition compact_queue :: "ctl_waiters \<Rightarrow> ctl_waiters" where
  "compact_queue w =
     (let q = filter (entry_is_live (cw_slots w)) (cw_queue w)
      in w\<lparr>cw_queue := q, cw_queued_live := length q, cw_queued_stale := 0\<rparr>)"

definition maybe_compact_queue :: "ctl_waiters \<Rightarrow> ctl_waiters" where
  "maybe_compact_queue w =
     (if length (cw_queue w) < COMPACT_MIN_QUEUE_LEN then w
      else if cw_queued_stale w * 2 < length (cw_queue w) then w
      else compact_queue w)"

definition ctl_unregister :: "waiter_key \<Rightarrow> ctl_waiters \<Rightarrow> ctl_waiters option" where
  "ctl_unregister k w =
     (if \<not> ctl_owns_key (cw_slots w) k then Some w
      else
        let slot = cw_slots w ! wk_index k
        in if cl_queued slot \<and> cw_queued_live w = 0 then None
           else
             let w1 = (if cl_queued slot
                       then w\<lparr>cw_queued_live := cw_queued_live w - 1, cw_queued_stale := cw_queued_stale w + 1\<rparr>
                       else w)
             in Some (maybe_compact_queue
                  (w1\<lparr>cw_slots := (cw_slots w)[wk_index k :=
                         slot\<lparr>cl_in_use := False, cl_queued := False, cl_waker := None\<rparr>],
                      cw_free_slots := cw_free_slots w @ [wk_index k]\<rparr>)))"

subsection \<open>The waiters of the data channel without reservations\<close>

definition slot_base :: "ctl_slot \<Rightarrow> waiter_slot" where
  "slot_base s = \<lparr>sl_generation = cl_generation s, sl_waker = cl_waker s, sl_in_use = cl_in_use s,
     sl_queued = cl_queued s, sl_reserved = False\<rparr>"

definition base :: "ctl_waiters \<Rightarrow> sender_waiters" where
  "base w = \<lparr>wq_queue = cw_queue w, wq_slots = map slot_base (cw_slots w), wq_free = cw_free_slots w,
     wq_next_generation = cw_next_generation w\<rparr>"

lemma slot_base_simps [simp]:
  "sl_generation (slot_base s) = cl_generation s" "sl_waker (slot_base s) = cl_waker s"
  "sl_in_use (slot_base s) = cl_in_use s" "sl_queued (slot_base s) = cl_queued s"
  "\<not> sl_reserved (slot_base s)"
  by (simp_all add: slot_base_def)

lemma slot_base_update [simp]:
  "slot_base (s\<lparr>cl_generation := g\<rparr>) = (slot_base s)\<lparr>sl_generation := g\<rparr>"
  "slot_base (s\<lparr>cl_waker := x\<rparr>) = (slot_base s)\<lparr>sl_waker := x\<rparr>"
  "slot_base (s\<lparr>cl_in_use := b\<rparr>) = (slot_base s)\<lparr>sl_in_use := b\<rparr>"
  "slot_base (s\<lparr>cl_queued := b\<rparr>) = (slot_base s)\<lparr>sl_queued := b\<rparr>"
  by (simp_all add: slot_base_def)

lemma slot_base_vacant [simp]: "slot_base ctl_vacant = vacant"
  by (simp add: slot_base_def ctl_vacant_def vacant_def)

lemma base_simps [simp]:
  "wq_queue (base w) = cw_queue w" "wq_slots (base w) = map slot_base (cw_slots w)"
  "wq_free (base w) = cw_free_slots w" "wq_next_generation (base w) = cw_next_generation w"
  by (simp_all add: base_def)

lemma live_base: "entry_is_live slots k \<longleftrightarrow> live_entry (map slot_base slots) k"
  by (auto simp: entry_is_live_def live_entry_def)

lemma owns_base: "ctl_owns_key slots k \<longleftrightarrow> owns_key (map slot_base slots) k"
  by (auto simp: ctl_owns_key_def owns_key_def)

lemma base_refresh: "wk_index k < length (cw_slots w) \<Longrightarrow> base (ctl_refresh k t w) = refresh_waiter k t (base w)"
  by (auto simp: ctl_refresh_def refresh_waiter_def Let_def base_def map_update
      list_update_same_conv [THEN iffD2, symmetric])

lemma base_enter:
  assumes "waiters_wf (base w)"
  shows "map_prod id base (ctl_enter t w) = enter_waiter t (base w)"
proof -
  have "last (cw_free_slots w) < length (cw_slots w)" if "cw_free_slots w \<noteq> []"
    using assms last_in_set [OF that] by (auto simp: waiters_wf_def free_ok_def)
  then show ?thesis
    by (auto simp: ctl_enter_def enter_waiter_def Let_def base_def map_update slot_overwrite nth_append
        list_update_append slot_base_def ctl_vacant_def vacant_def)
qed

lemma base_register:
  assumes "waiters_wf (base w)"
  shows "map_prod id base (ctl_register_or_refresh ko t w) = register_or_refresh ko t (base w)"
proof -
  have e: "map_prod Some base (ctl_enter t w) = map_prod Some id (enter_waiter t (base w))"
    unfolding base_enter [OF assms, symmetric] by (simp add: prod.map_comp o_def)
  show ?thesis
  proof (cases ko)
    case None
    then show ?thesis using e by (simp add: ctl_register_or_refresh_def register_or_refresh_def prod.map_comp o_def)
  next
    case (Some k)
    have "base (ctl_refresh k t w) = refresh_waiter k t (base w)" if "ctl_owns_key (cw_slots w) k"
      by (rule base_refresh) (use that in \<open>simp add: ctl_owns_key_def\<close>)
    then show ?thesis using Some e
      by (simp add: ctl_register_or_refresh_def register_or_refresh_def owns_base prod.map_comp o_def)
  qed
qed

definition ctl_ok :: "ctl_waiters \<Rightarrow> bool" where
  \<comment> \<open>the queue has no stale entry that could pass for a live one, and the counters are exact\<close>
  "ctl_ok w \<longleftrightarrow> waiters_tidy (base w) \<and> cw_queued_live w = length (line (base w)) \<and>
     cw_queued_live w + cw_queued_stale w = length (cw_queue w)"

definition ctl_room :: "ctl_waiters \<Rightarrow> bool" where
  "ctl_room w \<longleftrightarrow> cw_next_generation w \<noteq> - 1"

lemma requeue_base: "requeue (base w) = regd (base w)"
  by (auto simp: key_sets keys_where_def)

lemma line_length: "length (line w) = length (filter (live_entry (wq_slots w)) (wq_queue w))"
  by (simp add: line_def)

lemma ctl_register_law:
  assumes "ctl_ok w" "\<And>k. ko = Some k \<Longrightarrow> k \<in> regd (base w)" "ko = None \<Longrightarrow> ctl_room w"
    and "ctl_register_or_refresh ko t w = (ko', w')"
  shows "ctl_ok w'" "register_or_refresh ko t (base w) = (ko', base w')"
proof -
  have tidy: "waiters_tidy (base w)" and wf: "waiters_wf (base w)"
    and cnt: "cw_queued_live w = length (line (base w))" "cw_queued_live w + cw_queued_stale w = length (cw_queue w)"
    using assms(1) by (simp_all add: ctl_ok_def waiters_tidy_def)
  show r: "register_or_refresh ko t (base w) = (ko', base w')"
    using base_register [OF wf, of ko t] assms(4) by simp
  show "ctl_ok w'"
  proof (cases ko)
    case None
    have "waiters_tidy (base w') \<and> line (base w') = line (base w) @ [(the ko', t)]"
      by (rule ml.line_enter [OF tidy _ _ r]) (use assms(3) None in \<open>simp_all add: ctl_room_def waiters_room_def\<close>)
    moreover have "cw_queued_live w' = cw_queued_live w + 1" "cw_queued_stale w' = cw_queued_stale w"
      "length (cw_queue w') = length (cw_queue w) + 1"
      using assms(4) None by (auto simp: ctl_register_or_refresh_def ctl_enter_def Let_def split: if_splits)
    ultimately show ?thesis using cnt by (simp add: ctl_ok_def)
  next
    case (Some k)
    then have k: "k \<in> regd (base w)" using assms(2) by blast
    then have "k \<in> requeue (base w)" by (simp add: requeue_base)
    then have l: "waiters_tidy (base w') \<and> line (base w') = (if k \<in> waiting (base w)
           then map (\<lambda>p. if fst p = k then (k, t) else p) (line (base w)) else line (base w) @ [(k, t)])"
      using ml.line_refresh [OF tidy] r Some by blast
    have o: "ctl_owns_key (cw_slots w) k" using k by (simp add: owns_base owns_key_iff [symmetric])
    then have q: "k \<in> waiting (base w) \<longleftrightarrow> cl_queued (cw_slots w ! wk_index k)"
      by (auto simp: waiting_def keys_where_def ctl_owns_key_def)
    have "w' = ctl_refresh k t w" using assms(4) Some o by (simp add: ctl_register_or_refresh_def)
    then have "cw_queued_live w' = cw_queued_live w + of_bool (k \<notin> waiting (base w))"
      "cw_queued_stale w' = cw_queued_stale w"
      "length (cw_queue w') = length (cw_queue w) + of_bool (k \<notin> waiting (base w))"
      by (simp_all add: q ctl_refresh_def Let_def)
    then show ?thesis using cnt l by (simp add: ctl_ok_def)
  qed
qed

lemma compact_law:
  assumes "ctl_ok w"
  shows "ctl_ok (maybe_compact_queue w)" "regd (base (maybe_compact_queue w)) = regd (base w)"
    "waiting (base (maybe_compact_queue w)) = waiting (base w)" "line (base (maybe_compact_queue w)) = line (base w)"
proof -
  let ?c = "compact_queue w"
  have tidy: "waiters_tidy (base w)" using assms by (simp add: ctl_ok_def)
  have sel: "wq_slots (base ?c) = wq_slots (base w)" "wq_free (base ?c) = wq_free (base w)"
    "wq_next_generation (base ?c) = wq_next_generation (base w)"
    "wq_queue (base ?c) = filter (live_entry (wq_slots (base w))) (wq_queue (base w))"
    by (simp_all add: compact_queue_def Let_def live_base [abs_def])
  have sets: "regd (base ?c) = regd (base w)" "waiting (base ?c) = waiting (base w)"
    unfolding key_sets sel by simp_all
  have ok: "slots_ok (wq_queue (base w)) (wq_slots (base w))" "free_ok (wq_free (base w)) (wq_slots (base w))"
    using tidy by (simp_all add: waiters_tidy_def waiters_wf_def)
  have "slots_ok (filter (live_entry (wq_slots (base w))) (wq_queue (base w))) (wq_slots (base w))"
    using ok(1) queued_key_live [OF ok(1)] by (simp add: slots_ok_def del: base_simps)
  then have "waiters_wf (base ?c)" using ok(2) unfolding waiters_wf_def sel by simp
  then have "waiters_tidy (base ?c)" using tidy unfolding waiters_tidy_def sets sel by (simp add: ball_Un)
  moreover have l: "line (base ?c) = line (base w)" by (simp add: line_def sel del: base_simps)
  moreover have "cw_queued_live ?c = length (cw_queue ?c)" "cw_queued_stale ?c = 0"
    by (simp_all add: compact_queue_def Let_def)
  moreover have "length (cw_queue ?c) = length (line (base w))"
    using sel(4) by (simp add: line_length)
  ultimately have "ctl_ok ?c" by (simp add: ctl_ok_def)
  then show "ctl_ok (maybe_compact_queue w)" "regd (base (maybe_compact_queue w)) = regd (base w)"
    "waiting (base (maybe_compact_queue w)) = waiting (base w)" "line (base (maybe_compact_queue w)) = line (base w)"
    using assms sets l by (simp_all add: maybe_compact_queue_def)
qed

lemma filter_key_length:
  "distinct (map fst xs) \<Longrightarrow> length (filter (\<lambda>p. fst p \<noteq> k) xs) + of_bool (k \<in> fst ` set xs) = length xs"
  by (induction xs) (auto intro!: filter_True)

lemma ctl_unregister_law:
  assumes "ctl_ok w"
  obtains w' where "ctl_unregister k w = Some w'" "ctl_ok w'" "regd (base w') = regd (base w) - {k}"
    "waiting (base w') = waiting (base w) - {k}" "line (base w') = filter (\<lambda>p. fst p \<noteq> k) (line (base w))"
proof -
  have tidy: "waiters_tidy (base w)" and wf: "waiters_wf (base w)"
    and cnt: "cw_queued_live w = length (line (base w))" "cw_queued_live w + cw_queued_stale w = length (cw_queue w)"
    using assms by (simp_all add: ctl_ok_def waiters_tidy_def)
  let ?u = "snd (unregister k (base w))"
  note leave = ml.line_leave [OF tidy, of k] mw.leave [OF wf, of k]
  have lk: "length (filter (\<lambda>p. fst p \<noteq> k) (line (base w))) + of_bool (k \<in> waiting (base w)) = cw_queued_live w"
    using filter_key_length [of "line (base w)" k] ml.line_keys [OF tidy] cnt(1) by simp
  show thesis
  proof (cases "ctl_owns_key (cw_slots w) k")
    case False
    then have "?u = base w" by (simp add: unregister_def owns_base)
    then show thesis using that [of w] False assms leave by (simp add: ctl_unregister_def)
  next
    case True
    let ?s = "cw_slots w ! wk_index k"
    have q: "k \<in> waiting (base w) \<longleftrightarrow> cl_queued ?s"
      using True by (auto simp: waiting_def keys_where_def ctl_owns_key_def)
    define w1 where "w1 = (if cl_queued ?s
        then w\<lparr>cw_queued_live := cw_queued_live w - 1, cw_queued_stale := cw_queued_stale w + 1\<rparr> else w)
      \<lparr>cw_slots := (cw_slots w)[wk_index k := ?s\<lparr>cl_in_use := False, cl_queued := False, cl_waker := None\<rparr>],
       cw_free_slots := cw_free_slots w @ [wk_index k]\<rparr>"
    have pos: "\<not> (cl_queued ?s \<and> cw_queued_live w = 0)" using lk q by auto
    have u: "ctl_unregister k w = Some (maybe_compact_queue w1)"
      unfolding ctl_unregister_def Let_def w1_def using True pos by auto
    have i: "wk_index k < length (cw_slots w)" using True by (simp add: ctl_owns_key_def)
    have "base w1 = ?u"
      using True i by (simp add: unregister_def Let_def base_def w1_def owns_base map_update slot_base_def)
    then have b: "waiters_tidy (base w1)" "line (base w1) = filter (\<lambda>p. fst p \<noteq> k) (line (base w))"
      "regd (base w1) = regd (base w) - {k}" "waiting (base w1) = waiting (base w) - {k}"
      using leave by simp_all
    have "ctl_ok w1" unfolding ctl_ok_def b(2) using b(1) lk cnt q pos by (auto simp: w1_def)
    note c = compact_law [OF this]
    show thesis by (rule that [OF u]) (use c b in simp_all)
  qed
qed

subsection \<open>Waking\<close>

definition served :: "ctl_slot list \<Rightarrow> waiter_key list \<Rightarrow> ctl_slot list \<Rightarrow> bool" where
  \<comment> \<open>the second slots arise from the first by taking the wakers of the keys out\<close>
  "served slots ks slots' \<longleftrightarrow> length slots' = length slots \<and>
     (\<forall>i < length slots. cl_in_use (slots' ! i) = cl_in_use (slots ! i) \<and> cl_generation (slots' ! i) = cl_generation (slots ! i) \<and>
        (cl_queued (slots' ! i) \<longrightarrow> cl_waker (slots' ! i) = cl_waker (slots ! i)) \<and>
        (cl_queued (slots' ! i) \<longleftrightarrow> cl_queued (slots ! i) \<and> WaiterKey i (cl_generation (slots ! i)) \<notin> set ks))"

lemma served_Nil [simp]: "served slots [] slots"
  by (simp add: served_def)

lemma served_Cons:
  assumes "entry_is_live slots k" "served (slots[wk_index k := (slots ! wk_index k)\<lparr>cl_queued := False, cl_waker := None\<rparr>]) ks slots'"
  shows "served slots (k # ks) slots'"
proof -
  let ?s = "(slots ! wk_index k)\<lparr>cl_queued := False, cl_waker := None\<rparr>"
  have k: "wk_index k < length slots" "cl_generation (slots ! wk_index k) = wk_generation k" using assms(1) by (simp_all add: entry_is_live_def)
  have len: "length slots' = length slots" using assms(2) by (simp add: served_def)
  have "cl_in_use (slots' ! i) = cl_in_use (slots ! i) \<and> cl_generation (slots' ! i) = cl_generation (slots ! i) \<and>
        (cl_queued (slots' ! i) \<longrightarrow> cl_waker (slots' ! i) = cl_waker (slots ! i)) \<and>
        (cl_queued (slots' ! i) \<longleftrightarrow> cl_queued (slots ! i) \<and> WaiterKey i (cl_generation (slots ! i)) \<notin> set (k # ks))"
    if "i < length slots" for i
  proof (cases "i = wk_index k")
    case True
    then have "WaiterKey i (cl_generation (slots ! i)) = k" using k(2) by (cases k) simp
    moreover have "cl_in_use (slots' ! i) = cl_in_use (slots ! i)" "cl_generation (slots' ! i) = cl_generation (slots ! i)" "\<not> cl_queued (slots' ! i)"
      using assms(2) True k(1) by (auto simp: served_def)
    ultimately show ?thesis by simp
  next
    case False
    then have ne: "WaiterKey i (cl_generation (slots ! i)) \<noteq> k" by auto
    have e: "slots[wk_index k := ?s] ! i = slots ! i" using False by simp
    note u = assms(2) [unfolded served_def, THEN conjunct2, rule_format, of i, unfolded e length_list_update, OF that]
    show ?thesis using u ne by simp
  qed
  then show ?thesis using len by (simp add: served_def)
qed

lemma wake_n_loop_law:
  "slots_ok q (map slot_base slots) \<Longrightarrow> distinct q \<Longrightarrow> live = length (filter (entry_is_live slots) q) \<Longrightarrow>
   live + stale = length q \<Longrightarrow>
   \<exists>q' slots' stale'. wake_n_loop n q slots live stale =
       Some (map (waker_of (map slot_base slots)) (take n (filter (entry_is_live slots) q)), q', slots', live - n, stale') \<and>
     (\<exists>p. q = p @ q') \<and> filter (entry_is_live slots) q' = drop n (filter (entry_is_live slots) q) \<and>
     live - n + stale' = length q' \<and> served slots (take n (filter (entry_is_live slots) q)) slots'"
proof (induction n q slots live stale rule: wake_n_loop.induct)
  case (1 q slots live stale)
  then show ?case by simp
next
  case (2 n slots live stale)
  then show ?case by simp
next
  case (3 n k q slots live stale)
  show ?case
  proof (cases "entry_is_live slots k")
    case False
    have ok: "slots_ok q (map slot_base slots)" by (rule slots_ok_skip [OF 3(4)]) (use False in \<open>simp add: live_base\<close>)
    have c: "live = length (filter (entry_is_live slots) q)" using 3(6) False by simp
    have d: "distinct q" using 3(5) by simp
    have "live \<le> length q" unfolding c by (rule length_filter_le)
    then have s: "stale \<noteq> 0" using 3(7) by auto
    then have c': "live + (stale - 1) = length q" using 3(7) by simp
    obtain q' slots' stale' p where *: "wake_n_loop (Suc n) q slots live (stale - 1) =
       Some (map (waker_of (map slot_base slots)) (take (Suc n) (filter (entry_is_live slots) q)), q', slots', live - Suc n, stale')"
       "q = p @ q'" "filter (entry_is_live slots) q' = drop (Suc n) (filter (entry_is_live slots) q)"
       "live - Suc n + stale' = length q'" "served slots (take (Suc n) (filter (entry_is_live slots) q)) slots'"
      using 3(1) [OF False s ok d c c'] by blast
    have "\<exists>p. k # q = p @ q'" using *(2) by (intro exI [of _ "k # p"]) simp
    moreover have step: "wake_n_loop (Suc n) (k # q) slots live stale = wake_n_loop (Suc n) q slots live (stale - 1)"
      using False s by simp
    moreover have e: "filter (entry_is_live slots) (k # q) = filter (entry_is_live slots) q" using False by simp
    ultimately show ?thesis unfolding step e using *(1,3-5) by blast
  next
    case True
    have i: "wk_index k < length slots" using True by (simp add: entry_is_live_def)
    obtain t where t: "cl_waker (slots ! wk_index k) = Some t"
      using live_waker [OF 3(4), of k] True i by (auto simp: live_base)
    define s where "s = (slots ! wk_index k)\<lparr>cl_queued := False, cl_waker := None\<rparr>"
    define slots1 where "slots1 = slots[wk_index k := s]"
    have m: "map slot_base slots1 = (map slot_base slots)[wk_index k := slot_base s]" by (simp add: slots1_def map_update)
    have ok: "slots_ok q (map slot_base slots1)" unfolding m
      by (rule slots_ok_serve [OF 3(4)]) (use True in \<open>simp_all add: live_base s_def\<close>)
    have own: "owns_key (map slot_base slots) k" using True live_owns by (simp add: live_base)
    have ne: "x \<noteq> k" if "x \<in> set q" for x using that 3(5) by auto
    have same: "entry_is_live slots1 x = entry_is_live slots x" if "x \<in> set q" for x
      using ne [OF that] same_index_live [OF _ own, of x] i
      by (auto simp: live_base m live_entry_update s_def)
    have wk: "waker_of (map slot_base slots1) x = waker_of (map slot_base slots) x" if "x \<in> set q" "entry_is_live slots x" for x
      using ne [OF that(1)] same_index_live [OF _ own, of x] that(2) i by (auto simp: live_base m waker_of_update)
    have f: "filter (entry_is_live slots1) q = filter (entry_is_live slots) q" using same by (rule filter_cong [OF refl])
    have c: "live \<noteq> 0" "live - 1 = length (filter (entry_is_live slots1) q)" "live - 1 + stale = length q"
      using 3(6,7) True by (simp_all add: f)
    have d: "distinct q" using 3(5) by simp
    have IH: "\<exists>q' slots' stale'. wake_n_loop n q slots1 (live - 1) stale =
       Some (map (waker_of (map slot_base slots1)) (take n (filter (entry_is_live slots1) q)), q', slots', live - 1 - n, stale') \<and>
     (\<exists>p. q = p @ q') \<and> filter (entry_is_live slots1) q' = drop n (filter (entry_is_live slots1) q) \<and>
     live - 1 - n + stale' = length q' \<and> served slots1 (take n (filter (entry_is_live slots1) q)) slots'"
    proof -
      have u: "cl_waker ((slots ! wk_index k)\<lparr>cl_queued := False\<rparr>) = Some t" using t by simp
      have e: "slots[wk_index k := (slots ! wk_index k)\<lparr>cl_queued := False\<rparr>\<lparr>cl_waker := None\<rparr>] = slots1"
        by (simp add: slots1_def s_def)
      have nn: "\<not> \<not> entry_is_live slots k" using True by simp
      show ?thesis by (rule 3(3) [OF nn c(1) refl refl u, unfolded e, OF ok d c(2,3)])
    qed
    then obtain q' slots' stale' p where *: "wake_n_loop n q slots1 (live - 1) stale =
       Some (map (waker_of (map slot_base slots1)) (take n (filter (entry_is_live slots) q)), q', slots', live - 1 - n, stale')"
       "q = p @ q'" "filter (entry_is_live slots1) q' = drop n (filter (entry_is_live slots) q)"
       "live - 1 - n + stale' = length q'" "served slots1 (take n (filter (entry_is_live slots) q)) slots'"
      unfolding f by blast
    have "map (waker_of (map slot_base slots1)) (take n (filter (entry_is_live slots) q)) =
        map (waker_of (map slot_base slots)) (take n (filter (entry_is_live slots) q))"
      using wk by (auto dest: in_set_takeD)
    moreover have "waker_of (map slot_base slots) k = t" using t i by (simp add: waker_of_def)
    ultimately have ts: "map_option (apfst (Cons t)) (wake_n_loop n q slots1 (live - 1) stale) =
        Some (map (waker_of (map slot_base slots)) (k # take n (filter (entry_is_live slots) q)), q', slots', live - 1 - n, stale')"
      unfolding *(1) by simp
    have fq: "filter (entry_is_live slots) q' = drop n (filter (entry_is_live slots) q)"
      unfolding *(3) [symmetric] by (rule filter_cong [OF refl]) (use same *(2) in simp)
    have step: "wake_n_loop (Suc n) (k # q) slots live stale = map_option (apfst (Cons t)) (wake_n_loop n q slots1 (live - 1) stale)"
      using True c(1) t by (simp add: Let_def slots1_def s_def)
    have sv: "served slots (k # take n (filter (entry_is_live slots) q)) slots'"
      by (rule served_Cons [OF True]) (use *(5) in \<open>simp add: slots1_def s_def\<close>)
    have "\<exists>p. k # q = p @ q'" using *(2) by (intro exI [of _ "k # p"]) simp
    moreover have e: "filter (entry_is_live slots) (k # q) = k # filter (entry_is_live slots) q" using True by simp
    moreover have n: "live - Suc n = live - 1 - n" by simp
    ultimately show ?thesis unfolding step ts e take_Suc_Cons drop_Suc_Cons n using fq sv *(4) by blast
  qed
qed

lemma served_live:
  assumes "served slots ks slots'"
  shows "entry_is_live slots' x \<longleftrightarrow> entry_is_live slots x \<and> x \<notin> set ks"
    "ctl_owns_key slots' x = ctl_owns_key slots x"
    "entry_is_live slots' x \<Longrightarrow> waker_of (map slot_base slots') x = waker_of (map slot_base slots) x"
proof -
  have len: "length slots' = length slots" using assms by (simp add: served_def)
  have "(entry_is_live slots' x \<longleftrightarrow> entry_is_live slots x \<and> x \<notin> set ks) \<and> ctl_owns_key slots' x = ctl_owns_key slots x \<and>
    (entry_is_live slots' x \<longrightarrow> waker_of (map slot_base slots') x = waker_of (map slot_base slots) x)"
  proof (cases "wk_index x < length slots")
    case True
    note u = assms [unfolded served_def, THEN conjunct2, rule_format, OF True]
    have "WaiterKey (wk_index x) (cl_generation (slots ! wk_index x)) = x \<longleftrightarrow> cl_generation (slots ! wk_index x) = wk_generation x"
      by (cases x) auto
    then show ?thesis using u True len by (auto simp: entry_is_live_def ctl_owns_key_def waker_of_def)
  next
    case False
    then show ?thesis using len by (simp add: entry_is_live_def ctl_owns_key_def)
  qed
  then show "entry_is_live slots' x \<longleftrightarrow> entry_is_live slots x \<and> x \<notin> set ks"
    "ctl_owns_key slots' x = ctl_owns_key slots x"
    "entry_is_live slots' x \<Longrightarrow> waker_of (map slot_base slots') x = waker_of (map slot_base slots) x" by blast+
qed

lemma live_base_fun: "live_entry (map slot_base slots) = entry_is_live slots"
  by (rule ext) (simp add: live_base)

lemma regd_base: "x \<in> regd (base w) \<longleftrightarrow> ctl_owns_key (cw_slots w) x"
  by (simp add: owns_base owns_key_iff [symmetric])

lemma ctl_wake_n_law:
  assumes "ctl_ok w"
  obtains w' where "ctl_wake_n n w = Some (map snd (take n (line (base w))), w')" "ctl_ok w'"
    "regd (base w') = regd (base w)" "line (base w') = drop n (line (base w))"
proof -
  let ?live = "entry_is_live (cw_slots w)" and ?q = "cw_queue w"
  have wf: "slots_ok ?q (map slot_base (cw_slots w))" "free_ok (cw_free_slots w) (map slot_base (cw_slots w))" "distinct ?q"
    and tidy: "\<forall>k \<in> set ?q \<union> regd (base w). unat (wk_generation k) < unat (cw_next_generation w)"
      "\<forall>k \<in> set ?q. ctl_owns_key (cw_slots w) k \<longrightarrow> ?live k"
    and cnt: "cw_queued_live w = length (filter ?live ?q)" "cw_queued_live w + cw_queued_stale w = length ?q"
    using assms by (simp_all add: ctl_ok_def waiters_tidy_def waiters_wf_def line_length live_base_fun owns_base)
  obtain q' slots' stale' p where
    loop: "wake_n_loop n ?q (cw_slots w) (cw_queued_live w) (cw_queued_stale w) =
       Some (map (waker_of (map slot_base (cw_slots w))) (take n (filter ?live ?q)), q', slots', cw_queued_live w - n, stale')"
    and q': "?q = p @ q'" "filter ?live q' = drop n (filter ?live ?q)" "cw_queued_live w - n + stale' = length q'"
    and sv: "served (cw_slots w) (take n (filter ?live ?q)) slots'"
    using wake_n_loop_law [OF wf(1,3) cnt, of n] by blast
  define w' where "w' = w\<lparr>cw_queue := q', cw_slots := slots', cw_queued_live := cw_queued_live w - n, cw_queued_stale := stale'\<rparr>"
  have sel: "cw_queue w' = q'" "cw_slots w' = slots'" "cw_free_slots w' = cw_free_slots w" "cw_next_generation w' = cw_next_generation w"
    "cw_queued_live w' = cw_queued_live w - n" "cw_queued_stale w' = stale'" by (simp_all add: w'_def)
  note live = served_live [OF sv]
  have d: "distinct (take n (filter ?live ?q) @ drop n (filter ?live ?q))" using wf(3) by simp
  have new: "x \<notin> set (take n (filter ?live ?q))" if "x \<in> set q'" "?live x" for x
  proof -
    have "x \<in> set (drop n (filter ?live ?q))" using that by (simp flip: q'(2))
    then show ?thesis using d by (auto simp del: append_take_drop_id)
  qed
  have fq: "filter (entry_is_live slots') q' = drop n (filter ?live ?q)"
    unfolding q'(2) [symmetric] by (rule filter_cong [OF refl]) (use live(1) new in blast)
  have regd: "regd (base w') = regd (base w)" by (auto simp: regd_base sel live(2))
  have "slots_ok q' (map slot_base slots')" unfolding slots_ok_def
  proof (intro allI impI)
    fix i assume "i < length (map slot_base slots')"
    then have i: "i < length (cw_slots w)" "i < length slots'" using sv by (simp_all add: served_def)
    note u = sv [unfolded served_def, THEN conjunct2, rule_format, OF i(1)]
    let ?k = "WaiterKey i (cl_generation (cw_slots w ! i))"
    have "cl_in_use (slots' ! i) \<and> cl_waker (slots' ! i) \<noteq> None \<and> WaiterKey i (cl_generation (slots' ! i)) \<in> set q'" if "cl_queued (slots' ! i)"
    proof -
      have o: "cl_in_use (cw_slots w ! i)" "cl_waker (cw_slots w ! i) \<noteq> None" "?k \<in> set ?q" "?k \<notin> set (take n (filter ?live ?q))" "cl_queued (cw_slots w ! i)"
        using wf(1) [unfolded slots_ok_def, rule_format, of i] i u that by simp_all
      then have "?live ?k" using i(1) by (simp add: entry_is_live_def)
      then have "?k \<in> set (take n (filter ?live ?q) @ drop n (filter ?live ?q))" using o(3) by simp
      then have "?k \<in> set q'" using o(4) unfolding q'(2) [symmetric] by simp
      then show ?thesis using u that o by simp
    qed
    then show "(sl_queued (map slot_base slots' ! i) \<longrightarrow> sl_in_use (map slot_base slots' ! i) \<and> \<not> sl_reserved (map slot_base slots' ! i) \<and>
        sl_waker (map slot_base slots' ! i) \<noteq> None \<and> WaiterKey i (sl_generation (map slot_base slots' ! i)) \<in> set q') \<and>
      (sl_reserved (map slot_base slots' ! i) \<longrightarrow> sl_in_use (map slot_base slots' ! i))" using i(2) by simp
  qed
  moreover have "free_ok (cw_free_slots w) (map slot_base slots')"
    using wf(2) sv by (auto simp: free_ok_def served_def)
  moreover have "\<forall>k \<in> set q'. ctl_owns_key slots' k \<longrightarrow> entry_is_live slots' k"
    using tidy(2) q'(1) live(1,2) new by auto
  ultimately have t: "waiters_tidy (base w')"
    using wf(3) tidy(1) q'(1) regd by (auto simp: waiters_tidy_def waiters_wf_def sel live_base [symmetric] owns_base [symmetric])
  have line: "line (base w') = drop n (line (base w))"
  proof -
    have "waker_of (map slot_base slots') x = waker_of (map slot_base (cw_slots w)) x" if "x \<in> set (drop n (filter ?live ?q))" for x
      using that live(3) [of x] unfolding fq [symmetric] by simp
    then show ?thesis using fq by (simp add: line_def sel live_base_fun drop_map cong: map_cong)
  qed
  have "ctl_ok w'" unfolding ctl_ok_def line using t q'(3) cnt(1) by (simp add: sel line_length live_base_fun)
  moreover have "ctl_wake_n n w = Some (map snd (take n (line (base w))), w')"
    by (simp add: ctl_wake_n_def loop w'_def line_def live_base_fun take_map o_def)
  ultimately show thesis using that regd line by blast
qed

lemma wake_all_loop_eq:
  "length q \<le> n \<Longrightarrow> wake_n_loop n q slots live stale =
     map_option (\<lambda>(ts, r). (ts, [], r)) (wake_all_loop q slots live stale)"
proof (induction q slots live stale arbitrary: n rule: wake_all_loop.induct)
  case (1 slots live stale)
  then show ?case by (cases n) simp_all
next
  case (2 k q slots live stale)
  then obtain m where m: "n = Suc m" "length q \<le> m" by (cases n) auto
  have c: "map_option (apfst (Cons t)) (map_option (\<lambda>(ts, r). (ts, [], r)) x) =
      map_option (\<lambda>(ts, r). (ts, [], r)) (map_option (apfst (Cons t)) x)" for t :: task and x :: "(task list \<times> ctl_slot list \<times> nat \<times> nat) option"
    by (cases x) auto
  show ?case using 2 m by (auto simp: Let_def c split: option.split)
qed

lemma ctl_wake_all_eq: "ctl_wake_all w = ctl_wake_n (length (cw_queue w)) w"
  unfolding ctl_wake_all_def ctl_wake_n_def wake_all_loop_eq [OF order_refl]
  by (simp add: option.map_comp o_def case_prod_beta')

lemma ctl_wake_all_law:
  assumes "ctl_ok w"
  obtains w' where "ctl_wake_all w = Some (map snd (line (base w)), w')" "ctl_ok w'"
    "regd (base w') = regd (base w)" "line (base w') = []"
proof -
  have "length (line (base w)) \<le> length (cw_queue w)" using assms by (simp add: ctl_ok_def)
  then show thesis using ctl_wake_n_law [OF assms, of "length (cw_queue w)"] that unfolding ctl_wake_all_eq by auto
qed

lemma ctl_ok_new: "ctl_ok ctl_waiters_new"
proof -
  have "base ctl_waiters_new = new_waiters" by (simp add: base_def ctl_waiters_new_def new_waiters_def)
  then show ?thesis using ml.tidy_empty by (simp add: ctl_ok_def) (simp add: ctl_waiters_new_def new_waiters_def line_def)
qed

subsection \<open>The control channel's waiters implement the contract\<close>

abbreviation "ctl_regd w \<equiv> regd (base w)"
abbreviation "ctl_waiting w \<equiv> waiting (base w)"
abbreviation "ctl_line w \<equiv> line (base w)"

interpretation cw: batch_waiters ctl_ok ctl_regd ctl_waiting ctl_regd ctl_waiters_new ctl_register_or_refresh
    "\<lambda>k w. the (ctl_unregister k w)" "\<lambda>w. the (ctl_wake_all w)" ctl_room ctl_line ctl_ok ctl_room
    "\<lambda>n w. the (ctl_wake_n n w)"
proof -
  have new: "base ctl_waiters_new = new_waiters" by (simp add: base_def ctl_waiters_new_def new_waiters_def)
  have tidy: "waiters_tidy (base w)" "waiters_wf (base w)" if "ctl_ok w" for w
    using that by (simp_all add: ctl_ok_def waiters_tidy_def)
  have enter: "ctl_register_or_refresh k0 t w = ctl_register_or_refresh None t w" if "\<And>k. k0 = Some k \<Longrightarrow> k \<notin> ctl_regd w" for k0 t w
    using that by (auto simp: ctl_register_or_refresh_def regd_base split: option.split)
  show "batch_waiters ctl_ok ctl_regd ctl_waiting ctl_regd ctl_waiters_new ctl_register_or_refresh
    (\<lambda>k w. the (ctl_unregister k w)) (\<lambda>w. the (ctl_wake_all w)) ctl_room ctl_line ctl_ok ctl_room
    (\<lambda>n w. the (ctl_wake_n n w))"
  proof (unfold_locales, goal_cases)
    case 1 show ?case by (rule ctl_ok_new)
  next
    case 2 show ?case by (simp add: new)
  next
    case 3 show ?case by (simp add: new)
  next
    case (4 w) show ?case by (rule mw.finite_regd [OF tidy(2) [OF 4]])
  next
    case (5 w) show ?case by (rule mw.waiting_regd [OF tidy(2) [OF 5]])
  next
    case (7 w k t ko w')
    note l = ctl_register_law [OF 7(1) _ _ 7(3)]
    have "k \<in> requeue (base w)" using 7(2) by (simp add: requeue_base)
    then show ?case using mw.refresh [OF tidy(2) [OF 7(1)] _ l(2)] l(1) 7(2) by simp
  next
    case (8 w k0 t ko w')
    have r: "ctl_register_or_refresh None t w = (ko, w')" using enter [of k0 w t] 8(3,4) by metis
    note l = ctl_register_law [OF 8(1) _ _ r]
    show ?case using mw.enter_None [OF tidy(2) [OF 8(1)] _ l(2)] l(1) 8(2) by auto
  next
    case (9 w k)
    obtain w' where "ctl_unregister k w = Some w'" "ctl_ok w'" "ctl_regd w' = ctl_regd w - {k}"
      "ctl_waiting w' = ctl_waiting w - {k}" by (rule ctl_unregister_law [OF 9, of k]) blast
    then show ?case by simp
  next
    case (10 w ts w')
    obtain v where v: "ctl_wake_all w = Some (map snd (ctl_line w), v)" "ctl_ok v" "ctl_regd v = ctl_regd w" "ctl_line v = []"
      by (rule ctl_wake_all_law [OF 10(1)])
    then have "ctl_waiting v = {}" using ml.waiting_empty_iff [OF tidy(1) [OF v(2)]] by simp
    then show ?case using v 10(2) by simp
  next
    case (12 w) show ?case by (rule ml.line_keys [OF tidy(1) [OF 12]])
  next
    case (13 w k t ko w')
    note l = ctl_register_law [OF 13(1) _ _ 13(3)]
    have "k \<in> requeue (base w)" using 13(2) by (simp add: requeue_base)
    then show ?case using ml.line_refresh [OF tidy(1) [OF 13(1)] _ l(2)] l(1) 13(2) by simp
  next
    case (14 w k0 t ko w')
    have r: "ctl_register_or_refresh None t w = (ko, w')" using enter [of k0 w t] 14(3,4) by metis
    note l = ctl_register_law [OF 14(1) _ _ r]
    have "waiters_room (base w)" using 14(2) by (simp add: ctl_room_def waiters_room_def)
    then show ?case using ml.line_enter [OF tidy(1) [OF 14(1)] _ _ l(2)] l(1) 14(2) by simp
  next
    case (15 w k)
    obtain w' where "ctl_unregister k w = Some w'" "ctl_ok w'"
      "ctl_line w' = filter (\<lambda>p. fst p \<noteq> k) (ctl_line w)" by (rule ctl_unregister_law [OF 15, of k]) blast
    then show ?case by simp
  next
    case (16 w ts w')
    obtain v where v: "ctl_wake_all w = Some (map snd (ctl_line w), v)" "ctl_ok v" "ctl_line v = []"
      by (rule ctl_wake_all_law [OF 16(1)])
    then show ?case using 16(2) by simp
  next
    case (17 w n ts w')
    obtain v where v: "ctl_wake_n n w = Some (map snd (take n (ctl_line w)), v)" "ctl_ok v"
      "ctl_regd v = ctl_regd w" "ctl_line v = drop n (ctl_line w)" by (rule ctl_wake_n_law [OF 17(1), of n])
    then show ?case using 17(2) by simp
  qed simp_all
qed

lemma ctl_total:
  assumes "ctl_ok w"
  shows "ctl_unregister k w \<noteq> None" "ctl_wake_all w \<noteq> None" "ctl_wake_n n w \<noteq> None"
  by (rule ctl_unregister_law [OF assms, of k], simp) (rule ctl_wake_all_law [OF assms], simp,
    rule ctl_wake_n_law [OF assms, of n], simp)

text \<open>
  C40. The waiters of the control channel refine a queue. The slots, the free list, the queue with
  tombstones, its compaction and its counters implement a plain first-in first-out list of tasks:
  freeing slots wakes that many tasks at its head, a new waiter enters at its end, cancelling
  removes exactly that waiter, and no assertion on the counters fails.\<close>

theorem control_waiters_refine_queue:
  assumes "ctl_ok w" "ctl_room w"
  shows "\<exists>w1 w2 w3 w4. ctl_wake_n n w = Some (map snd (take n (ctl_line w)), w1) \<and> ctl_ok w1 \<and> ctl_line w1 = drop n (ctl_line w) \<and>
    snd (ctl_register_or_refresh None t w) = w2 \<and> ctl_ok w2 \<and> map snd (ctl_line w2) = map snd (ctl_line w) @ [t] \<and>
    ctl_unregister k w = Some w3 \<and> ctl_ok w3 \<and> ctl_line w3 = filter (\<lambda>p. fst p \<noteq> k) (ctl_line w) \<and>
    ctl_wake_all w = Some (map snd (ctl_line w), w4) \<and> ctl_ok w4 \<and> ctl_line w4 = []"
proof -
  obtain w1 where 1: "ctl_wake_n n w = Some (map snd (take n (ctl_line w)), w1)" "ctl_ok w1" "ctl_line w1 = drop n (ctl_line w)"
    by (rule ctl_wake_n_law [OF assms(1), of n]) blast
  obtain ko w2 where 2: "ctl_register_or_refresh None t w = (ko, w2)" by force
  have 22: "ctl_ok w2" "ctl_line w2 = ctl_line w @ [(the ko, t)]" using cw.line_enter [OF assms _ 2] by simp_all
  obtain w3 where 3: "ctl_unregister k w = Some w3" "ctl_ok w3" "ctl_line w3 = filter (\<lambda>p. fst p \<noteq> k) (ctl_line w)"
    by (rule ctl_unregister_law [OF assms(1), of k]) blast
  obtain w4 where 4: "ctl_wake_all w = Some (map snd (ctl_line w), w4)" "ctl_ok w4" "ctl_line w4 = []"
    by (rule ctl_wake_all_law [OF assms(1)]) blast
  show ?thesis using 1 2 22 3 4 by (intro exI [of _ w1] exI [of _ w2] exI [of _ w3] exI [of _ w4]) simp
qed

definition two_waiters :: ctl_waiters where
  "two_waiters = snd (ctl_register_or_refresh None 8 (snd (ctl_register_or_refresh None 7 ctl_waiters_new)))"

lemma two_waiters_ok: "ctl_ok two_waiters" "ctl_room two_waiters" "map snd (ctl_line two_waiters) = [7, 8]"
proof -
  let ?one = "snd (ctl_register_or_refresh None 7 ctl_waiters_new)"
  have r: "ctl_room ctl_waiters_new" "ctl_room ?one" "ctl_room two_waiters"
    by (simp_all add: ctl_room_def two_waiters_def ctl_waiters_new_def ctl_register_or_refresh_def ctl_enter_def Let_def)
  have 0: "ctl_line ctl_waiters_new = []" by (simp add: line_def ctl_waiters_new_def)
  have 1: "ctl_ok ?one \<and> ctl_line ?one = ctl_line ctl_waiters_new @ [(the (fst (ctl_register_or_refresh None 7 ctl_waiters_new)), 7)]"
    by (rule cw.line_enter [OF cw.tidy_empty r(1), of None]) simp_all
  have 2: "ctl_ok two_waiters \<and> ctl_line two_waiters = ctl_line ?one @ [(the (fst (ctl_register_or_refresh None 8 ?one)), 8)]"
    unfolding two_waiters_def by (rule cw.line_enter [OF conjunct1 [OF 1] r(2), of None]) simp_all
  show "ctl_ok two_waiters" "ctl_room two_waiters" "map snd (ctl_line two_waiters) = [7, 8]"
    using 0 1 2 r(3) by (simp_all del: base_simps)
qed

theorem control_waiters_refine_queue_witness:
  "\<exists>w'. ctl_wake_n 1 two_waiters = Some ([7], w') \<and> map snd (ctl_line w') = [8]"
proof -
  obtain w1 where "ctl_wake_n 1 two_waiters = Some (map snd (take 1 (ctl_line two_waiters)), w1)" "ctl_line w1 = drop 1 (ctl_line two_waiters)"
    using control_waiters_refine_queue [OF two_waiters_ok(1,2), of 1] by blast
  moreover have "map snd (take 1 (ctl_line two_waiters)) = [7]" "map snd (drop 1 (ctl_line two_waiters)) = [8]"
    unfolding take_map [symmetric] drop_map [symmetric] two_waiters_ok(3) by simp_all
  ultimately show ?thesis by simp
qed

end
