(* ===== verification/Control_Channel.thy ===== *)
theory Control_Channel
  imports Control_Core_Laws Control_Waiters "HOL-Library.Monad_Syntax"
begin

section \<open>The asynchronous control channel\<close>

text \<open>
  The channel of \<^verbatim>\<open>crates/control-channel/src/channel.rs\<close> around the queue core: its senders, its
  receiver and the future of a blocked send. \<^verbatim>\<open>Notify\<close> and \<^verbatim>\<open>Sleep\<close> belong to the tokio crate:
  notifying the receiver is an entry of the list of notices an operation gives, besides the tasks
  of blocked senders that it wakes, and a poll takes, for each round of its loop, the instant that
  admission reads and whether a sleep with a given deadline is over. A result \<^term>\<open>None\<close> is a panic.
\<close>

datatype notice = Notify_One | Notify_Waiters | Wake task

record ('p, 'm, 'j) ctl_state =
  cc_inner :: "('p, 'm, 'j) inner"
  cc_sender_count :: nat
  cc_sender_waiters :: "ctl_waiters option"

definition control_channel_state :: "control_channel_config \<Rightarrow> config_error + ('p, 'm, 'j) ctl_state" where
  "control_channel_state config =
     (case validate config of
        Inl e \<Rightarrow> Inl e
      | Inr _ \<Rightarrow> Inr \<lparr>cc_inner = new_inner config, cc_sender_count = 1, cc_sender_waiters = None\<rparr>)"

subsection \<open>Waiting and waking\<close>

definition register_waiter ::
  "waiter_key option \<Rightarrow> task \<Rightarrow> ('p, 'm, 'j) ctl_state \<Rightarrow> waiter_key option \<times> ('p, 'm, 'j) ctl_state" where
  "register_waiter ko t st =
     (let w = (case cc_sender_waiters st of Some w \<Rightarrow> w | None \<Rightarrow> ctl_waiters_new);
          (ko', w') = ctl_register_or_refresh ko t w
      in (ko', st\<lparr>cc_sender_waiters := Some w'\<rparr>))"

definition unregister_waiter :: "waiter_key \<Rightarrow> ('p, 'm, 'j) ctl_state \<Rightarrow> ('p, 'm, 'j) ctl_state option" where
  "unregister_waiter k st =
     (case cc_sender_waiters st of
        None \<Rightarrow> Some st
      | Some w \<Rightarrow> map_option (\<lambda>w'. st\<lparr>cc_sender_waiters := Some w'\<rparr>) (ctl_unregister k w))"

definition wake_completion_waiters ::
  "nat \<Rightarrow> ('p, 'm, 'j) ctl_state \<Rightarrow> (notice list \<times> ('p, 'm, 'j) ctl_state) option" where
  "wake_completion_waiters slots_freed st =
     (if slots_freed = 0 then Some ([], st)
      else case cc_sender_waiters st of
        None \<Rightarrow> Some ([], st)
      | Some w \<Rightarrow> map_option (\<lambda>(ts, w'). (map Wake ts, st\<lparr>cc_sender_waiters := Some w'\<rparr>))
                    (ctl_wake_n slots_freed w))"

definition wake_all_waiters ::
  "('p, 'm, 'j) ctl_state \<Rightarrow> (notice list \<times> ('p, 'm, 'j) ctl_state) option" where
  "wake_all_waiters st =
     (case cc_sender_waiters st of
        None \<Rightarrow> Some ([], st)
      | Some w \<Rightarrow> map_option (\<lambda>(ts, w'). (map Wake ts, st\<lparr>cc_sender_waiters := Some w'\<rparr>)) (ctl_wake_all w))"

subsection \<open>Senders\<close>

definition clone_ctl_sender :: "('p, 'm, 'j) ctl_state \<Rightarrow> ('p, 'm, 'j) ctl_state" where
  "clone_ctl_sender st = st\<lparr>cc_sender_count := sat_add (cc_sender_count st) 1\<rparr>"

definition drop_ctl_sender :: "('p, 'm, 'j) ctl_state \<Rightarrow> notice list \<times> ('p, 'm, 'j) ctl_state" where
  "drop_ctl_sender st =
     (let st1 = st\<lparr>cc_sender_count := cc_sender_count st - 1\<rparr>
      in if cc_sender_count st1 = 0 then
           let (closed, i) = close (cc_inner st1)
           in (if closed then [Notify_Waiters] else [], st1\<lparr>cc_inner := i\<rparr>)
         else ([], st1))"

definition accept_drain_ingress ::
  "instant \<Rightarrow> drain_ingress_msg \<Rightarrow> ('p, 'm, 'j) ctl_state \<Rightarrow>
     lifecycle_send_result \<times> notice list \<times> ('p, 'm, 'j) ctl_state" where
  "accept_drain_ingress now msg st =
     (let (result, i) = record_drain_ingress now msg (cc_inner st)
      in (result, if result = LcAccepted then [Notify_Waiters] else [], st\<lparr>cc_inner := i\<rparr>))"

definition accept_shutdown ::
  "instant \<Rightarrow> shutdown_msg \<Rightarrow> ('p, 'm, 'j) ctl_state \<Rightarrow>
     (lifecycle_send_result \<times> notice list \<times> ('p, 'm, 'j) ctl_state) option" where
  "accept_shutdown now msg st =
     (let (result, i) = record_shutdown now msg (cc_inner st); st1 = st\<lparr>cc_inner := i\<rparr>
      in if result = LcAccepted
         then map_option (\<lambda>(ns, st2). (result, ns @ [Notify_Waiters], st2)) (wake_all_waiters st1)
         else Some (result, [], st1))"

definition sender_try_send ::
  "instant \<Rightarrow> ('p, 'm, 'j) control_cmd \<Rightarrow> ('p, 'm, 'j) ctl_state \<Rightarrow>
     ('p, 'm, 'j) send_answer \<times> notice list \<times> ('p, 'm, 'j) ctl_state" where
  "sender_try_send now cmd st =
     (let (result, i) = try_send now cmd (cc_inner st)
      in (result, if result = Inr Accepted \<or> result = Inr Replaced then [Notify_One] else [],
          st\<lparr>cc_inner := i\<rparr>))"

definition sender_close :: "('p, 'm, 'j) ctl_state \<Rightarrow> (notice list \<times> ('p, 'm, 'j) ctl_state) option" where
  "sender_close st =
     (let (closed, i) = close (cc_inner st); st1 = st\<lparr>cc_inner := i\<rparr>
      in if closed then map_option (\<lambda>(ns, st2). (ns @ [Notify_Waiters], st2)) (wake_all_waiters st1)
         else Some ([], st1))"

definition sender_stats :: "('p, 'm, 'j) ctl_state \<Rightarrow> control_channel_stats" where
  "sender_stats st = stats (cc_inner st)"

subsection \<open>The future of a send\<close>

record ('p, 'm, 'j) send_fut =
  fu_pending_cmd :: "('p, 'm, 'j) control_cmd option"
  fu_waiter_key :: "waiter_key option"
  fu_deadline_sleep :: "instant option"

datatype ('p, 'm, 'j) send_poll = SendPending | SendReady "('p, 'm, 'j) send_error + send_outcome"

definition start_send :: "('p, 'm, 'j) control_cmd \<Rightarrow> ('p, 'm, 'j) send_fut" where
  "start_send cmd = \<lparr>fu_pending_cmd = Some cmd, fu_waiter_key = None, fu_deadline_sleep = None\<rparr>"

definition finished_send :: "('p, 'm, 'j) send_fut" where
  "finished_send = \<lparr>fu_pending_cmd = None, fu_waiter_key = None, fu_deadline_sleep = None\<rparr>"

definition release_waiter ::
  "waiter_key option \<Rightarrow> ('p, 'm, 'j) ctl_state \<Rightarrow> ('p, 'm, 'j) ctl_state option" where
  \<comment> \<open>\<^verbatim>\<open>if let Some(waiter_key) = this.waiter_key.take() { unregister_sender_waiter(waiter_key) }\<close>\<close>
  "release_waiter ko st = (case ko of None \<Rightarrow> Some st | Some k \<Rightarrow> unregister_waiter k st)"

definition drop_send :: "('p, 'm, 'j) send_fut \<Rightarrow> ('p, 'm, 'j) ctl_state \<Rightarrow> ('p, 'm, 'j) ctl_state option" where
  "drop_send fut st = release_waiter (fu_waiter_key fut) st"

definition poll_round ::
  "instant \<Rightarrow> (instant \<Rightarrow> bool) \<Rightarrow> task \<Rightarrow> ('p, 'm, 'j) send_fut \<Rightarrow> ('p, 'm, 'j) ctl_state \<Rightarrow>
     (('p, 'm, 'j) send_poll option \<times> notice list \<times> ('p, 'm, 'j) send_fut \<times> ('p, 'm, 'j) ctl_state) option" where
  \<comment> \<open>one round of the loop of \<^verbatim>\<open>SendFuture::poll\<close>; no poll result means \<^verbatim>\<open>continue\<close>\<close>
  "poll_round now elapsed t fut st =
     do {
       cmd \<leftarrow> fu_pending_cmd fut;
       (case sender_try_send now cmd st of
          (Inr outcome, ns, st1) \<Rightarrow>
            do { st2 \<leftarrow> release_waiter (fu_waiter_key fut) st1;
                 Some (Some (SendReady (Inr outcome)), ns, finished_send, st2) }
        | (Inl (TrySendClosed cmd'), ns, st1) \<Rightarrow>
            do { st2 \<leftarrow> release_waiter (fu_waiter_key fut) st1;
                 Some (Some (SendReady (Inl (Control_Types.SendClosed cmd'))), ns, finished_send, st2) }
        | (Inl (TrySendFull adm cmd'), ns, st1) \<Rightarrow>
            let (ko, st2) = register_waiter (fu_waiter_key fut) t st1
            in case next_deadline (cc_inner st2) of
                 None \<Rightarrow>
                   Some (Some SendPending, ns,
                     \<lparr>fu_pending_cmd = Some cmd', fu_waiter_key = ko, fu_deadline_sleep = None\<rparr>, st2)
               | Some deadline \<Rightarrow>
                   if elapsed deadline then
                     do { st3 \<leftarrow> release_waiter ko st2;
                          Some (None, ns,
                            \<lparr>fu_pending_cmd = Some cmd', fu_waiter_key = None, fu_deadline_sleep = None\<rparr>, st3) }
                   else
                     Some (Some SendPending, ns,
                       \<lparr>fu_pending_cmd = Some cmd', fu_waiter_key = ko, fu_deadline_sleep = Some deadline\<rparr>, st2))
     }"

text \<open>
  The rounds of one poll. The list holds what the clock and the timer say in each round; a poll
  that needs more rounds than it has entries is \<^term>\<open>None\<close> as well.
\<close>

fun poll_send_fut ::
  "(instant \<times> (instant \<Rightarrow> bool)) list \<Rightarrow> task \<Rightarrow> ('p, 'm, 'j) send_fut \<Rightarrow> ('p, 'm, 'j) ctl_state \<Rightarrow>
     (('p, 'm, 'j) send_poll \<times> notice list \<times> ('p, 'm, 'j) send_fut \<times> ('p, 'm, 'j) ctl_state) option" where
  "poll_send_fut [] t fut st = None"
| "poll_send_fut ((now, elapsed) # rounds) t fut st =
     do {
       (r, ns, fut1, st1) \<leftarrow> poll_round now elapsed t fut st;
       (case r of
          Some p \<Rightarrow> Some (p, ns, fut1, st1)
        | None \<Rightarrow> map_option (\<lambda>(p, ns', rest). (p, ns @ ns', rest)) (poll_send_fut rounds t fut1 st1))
     }"

subsection \<open>The receiver\<close>

definition drop_ctl_receiver :: "('p, 'm, 'j) ctl_state \<Rightarrow> (notice list \<times> ('p, 'm, 'j) ctl_state) option" where
  "drop_ctl_receiver st =
     (let (closed, i) = close (cc_inner st); st1 = st\<lparr>cc_inner := i\<rparr>
      in if closed then map_option (\<lambda>(ns, st2). (ns @ [Notify_Waiters], st2)) (wake_all_waiters st1)
         else Some ([], st1))"

fun notify_after_pop ::
  "('p, 'm, 'j) core_control_event \<Rightarrow> ('p, 'm, 'j) ctl_state \<Rightarrow> (notice list \<times> ('p, 'm, 'j) ctl_state) option" where
  "notify_after_pop (CompletionBatch batch) st = wake_completion_waiters (length batch) st"
| "notify_after_pop (Shutdown msg) st =
     map_option (\<lambda>(ns, st2). (ns @ [Notify_Waiters], st2)) (wake_all_waiters st)"
| "notify_after_pop _ st = Some ([], st)"

definition try_recv_internal ::
  "instant \<Rightarrow> ('p, 'm, 'j) ctl_state \<Rightarrow>
     (('p, 'm, 'j) core_control_event option \<times> notice list \<times> ('p, 'm, 'j) ctl_state) option" where
  "try_recv_internal now st =
     (let (ev, i) = pop_event now (cc_inner st); st1 = st\<lparr>cc_inner := i\<rparr>
      in case ev of
           None \<Rightarrow> Some (None, [], st1)
         | Some e \<Rightarrow> map_option (\<lambda>(ns, st2). (Some e, ns, st2)) (notify_after_pop e st1))"

datatype ('p, 'm, 'j) recv_poll =
    Recv_Event "('p, 'm, 'j) core_control_event"
  | Recv_Closed
  | Recv_Waits "instant option"

definition recv_round ::
  "instant \<Rightarrow> ('p, 'm, 'j) ctl_state \<Rightarrow> (('p, 'm, 'j) recv_poll \<times> notice list \<times> ('p, 'm, 'j) ctl_state) option" where
  \<comment> \<open>one round of the loop of \<^verbatim>\<open>recv_internal\<close>, up to where it waits for a notification or the
    deadline; nothing runs between the two readings of the version, so they agree\<close>
  "recv_round now st =
     (let (ev, i) = pop_event now (cc_inner st); st1 = st\<lparr>cc_inner := i\<rparr>
      in case ev of
           Some e \<Rightarrow> map_option (\<lambda>(ns, st2). (Recv_Event e, ns, st2)) (notify_after_pop e st1)
         | None \<Rightarrow> if ci_closed i then Some (Recv_Closed, [], st1)
                   else Some (Recv_Waits (next_deadline i), [], st1))"

definition receiver_try_recv ::
  "instant \<Rightarrow> ('p, 'm, 'j) ctl_state \<Rightarrow>
     (('p, 'm, 'j) receiver_control_event option \<times> notice list \<times> ('p, 'm, 'j) ctl_state) option" where
  "receiver_try_recv now st =
     map_option (\<lambda>(ev, rest). (map_option receiver_from_core ev, rest)) (try_recv_internal now st)"

definition node_try_recv ::
  "instant \<Rightarrow> ('p, 'm, 'j) ctl_state \<Rightarrow>
     (('p, 'm, 'j) node_control_event option \<times> notice list \<times> ('p, 'm, 'j) ctl_state) option" where
  "node_try_recv now st =
     do {
       (ev, rest) \<leftarrow> try_recv_internal now st;
       (case ev of None \<Rightarrow> Some (None, rest) | Some e \<Rightarrow> map_option (\<lambda>x. (Some x, rest)) (node_from_core e))
     }"

end
