(* ===== verification/Control_Channel_Laws.thy ===== *)
theory Control_Channel_Laws
  imports Control_Channel
begin

section \<open>Laws of the control channel\<close>

text \<open>
  Histories of calls on the control channel, with any number of sends waiting at once: what its
  waiting and waking does, the invariant that relates the parked senders to the free slots of the
  core, and the properties that senders and the receiver rely on.
\<close>

subsection \<open>What the operations do to the waiters\<close>

definition waiters_in :: "('p, 'm, 'j) ctl_state \<Rightarrow> ctl_waiters" where
  "waiters_in st = (case cc_sender_waiters st of None \<Rightarrow> ctl_waiters_new | Some w \<Rightarrow> w)"

abbreviation "parked_in st \<equiv> ctl_regd (waiters_in st)"
abbreviation "queued_in st \<equiv> ctl_waiting (waiters_in st)"

definition woken_in :: "('p, 'm, 'j) ctl_state \<Rightarrow> waiter_key set" where
  \<comment> \<open>the parked senders that were woken and not polled since\<close>
  "woken_in st = parked_in st - queued_in st"

definition rest_same :: "('p, 'm, 'j) ctl_state \<Rightarrow> ('p, 'm, 'j) ctl_state \<Rightarrow> bool" where
  "rest_same st st' \<longleftrightarrow> cc_inner st' = cc_inner st \<and> cc_sender_count st' = cc_sender_count st"

lemma rest_same_refl [simp]: "rest_same st st"
  by (simp add: rest_same_def)

lemma waiters_in_simps [simp]:
  "waiters_in (st\<lparr>cc_inner := i\<rparr>) = waiters_in st" "waiters_in (st\<lparr>cc_sender_count := n\<rparr>) = waiters_in st"
  "waiters_in (st\<lparr>cc_sender_waiters := Some w\<rparr>) = w"
  by (simp_all add: waiters_in_def)

lemma waiters_in_None: "cc_sender_waiters st = None \<Longrightarrow> parked_in st = {} \<and> queued_in st = {}"
  using cw.empty by (simp add: waiters_in_def)

lemma finite_parked: "ctl_ok (waiters_in st) \<Longrightarrow> finite (parked_in st)"
  by (rule cw.finite_regd)

lemma queued_parked: "ctl_ok (waiters_in st) \<Longrightarrow> queued_in st \<subseteq> parked_in st"
  by (rule cw.waiting_regd)

lemma register_waiter_law:
  assumes ok: "ctl_ok (waiters_in st)" and "\<And>k. ko = Some k \<Longrightarrow> k \<in> parked_in st" "ko = None \<Longrightarrow> ctl_room (waiters_in st)"
    and r: "register_waiter ko t st = (ko', st')"
  obtains k where "ko' = Some k" "case ko of None \<Rightarrow> k \<notin> parked_in st | Some j \<Rightarrow> k = j" "ctl_ok (waiters_in st')"
    "rest_same st st'" "parked_in st' = insert k (parked_in st)" "queued_in st' = insert k (queued_in st)"
proof -
  obtain w' where w': "ctl_register_or_refresh ko t (waiters_in st) = (ko', w')" "st' = st\<lparr>cc_sender_waiters := Some w'\<rparr>"
    using r by (auto simp: register_waiter_def waiters_in_def Let_def split: prod.splits option.splits)
  have same: "rest_same st st'" by (simp add: w'(2) rest_same_def)
  have ok': "ctl_ok w'" by (rule ctl_register_law(1) [OF ok assms(2,3) w'(1)])
  show thesis
  proof (cases ko)
    case None
    obtain k where "ko' = Some k" "k \<notin> parked_in st" "ctl_regd w' = insert k (parked_in st)" "ctl_waiting w' = insert k (queued_in st)"
      using cw.enter_None [OF ok assms(3) [OF None] w'(1) [unfolded None]] by blast
    then show thesis by (intro that [of k]) (use None same ok' w'(2) in simp_all)
  next
    case (Some j)
    then have "ko' = Some j \<and> ctl_ok w' \<and> ctl_regd w' = parked_in st \<and> ctl_waiting w' = insert j (queued_in st)"
      using cw.refresh [OF ok assms(2) [OF Some] w'(1) [unfolded Some]] ok' by blast
    then show thesis by (intro that [of j]) (use Some same w'(2) assms(2) [OF Some] in \<open>simp_all add: insert_absorb\<close>)
  qed
qed

lemma release_waiter_law:
  assumes ok: "ctl_ok (waiters_in st)"
  obtains st' where "release_waiter ko st = Some st'" "ctl_ok (waiters_in st')" "rest_same st st'"
    "parked_in st' = parked_in st - set_option ko" "queued_in st' = queued_in st - set_option ko"
proof (cases ko)
  case None
  then show thesis using that [of st] ok by (simp add: release_waiter_def)
next
  case (Some k)
  show thesis
  proof (cases "cc_sender_waiters st")
    case None
    then show thesis using that [of st] ok waiters_in_None [OF None] Some by (simp add: release_waiter_def unregister_waiter_def)
  next
    case (Some w)
    then have w: "waiters_in st = w" by (simp add: waiters_in_def)
    obtain w' where "ctl_unregister k w = Some w'" "ctl_ok w'" "ctl_regd w' = ctl_regd w - {k}" "ctl_waiting w' = ctl_waiting w - {k}"
      by (rule ctl_unregister_law [OF ok [unfolded w], of k])
    then show thesis using that [of "st\<lparr>cc_sender_waiters := Some w'\<rparr>"] \<open>ko = Some k\<close> Some w
      by (simp add: release_waiter_def unregister_waiter_def rest_same_def)
  qed
qed

lemma wake_completion_law:
  assumes ok: "ctl_ok (waiters_in st)"
  obtains ns st' where "wake_completion_waiters n st = Some (ns, st')" "ctl_ok (waiters_in st')" "rest_same st st'"
    "parked_in st' = parked_in st" "queued_in st' \<subseteq> queued_in st"
    "queued_in st' \<noteq> {} \<Longrightarrow> card (woken_in st') = card (woken_in st) + n"
    "set ns \<subseteq> range Wake"
proof (cases "n = 0 \<or> cc_sender_waiters st = None")
  case True
  then show thesis using that [of "[]" st] ok waiters_in_None [of st] by (auto simp: wake_completion_waiters_def)
next
  case False
  then obtain w where w: "cc_sender_waiters st = Some w" "waiters_in st = w" by (auto simp: waiters_in_def)
  obtain ts w' where n: "ctl_wake_n n w = Some (ts, w')" using ctl_total(3) [of w n] ok w(2) by auto
  have ok': "ctl_ok w' \<and> ctl_regd w' = ctl_regd w" using cw.wake_n [of w n ts w'] ok n w(2) by simp
  have sub: "ctl_waiting w' \<subseteq> ctl_waiting w" by (rule cw.wake_n_waiting [of w n ts]) (use ok n w(2) in simp_all)
  have woken: "ctl_waiting w' \<noteq> {} \<Longrightarrow> card (ctl_regd w' - ctl_waiting w') = card (ctl_regd w - ctl_waiting w) + n"
    by (rule cw.wake_n_woken [of w n ts]) (use ok n w(2) in simp_all)
  show thesis using that [of "map Wake ts" "st\<lparr>cc_sender_waiters := Some w'\<rparr>"] False w n ok' sub woken
    by (auto simp: wake_completion_waiters_def rest_same_def woken_in_def)
qed

lemma wake_all_waiters_law:
  assumes ok: "ctl_ok (waiters_in st)"
  obtains ns st' where "wake_all_waiters st = Some (ns, st')" "ctl_ok (waiters_in st')" "rest_same st st'"
    "parked_in st' = parked_in st" "queued_in st' = {}" "set ns \<subseteq> range Wake"
proof (cases "cc_sender_waiters st")
  case None
  then show thesis using that [of "[]" st] ok waiters_in_None [of st] by (auto simp: wake_all_waiters_def)
next
  case (Some w)
  then have w: "waiters_in st = w" by (simp add: waiters_in_def)
  obtain ts w' where n: "ctl_wake_all w = Some (ts, w')" using ctl_total(2) [of w] ok w by auto
  have "ctl_ok w' \<and> ctl_regd w' = ctl_regd w \<and> ctl_waiting w' = {}" using cw.wake_all [of w ts w'] ok n w by simp
  then show thesis using that [of "map Wake ts" "st\<lparr>cc_sender_waiters := Some w'\<rparr>"] Some w n
    by (auto simp: wake_all_waiters_def rest_same_def)
qed

subsection \<open>What the operations need to know of the core\<close>

fun is_completion :: "('p, 'm, 'j) control_cmd \<Rightarrow> bool" where
  "is_completion (CmdAck a) = True"
| "is_completion (CmdNack a) = True"
| "is_completion _ = False"

definition open_for_sends :: "('p, 'm, 'j) inner \<Rightarrow> bool" where
  "open_for_sends s \<longleftrightarrow> \<not> ci_closed s \<and> \<not> shutdown_forced s"

definition free_slots :: "('p, 'm, 'j) inner \<Rightarrow> nat" where
  "free_slots s = completion_msg_capacity (ci_config s) - length (completion s)"

lemma refresh_open: "\<not> shutdown_forced (refresh_shutdown_force now s) \<Longrightarrow> refresh_shutdown_force now s = s"
  by (auto simp: refresh_shutdown_force_def bump_version_def split: option.splits if_splits)

lemma try_send_cases:
  obtains (ok) o' s' where "try_send now cmd s = (Inr o', s')" "open_for_sends s" "open_for_sends s'" "next_deadline s' = next_deadline s"
      "free_slots s' + of_bool (is_completion cmd) = free_slots s"
      "ci_closed s' = ci_closed s"
  | (full) adm where "try_send now cmd s = (Inl (TrySendFull adm cmd), s)" "open_for_sends s" "is_completion cmd" "free_slots s = 0"
  | (closed) s' where "try_send now cmd s = (Inl (TrySendClosed cmd), s')" "\<not> open_for_sends s'" "ci_closed s' = ci_closed s"
proof (cases "ci_closed s \<or> shutdown_forced (refresh_shutdown_force now s)")
  case True
  then have "try_send now cmd s = (Inl (TrySendClosed cmd), refresh_shutdown_force now s)"
    unfolding try_send_def refresh_guard Let_def by simp
  then show thesis by (rule closed) (use True in \<open>auto simp: open_for_sends_def\<close>)
next
  case False
  then have r: "refresh_shutdown_force now s = s" using refresh_open by blast
  then have t: "try_send now cmd s = try_send_admitted cmd s" unfolding try_send_def refresh_guard Let_def using False by simp
  have op: "open_for_sends s" using False r by (simp add: open_for_sends_def)
  show thesis
  proof (cases "is_completion cmd \<and> completion_msg_capacity (ci_config s) \<le> length (completion s)")
    case True
    then have "try_send now cmd s = (Inl (TrySendFull Backpressured cmd), s)" unfolding t by (cases cmd) simp_all
    then show thesis by (rule full) (use op True in \<open>simp_all add: free_slots_def\<close>)
  next
    case notfull: False
    have "\<exists>o' s'. try_send_admitted cmd s = (Inr o', s')"
      using notfull by (cases cmd) (simp_all add: map_prod_def split: prod.split)
    then obtain o' s' where a: "try_send_admitted cmd s = (Inr o', s')" by blast
    have "open_for_sends s' \<and> next_deadline s' = next_deadline s \<and> ci_closed s' = ci_closed s \<and>
      free_slots s' + of_bool (is_completion cmd) = free_slots s"
      using a op notfull
      by (cases cmd) (auto simp: admission_defs open_for_sends_def next_deadline_def free_slots_def split: if_splits)
    then show thesis by (intro ok [OF t [unfolded a] op]) simp_all
  qed
qed

definition calm :: "('p, 'm, 'j) inner \<Rightarrow> ('p, 'm, 'j) inner \<Rightarrow> bool" where
  \<comment> \<open>a change of the core that gives no parked sender a reason to wake up\<close>
  "calm s s' \<longleftrightarrow> ci_closed s' = ci_closed s \<and> free_slots s' \<le> free_slots s \<and> (open_for_sends s' \<longrightarrow> open_for_sends s) \<and>
     next_deadline s' \<in> {None, next_deadline s}"

lemma calm_refl [simp]: "calm s s"
  by (simp add: calm_def)

lemma calm_refresh: "calm s (refresh_shutdown_force now s)"
  using refresh_open [of now s] by (auto simp: calm_def free_slots_def open_for_sends_def next_deadline_def)

lemma calm_trans: "calm s t \<Longrightarrow> calm t u \<Longrightarrow> calm s u"
  by (auto simp: calm_def)

lemma try_send_closed_calm: "try_send now cmd s = (Inl (TrySendClosed cmd'), s') \<Longrightarrow> calm s s'"
  using calm_refresh [of s now]
  by (cases cmd) (auto simp: try_send_def Let_def admission_defs split: if_splits)

lemma drain_calm: "calm s (snd (record_drain_ingress now msg s))"
  by (rule calm_trans [OF calm_refresh [of s now]])
    (simp add: record_drain_ingress_def Let_def calm_def free_slots_def open_for_sends_def next_deadline_def clear_normal_pending_def
      bump_version_def)

lemma shutdown_effect:
  "record_shutdown now msg s = (r, s') \<Longrightarrow>
     ci_closed s' = ci_closed s \<and> free_slots s' = free_slots s \<and> (open_for_sends s' \<longrightarrow> open_for_sends s) \<and> (r = LcAccepted \<or> s' = s)"
  by (auto simp: record_shutdown_def Let_def open_for_sends_def free_slots_def clear_normal_pending_def refresh_forced split: if_splits)

lemma close_effect: "close s = (b, s') \<Longrightarrow> ci_closed s' \<and> (b \<or> s' = s \<and> ci_closed s)"
  by (auto simp: close_def split: if_splits)

lemma normal_loop_calm: "calm s (snd (take_next_normal_loop n s))"
proof (induction n arbitrary: s)
  case (Suc n)
  let ?c = "next_normal_event s"
  obtain ev s1 where e: "take_class ?c (s\<lparr>next_normal_event := next_class ?c\<rparr>) = (ev, s1)" by force
  then have 1: "calm s s1"
    by (cases ?c) (auto simp: calm_def free_slots_def open_for_sends_def next_deadline_def split: if_splits)
  have 2: "calm s1 (bump_version (s1\<lparr>completion_burst_len := 0\<rparr>))"
    by (simp add: calm_def free_slots_def open_for_sends_def next_deadline_def bump_version_def)
  show ?case using calm_trans [OF 1 2] calm_trans [OF 1 Suc.IH] by (simp add: Let_def e split: option.split)
qed simp

lemma pop_event_cases:
  assumes inv: "core_inv s"
  obtains (batch) b s' where "pop_event now s = (Some (CompletionBatch b), s')" "ci_closed s' = ci_closed s"
      "free_slots s' = free_slots s + length b" "next_deadline s' = next_deadline s" "open_for_sends s' \<Longrightarrow> open_for_sends s"
  | (fin) m s' where "pop_event now s = (Some (Shutdown m), s')" "ci_closed s'"
  | (other) ev s' where "pop_event now s = (ev, s')" "calm s s'" "\<And>b. ev \<noteq> Some (CompletionBatch b)" "\<And>m. ev \<noteq> Some (Shutdown m)"
proof (rule pop_event_form [of s now])
  fix m assume d: "drain_ingress s = Some m" and p: "pop_event now s = (Some (DrainIngress m),
         bump_version ((refresh_shutdown_force now s)\<lparr>drain_ingress := None, completion_burst_len := 0\<rparr>))"
  have "calm (refresh_shutdown_force now s) (bump_version ((refresh_shutdown_force now s)\<lparr>drain_ingress := None, completion_burst_len := 0\<rparr>))"
    by (simp add: calm_def free_slots_def open_for_sends_def next_deadline_def bump_version_def)
  then show thesis using other [OF p] calm_trans [OF calm_refresh] by blast
next
  fix b assume c: "completion s \<noteq> []" "ci_phase s = PhShutdownRecorded \<longrightarrow> \<not> shutdown_forced (refresh_shutdown_force now s)"
    and p: "pop_event now s = map_prod Some id (take_completion_batch b (refresh_shutdown_force now s))"
  have r: "refresh_shutdown_force now s = s" using c(2) refresh_open refresh_normal by blast
  let ?n = "batch_len b s" and ?s = "snd (take_completion_batch b s)"
  have "pop_event now s = (Some (CompletionBatch (take ?n (completion s))), ?s)"
    unfolding p r by (simp add: take_completion_batch_def Let_def)
  then show thesis
  proof (rule batch)
    show "free_slots ?s = free_slots s + length (take ?n (completion s))"
      using inv by (simp add: core_inv_def take_completion_batch_def Let_def free_slots_def bump_version_def)
  qed (simp_all add: take_completion_batch_def Let_def next_deadline_def open_for_sends_def bump_version_def)
next
  fix f assume f: "ci_phase s = PhShutdownRecorded" "f = shutdown_forced (refresh_shutdown_force now s)"
    and p: "pop_event now s = finalize_shutdown f (refresh_shutdown_force now s)"
  show thesis
  proof (cases "shutdown s")
    case None
    then have "pop_event now s = (None, refresh_shutdown_force now s)" unfolding p by (simp add: finalize_shutdown_def)
    then show thesis by (rule other) (simp_all add: calm_refresh)
  next
    case (Some m)
    then obtain s' where "pop_event now s = (Some (Shutdown m), s')" "ci_closed s'"
      unfolding p by (simp add: finalize_shutdown_def Let_def bump_version_def)
    then show thesis by (rule fin)
  qed
next
  assume p: "pop_event now s = take_next_normal_event s"
  obtain ev s' where e: "take_next_normal_event s = (ev, s')" by force
  have "calm s s'" using normal_loop_calm [of s 3] e by (simp add: take_next_normal_event_def)
  moreover have "ev \<noteq> Some (CompletionBatch b)" "ev \<noteq> Some (Shutdown m)" for b m
    using normal_loop_event [of 3 s] e by (auto simp: take_next_normal_event_def)
  ultimately show thesis using other [OF p [unfolded e]] by blast
next
  assume p: "pop_event now s = (None, s)"
  then show thesis by (rule other) simp_all
qed

subsection \<open>Polling a send\<close>

text \<open>
  What a poll relies on of the timer: there are entries for two rounds, and a sleep is over only
  when its deadline is not after the instant that the next round reads.
\<close>

definition timers_ok :: "(instant \<times> (instant \<Rightarrow> bool)) list \<Rightarrow> bool" where
  "timers_ok rounds \<longleftrightarrow> 2 \<le> length rounds \<and> (\<forall>d. snd (rounds ! 0) d \<longrightarrow> d \<le> fst (rounds ! 1))"

lemma sender_try_send_eq: "try_send now cmd (cc_inner st) = (r, i) \<Longrightarrow>
    sender_try_send now cmd st = (r, if r = Inr Accepted \<or> r = Inr Replaced then [Notify_One] else [], st\<lparr>cc_inner := i\<rparr>)"
  by (simp add: sender_try_send_def)

lemma poll_round_closed:
  assumes ok: "ctl_ok (waiters_in st)" and cmd: "fu_pending_cmd fut = Some cmd"
    and t: "try_send now cmd (cc_inner st) = (Inl (TrySendClosed cmd), i)"
  obtains st' where "poll_round now elapsed t' fut st = Some (Some (SendReady (Inl (SendClosed cmd))), [], finished_send, st')"
    "ctl_ok (waiters_in st')" "cc_inner st' = i" "cc_sender_count st' = cc_sender_count st"
    "parked_in st' = parked_in st - set_option (fu_waiter_key fut)" "queued_in st' = queued_in st - set_option (fu_waiter_key fut)"
proof -
  have s: "sender_try_send now cmd st = (Inl (TrySendClosed cmd), [], st\<lparr>cc_inner := i\<rparr>)" using sender_try_send_eq [OF t] by auto
  have ok1: "ctl_ok (waiters_in (st\<lparr>cc_inner := i\<rparr>))" using ok by simp
  obtain st' where r: "release_waiter (fu_waiter_key fut) (st\<lparr>cc_inner := i\<rparr>) = Some st'" "ctl_ok (waiters_in st')" "rest_same (st\<lparr>cc_inner := i\<rparr>) st'"
    "parked_in st' = parked_in (st\<lparr>cc_inner := i\<rparr>) - set_option (fu_waiter_key fut)"
    "queued_in st' = queued_in (st\<lparr>cc_inner := i\<rparr>) - set_option (fu_waiter_key fut)"
    by (rule release_waiter_law [OF ok1])
  show thesis by (rule that [of st']) (use r in \<open>simp_all add: poll_round_def cmd s rest_same_def\<close>)
qed

lemma forced_closes:
  assumes "next_deadline s = Some d" "d \<le> now"
  shows "\<exists>s'. try_send now cmd s = (Inl (TrySendClosed cmd), s') \<and> \<not> open_for_sends s'"
proof -
  have "shutdown_forced (refresh_shutdown_force now s)"
    using assms by (auto simp: next_deadline_def refresh_shutdown_force_def split: if_splits)
  then show ?thesis unfolding try_send_def refresh_guard Let_def by (auto simp: open_for_sends_def)
qed

lemma poll_fut_cases:
  assumes ok: "ctl_ok (waiters_in st)" and key: "set_option (fu_waiter_key fut) \<subseteq> parked_in st"
    and room: "ctl_room (waiters_in st)" and cmd: "fu_pending_cmd fut = Some cmd"
    and timers: "timers_ok rounds"
  obtains
    (sent) now outcome st' where "poll_send_fut rounds t fut st =
        Some (SendReady (Inr outcome), if outcome = Accepted \<or> outcome = Replaced then [Notify_One] else [], finished_send, st')"
      "ctl_ok (waiters_in st')" "try_send now cmd (cc_inner st) = (Inr outcome, cc_inner st')" "cc_sender_count st' = cc_sender_count st"
      "parked_in st' = parked_in st - set_option (fu_waiter_key fut)" "queued_in st' = queued_in st - set_option (fu_waiter_key fut)"
  | (closed) now st' where "poll_send_fut rounds t fut st = Some (SendReady (Inl (SendClosed cmd)), [], finished_send, st')"
      "ctl_ok (waiters_in st')" "try_send now cmd (cc_inner st) = (Inl (TrySendClosed cmd), cc_inner st')" "cc_sender_count st' = cc_sender_count st"
      "parked_in st' = parked_in st - set_option (fu_waiter_key fut)" "queued_in st' = queued_in st - set_option (fu_waiter_key fut)"
  | (waits) k st' where "poll_send_fut rounds t fut st = Some (SendPending, [],
        \<lparr>fu_pending_cmd = Some cmd, fu_waiter_key = Some k, fu_deadline_sleep = next_deadline (cc_inner st)\<rparr>, st')"
      "ctl_ok (waiters_in st')" "rest_same st st'" "case fu_waiter_key fut of None \<Rightarrow> k \<notin> parked_in st | Some j \<Rightarrow> k = j"
      "parked_in st' = insert k (parked_in st)" "queued_in st' = insert k (queued_in st)"
      "is_completion cmd" "free_slots (cc_inner st) = 0" "open_for_sends (cc_inner st)"
proof -
  obtain now el now2 el2 rest where rounds: "rounds = (now, el) # (now2, el2) # rest" and el: "\<And>d. el d \<Longrightarrow> d \<le> now2"
    using timers by (cases rounds; cases "tl rounds") (auto simp: timers_ok_def)
  show thesis
  proof (cases rule: try_send_cases [of now cmd "cc_inner st"])
    case (ok outcome i)
    note s = sender_try_send_eq [OF ok(1)]
    have ok1: "ctl_ok (waiters_in (st\<lparr>cc_inner := i\<rparr>))" using assms(1) by simp
    obtain st' where r: "release_waiter (fu_waiter_key fut) (st\<lparr>cc_inner := i\<rparr>) = Some st'" "ctl_ok (waiters_in st')" "rest_same (st\<lparr>cc_inner := i\<rparr>) st'"
      "parked_in st' = parked_in (st\<lparr>cc_inner := i\<rparr>) - set_option (fu_waiter_key fut)"
      "queued_in st' = queued_in (st\<lparr>cc_inner := i\<rparr>) - set_option (fu_waiter_key fut)"
      by (rule release_waiter_law [OF ok1])
    show thesis by (rule sent [of outcome st' now]) (use r ok(1) in \<open>simp_all add: rounds poll_round_def cmd s rest_same_def\<close>)
  next
    case (closed i)
    obtain st' where r: "poll_round now el t fut st = Some (Some (SendReady (Inl (SendClosed cmd))), [], finished_send, st')"
      "ctl_ok (waiters_in st')" "cc_inner st' = i" "cc_sender_count st' = cc_sender_count st"
      "parked_in st' = parked_in st - set_option (fu_waiter_key fut)" "queued_in st' = queued_in st - set_option (fu_waiter_key fut)"
      by (rule poll_round_closed [OF assms(1) cmd closed(1)])
    show thesis by (rule that(2) [of st' now]) (use r closed(1) in \<open>simp_all add: rounds\<close>)
  next
    case (full adm)
    have s: "sender_try_send now cmd st = (Inl (TrySendFull adm cmd), [], st)" using sender_try_send_eq [OF full(1)] by auto
    obtain ko st2 where reg: "register_waiter (fu_waiter_key fut) t st = (ko, st2)" by force
    obtain k where k: "ko = Some k" "case fu_waiter_key fut of None \<Rightarrow> k \<notin> parked_in st | Some j \<Rightarrow> k = j"
      "ctl_ok (waiters_in st2)" "rest_same st st2" "parked_in st2 = insert k (parked_in st)" "queued_in st2 = insert k (queued_in st)"
      by (rule register_waiter_law [OF assms(1) _ room reg]) (use key in auto)
    have d2: "next_deadline (cc_inner st2) = next_deadline (cc_inner st)" using k(4) by (simp add: rest_same_def)
    show thesis
    proof (cases "\<exists>d. next_deadline (cc_inner st) = Some d \<and> el d")
      case False
      have "poll_round now el t fut st = Some (Some SendPending, [],
          \<lparr>fu_pending_cmd = Some cmd, fu_waiter_key = Some k, fu_deadline_sleep = next_deadline (cc_inner st)\<rparr>, st2)"
        using False by (auto simp: poll_round_def cmd s reg k(1) d2 split: option.split)
      then have "poll_send_fut rounds t fut st = Some (SendPending, [],
          \<lparr>fu_pending_cmd = Some cmd, fu_waiter_key = Some k, fu_deadline_sleep = next_deadline (cc_inner st)\<rparr>, st2)"
        by (simp add: rounds)
      then show thesis by (rule waits) (use k full in simp_all)
    next
      case True
      then obtain d where d: "next_deadline (cc_inner st) = Some d" "el d" by blast
      obtain st3 where r: "release_waiter (Some k) st2 = Some st3" "ctl_ok (waiters_in st3)" "rest_same st2 st3"
        "parked_in st3 = parked_in st2 - {k}" "queued_in st3 = queued_in st2 - {k}"
        using release_waiter_law [OF k(3), of "Some k"] by auto
      let ?f = "\<lparr>fu_pending_cmd = Some cmd, fu_waiter_key = None, fu_deadline_sleep = None\<rparr> :: ('a, 'b, 'c) send_fut"
      have 1: "poll_round now el t fut st = Some (None, [], ?f, st3)"
        using d r(1) by (simp add: poll_round_def cmd s reg k(1) d2)
      have i3: "cc_inner st3 = cc_inner st" "cc_sender_count st3 = cc_sender_count st" using k(4) r(3) by (simp_all add: rest_same_def)
      obtain i where i: "try_send now2 cmd (cc_inner st) = (Inl (TrySendClosed cmd), i)" using forced_closes [OF d(1) el [OF d(2)]] by blast
      obtain st' where 2: "poll_round now2 el2 t ?f st3 = Some (Some (SendReady (Inl (SendClosed cmd))), [], finished_send, st')"
        "ctl_ok (waiters_in st')" "cc_inner st' = i" "cc_sender_count st' = cc_sender_count st3"
        "parked_in st' = parked_in st3 - set_option (fu_waiter_key ?f)" "queued_in st' = queued_in st3 - set_option (fu_waiter_key ?f)"
        by (rule poll_round_closed [OF r(2) _ i [folded i3(1)], of ?f]) simp_all
      have sub: "queued_in st \<subseteq> parked_in st" by (rule queued_parked [OF assms(1)])
      have "insert k (parked_in st) - {k} = parked_in st - set_option (fu_waiter_key fut)"
        "insert k (queued_in st) - {k} = queued_in st - set_option (fu_waiter_key fut)"
        using k(2) sub by (cases "fu_waiter_key fut"; auto)+
      then show thesis by (intro that(2) [of st' now2]) (use 1 2 i i3 k r in \<open>simp_all add: rounds\<close>)
    qed
  qed
qed

subsection \<open>Histories\<close>

text \<open>
  The channel with its sends in flight, named by numbers, and whether the receiver exists. A send
  borrows its sender, so the last sender is not dropped while there are sends. Histories end before
  the generation counter of the waiters or the number of senders reaches its maximum.
\<close>

record ('p, 'm, 'j) ctl_system =
  sy_state :: "('p, 'm, 'j) ctl_state"
  sy_sends :: "nat \<Rightarrow> ('p, 'm, 'j) send_fut option"
  sy_receiver :: bool

datatype ('p, 'm, 'j) ctl_op =
    C_TrySend instant "('p, 'm, 'j) control_cmd"
  | C_Drain instant drain_ingress_msg
  | C_Shutdown instant shutdown_msg
  | C_Close
  | C_Clone
  | C_DropSender
  | C_DropReceiver
  | C_Send nat "('p, 'm, 'j) control_cmd"
  | C_Poll nat task "(instant \<times> (instant \<Rightarrow> bool)) list"
  | C_Cancel nat
  | C_Recv instant
  | C_TryRecv instant

definition with_state :: "('p, 'm, 'j) ctl_system \<Rightarrow> (notice list \<times> ('p, 'm, 'j) ctl_state) option \<Rightarrow>
    (notice list \<times> ('p, 'm, 'j) ctl_system) option" where
  "with_state s = map_option (\<lambda>(ns, st). (ns, s\<lparr>sy_state := st\<rparr>))"

fun exec_ctl :: "('p, 'm, 'j) ctl_op \<Rightarrow> ('p, 'm, 'j) ctl_system \<Rightarrow> (notice list \<times> ('p, 'm, 'j) ctl_system) option" where
  "exec_ctl (C_TrySend now cmd) s = with_state s (Some (snd (sender_try_send now cmd (sy_state s))))"
| "exec_ctl (C_Drain now msg) s = with_state s (Some (snd (accept_drain_ingress now msg (sy_state s))))"
| "exec_ctl (C_Shutdown now msg) s = with_state s (map_option snd (accept_shutdown now msg (sy_state s)))"
| "exec_ctl C_Close s = with_state s (sender_close (sy_state s))"
| "exec_ctl C_Clone s = with_state s (Some ([], clone_ctl_sender (sy_state s)))"
| "exec_ctl C_DropSender s = with_state s (Some (drop_ctl_sender (sy_state s)))"
| "exec_ctl C_DropReceiver s = with_state (s\<lparr>sy_receiver := False\<rparr>) (drop_ctl_receiver (sy_state s))"
| "exec_ctl (C_Send n cmd) s = Some ([], s\<lparr>sy_sends := (sy_sends s)(n \<mapsto> start_send cmd)\<rparr>)"
| "exec_ctl (C_Poll n t rounds) s =
     (case sy_sends s n of
        None \<Rightarrow> Some ([], s)
      | Some fut \<Rightarrow>
          map_option (\<lambda>(p, ns, fut', st). (ns, s\<lparr>sy_state := st,
              sy_sends := (sy_sends s)(n := if p = SendPending then Some fut' else None)\<rparr>))
            (poll_send_fut rounds t fut (sy_state s)))"
| "exec_ctl (C_Cancel n) s =
     (case sy_sends s n of
        None \<Rightarrow> Some ([], s)
      | Some fut \<Rightarrow>
          map_option (\<lambda>st. ([], s\<lparr>sy_state := st, sy_sends := (sy_sends s)(n := None)\<rparr>)) (drop_send fut (sy_state s)))"
| "exec_ctl (C_Recv now) s = with_state s (map_option snd (recv_round now (sy_state s)))"
| "exec_ctl (C_TryRecv now) s = with_state s (map_option snd (try_recv_internal now (sy_state s)))"

fun ctl_enabled :: "('p, 'm, 'j) ctl_op \<Rightarrow> ('p, 'm, 'j) ctl_system \<Rightarrow> bool" where
  "ctl_enabled C_Clone s \<longleftrightarrow> 0 < cc_sender_count (sy_state s) \<and> cc_sender_count (sy_state s) < u64_max"
| "ctl_enabled C_DropSender s \<longleftrightarrow> 0 < cc_sender_count (sy_state s) \<and> (cc_sender_count (sy_state s) = 1 \<longrightarrow> sy_sends s = Map.empty)"
| "ctl_enabled C_DropReceiver s \<longleftrightarrow> sy_receiver s"
| "ctl_enabled (C_Send n cmd) s \<longleftrightarrow> 0 < cc_sender_count (sy_state s) \<and> sy_sends s n = None"
| "ctl_enabled (C_Poll n t rounds) s \<longleftrightarrow> sy_sends s n \<noteq> None \<and> ctl_room (waiters_in (sy_state s)) \<and> timers_ok rounds"
| "ctl_enabled (C_Cancel n) s \<longleftrightarrow> sy_sends s n \<noteq> None"
| "ctl_enabled (C_Recv now) s \<longleftrightarrow> sy_receiver s"
| "ctl_enabled (C_TryRecv now) s \<longleftrightarrow> sy_receiver s"
| "ctl_enabled op s \<longleftrightarrow> 0 < cc_sender_count (sy_state s)"

fun forfeits :: "('p, 'm, 'j) ctl_op \<Rightarrow> ('p, 'm, 'j) ctl_system \<Rightarrow> nat" where
  \<comment> \<open>wakeups that go to a send which is dropped before it is polled again\<close>
  "forfeits (C_Cancel n) s =
     (case sy_sends s n of Some fut \<Rightarrow> of_bool (set_option (fu_waiter_key fut) \<inter> woken_in (sy_state s) \<noteq> {}) | None \<Rightarrow> 0)"
| "forfeits op s = 0"

definition ctl_start :: "control_channel_config \<Rightarrow> ('p, 'm, 'j) ctl_system" where
  "ctl_start c = \<lparr>sy_state = \<lparr>cc_inner = new_inner c, cc_sender_count = 1, cc_sender_waiters = None\<rparr>,
     sy_sends = Map.empty, sy_receiver = True\<rparr>"

inductive ctl_reach :: "control_channel_config \<Rightarrow> nat \<Rightarrow> ('p, 'm, 'j) ctl_system \<Rightarrow> bool" for c where
  start: "ctl_reach c 0 (ctl_start c)"
| step: "ctl_reach c lost s \<Longrightarrow> ctl_enabled op s \<Longrightarrow> exec_ctl op s = Some (ns, s') \<Longrightarrow> ctl_reach c (lost + forfeits op s) s'"

subsection \<open>The invariant\<close>

definition sends_ok :: "('p, 'm, 'j) ctl_system \<Rightarrow> bool" where
  \<comment> \<open>the parked keys are the keys of the sends, one each, and a parked send holds a completion\<close>
  "sends_ok s \<longleftrightarrow>
     (\<forall>n fut. sy_sends s n = Some fut \<longrightarrow> (\<exists>cmd. fu_pending_cmd fut = Some cmd \<and> (fu_waiter_key fut \<noteq> None \<longrightarrow> is_completion cmd))) \<and>
     (\<forall>k. k \<in> parked_in (sy_state s) \<longleftrightarrow> (\<exists>n fut. sy_sends s n = Some fut \<and> fu_waiter_key fut = Some k)) \<and>
     (\<forall>n m fut fut' k. sy_sends s n = Some fut \<and> sy_sends s m = Some fut' \<and> fu_waiter_key fut = Some k \<and> fu_waiter_key fut' = Some k \<longrightarrow> n = m)"

definition served_ok :: "nat \<Rightarrow> ('p, 'm, 'j) ctl_state \<Rightarrow> bool" where
  \<comment> \<open>while someone is queued, every free slot has a woken sender, but for the forfeited wakeups\<close>
  "served_ok lost st \<longleftrightarrow>
     (queued_in st \<noteq> {} \<and> open_for_sends (cc_inner st) \<longrightarrow> free_slots (cc_inner st) \<le> card (woken_in st) + lost) \<and>
     (ci_closed (cc_inner st) \<longrightarrow> queued_in st = {})"

definition sleeps_ok :: "('p, 'm, 'j) ctl_system \<Rightarrow> bool" where
  \<comment> \<open>a queued send sleeps until the deadline that can force the shutdown\<close>
  "sleeps_ok s \<longleftrightarrow>
     (\<forall>n fut k d. sy_sends s n = Some fut \<and> fu_waiter_key fut = Some k \<and> k \<in> queued_in (sy_state s) \<and>
        next_deadline (cc_inner (sy_state s)) = Some d \<longrightarrow> fu_deadline_sleep fut = Some d)"

definition ctl_inv :: "nat \<Rightarrow> ('p, 'm, 'j) ctl_system \<Rightarrow> bool" where
  "ctl_inv lost s \<longleftrightarrow> core_inv (cc_inner (sy_state s)) \<and> ctl_ok (waiters_in (sy_state s)) \<and> sends_ok s \<and>
     served_ok lost (sy_state s) \<and> sleeps_ok s"

lemma ctl_inv_start: "config_wf c \<Longrightarrow> ctl_inv 0 (ctl_start c)"
  using core_inv_new [of c] ctl_ok_new cw.empty
  by (simp add: ctl_inv_def ctl_start_def sends_ok_def served_ok_def sleeps_ok_def waiters_in_def)

lemma sleeps_ok_sub:
  assumes "sleeps_ok s" "queued_in st \<subseteq> queued_in (sy_state s)" "next_deadline (cc_inner st) \<in> {None, next_deadline (cc_inner (sy_state s))}"
  shows "sleeps_ok (s\<lparr>sy_state := st\<rparr>)" "sleeps_ok (s\<lparr>sy_state := st, sy_sends := (sy_sends s)(n := None)\<rparr>)"
proof -
  have *: "fu_deadline_sleep fut = Some d" if "sy_sends s m = Some fut" "fu_waiter_key fut = Some k" "k \<in> queued_in st" "next_deadline (cc_inner st) = Some d" for m fut k d
  proof -
    have "next_deadline (cc_inner (sy_state s)) = Some d" using assms(3) that(4) by auto
    then show ?thesis using assms(1,2) that(1-3) unfolding sleeps_ok_def by blast
  qed
  show "sleeps_ok (s\<lparr>sy_state := st\<rparr>)" unfolding sleeps_ok_def using * by simp blast
  have "sy_sends s m = Some fut" if "((sy_sends s)(n := None)) m = Some fut" for m fut using that by (simp split: if_splits)
  then show "sleeps_ok (s\<lparr>sy_state := st, sy_sends := (sy_sends s)(n := None)\<rparr>)" unfolding sleeps_ok_def using * by simp blast
qed

text \<open>
  Changes of the channel that leave the sends alone: a calm change of the core keeps the invariant
  as it is; any change of the core does if everyone is woken.
\<close>

lemma ctl_inv_calm:
  assumes "ctl_inv lost s" "core_inv i" "calm (cc_inner (sy_state s)) i"
  shows "ctl_inv lost (s\<lparr>sy_state := (sy_state s)\<lparr>cc_inner := i\<rparr>\<rparr>)"
proof -
  let ?st = "(sy_state s)\<lparr>cc_inner := i\<rparr>"
  have "sleeps_ok (s\<lparr>sy_state := ?st\<rparr>)"
    by (rule sleeps_ok_sub) (use assms(1,3) in \<open>simp_all add: ctl_inv_def calm_def\<close>)
  moreover have "sends_ok (s\<lparr>sy_state := ?st\<rparr>)" using assms(1) by (simp add: ctl_inv_def sends_ok_def)
  moreover have "served_ok lost ?st" using assms(1,3) unfolding ctl_inv_def served_ok_def calm_def woken_in_def by auto
  ultimately show ?thesis using assms(1,2) by (simp add: ctl_inv_def)
qed

lemma ctl_inv_woken:
  assumes "ctl_inv lost s" "core_inv (cc_inner st)" "ctl_ok (waiters_in st)" "parked_in st = parked_in (sy_state s)" "queued_in st = {}"
  shows "ctl_inv lost (s\<lparr>sy_state := st\<rparr>)"
  using assms unfolding ctl_inv_def sends_ok_def served_ok_def sleeps_ok_def by simp

lemma sends_ok_remove:
  assumes "sends_ok s" "sy_sends s n = Some fut" "parked_in st = parked_in (sy_state s) - set_option (fu_waiter_key fut)"
  shows "sends_ok (s\<lparr>sy_state := st, sy_sends := (sy_sends s)(n := None)\<rparr>)"
proof -
  let ?s = "s\<lparr>sy_state := st, sy_sends := (sy_sends s)(n := None)\<rparr>"
  have old: "sy_sends ?s m = Some f \<longleftrightarrow> m \<noteq> n \<and> sy_sends s m = Some f" for m f by auto
  have one: "k \<in> parked_in (sy_state s) \<longleftrightarrow> (\<exists>m f. sy_sends s m = Some f \<and> fu_waiter_key f = Some k)" for k
    using assms(1) unfolding sends_ok_def by blast
  have uniq: "m = m'" if "sy_sends s m = Some f" "sy_sends s m' = Some f'" "fu_waiter_key f = Some k" "fu_waiter_key f' = Some k" for m m' f f' k
    using assms(1) that unfolding sends_ok_def by blast
  have "k \<in> parked_in st \<longleftrightarrow> (\<exists>m f. m \<noteq> n \<and> sy_sends s m = Some f \<and> fu_waiter_key f = Some k)" for k
  proof -
    have "k \<in> parked_in st \<longleftrightarrow> (\<exists>m f. sy_sends s m = Some f \<and> fu_waiter_key f = Some k) \<and> fu_waiter_key fut \<noteq> Some k"
      unfolding assms(3) using one [of k] by auto
    then show ?thesis using uniq [OF assms(2)] assms(2) by (metis option.inject)
  qed
  then show ?thesis using assms(1) uniq unfolding sends_ok_def old by simp blast
qed

lemma sends_ok_park:
  assumes "sends_ok s" "sy_sends s n = Some fut" "is_completion cmd" "parked_in st = insert k (parked_in (sy_state s))"
    and "case fu_waiter_key fut of None \<Rightarrow> k \<notin> parked_in (sy_state s) | Some j \<Rightarrow> k = j"
  shows "sends_ok (s\<lparr>sy_state := st, sy_sends := (sy_sends s)(n \<mapsto> \<lparr>fu_pending_cmd = Some cmd, fu_waiter_key = Some k, fu_deadline_sleep = d\<rparr>)\<rparr>)"
proof -
  let ?f = "\<lparr>fu_pending_cmd = Some cmd, fu_waiter_key = Some k, fu_deadline_sleep = d\<rparr>"
  let ?s = "s\<lparr>sy_state := st, sy_sends := (sy_sends s)(n \<mapsto> ?f)\<rparr>"
  have old: "sy_sends ?s m = Some f \<longleftrightarrow> (if m = n then f = ?f else sy_sends s m = Some f)" for m f by auto
  have one: "j \<in> parked_in (sy_state s) \<longleftrightarrow> (\<exists>m f. sy_sends s m = Some f \<and> fu_waiter_key f = Some j)" for j
    using assms(1) unfolding sends_ok_def by blast
  have uniq: "m = m'" if "sy_sends s m = Some f" "sy_sends s m' = Some f'" "fu_waiter_key f = Some j" "fu_waiter_key f' = Some j" for m m' f f' j
    using assms(1) that unfolding sends_ok_def by blast
  have other: "fu_waiter_key f \<noteq> Some k" if "sy_sends s m = Some f" "m \<noteq> n" for m f
  proof (cases "fu_waiter_key fut")
    case None
    then show ?thesis using assms(5) one [of k] that(1) by auto
  next
    case (Some j)
    then show ?thesis using assms(5) uniq [OF assms(2) that(1) Some] that(2) by auto
  qed
  have keys: "j \<in> parked_in st \<longleftrightarrow> (\<exists>m f. sy_sends ?s m = Some f \<and> fu_waiter_key f = Some j)" for j
  proof (cases "j = k")
    case True
    have "sy_sends ?s n = Some ?f \<and> fu_waiter_key ?f = Some k" by simp
    then show ?thesis unfolding assms(4) using True by blast
  next
    case False
    have "fu_waiter_key fut \<noteq> Some j" using assms(5) False by (cases "fu_waiter_key fut") auto
    then have "(\<exists>m f. sy_sends s m = Some f \<and> fu_waiter_key f = Some j) \<longleftrightarrow> (\<exists>m f. m \<noteq> n \<and> sy_sends s m = Some f \<and> fu_waiter_key f = Some j)"
      using assms(2) by (metis option.inject)
    moreover have "(\<exists>m f. sy_sends ?s m = Some f \<and> fu_waiter_key f = Some j) \<longleftrightarrow> (\<exists>m f. m \<noteq> n \<and> sy_sends s m = Some f \<and> fu_waiter_key f = Some j)"
      using False unfolding old by (metis option.inject send_fut.select_convs(2))
    ultimately show ?thesis unfolding assms(4) using False one [of j] by blast
  qed
  have cmds: "\<exists>c. fu_pending_cmd f = Some c \<and> (fu_waiter_key f \<noteq> None \<longrightarrow> is_completion c)" if "sy_sends ?s m = Some f" for m f
  proof (cases "m = n")
    case True
    then show ?thesis using that assms(3) by auto
  next
    case False
    then have "sy_sends s m = Some f" using that by simp
    then show ?thesis using assms(1) unfolding sends_ok_def by blast
  qed
  have "m = m'" if "sy_sends ?s m = Some f" "sy_sends ?s m' = Some f'" "fu_waiter_key f = Some j" "fu_waiter_key f' = Some j" for m m' f f' j
  proof (cases "m = n \<or> m' = n")
    case True
    then have "j = k" using that unfolding old by (auto split: if_splits)
    then show ?thesis using that other [of m f] other [of m' f'] True unfolding old by (auto split: if_splits)
  next
    case False
    then show ?thesis using that uniq [of m f m' f' j] unfolding old by simp
  qed
  then have "\<forall>m m' f f' j. sy_sends ?s m = Some f \<and> sy_sends ?s m' = Some f' \<and> fu_waiter_key f = Some j \<and> fu_waiter_key f' = Some j \<longrightarrow> m = m'" by blast
  moreover have "\<forall>j. j \<in> parked_in (sy_state ?s) \<longleftrightarrow> (\<exists>m f. sy_sends ?s m = Some f \<and> fu_waiter_key f = Some j)" using keys by simp
  moreover have "\<forall>m f. sy_sends ?s m = Some f \<longrightarrow> (\<exists>c. fu_pending_cmd f = Some c \<and> (fu_waiter_key f \<noteq> None \<longrightarrow> is_completion c))" using cmds by blast
  ultimately show ?thesis unfolding sends_ok_def by blast
qed

lemma sleeps_ok_park:
  assumes "sleeps_ok s" "queued_in st = insert k (queued_in (sy_state s))" "cc_inner st = cc_inner (sy_state s)"
    and "\<And>m f. sy_sends s m = Some f \<Longrightarrow> m \<noteq> n \<Longrightarrow> fu_waiter_key f \<noteq> Some k"
  shows "sleeps_ok (s\<lparr>sy_state := st, sy_sends := (sy_sends s)(n \<mapsto>
    \<lparr>fu_pending_cmd = Some cmd, fu_waiter_key = Some k, fu_deadline_sleep = next_deadline (cc_inner (sy_state s))\<rparr>)\<rparr>)"
  using assms unfolding sleeps_ok_def by (auto split: if_splits)

lemma served_ok_leave:
  assumes served: "served_ok lost st" and fin: "finite (parked_in st)"
    and st': "parked_in st' = parked_in st - set_option ko" "queued_in st' = queued_in st - set_option ko"
    and core: "ci_closed (cc_inner st') = ci_closed (cc_inner st)" "open_for_sends (cc_inner st') \<Longrightarrow> open_for_sends (cc_inner st)"
      "open_for_sends (cc_inner st') \<Longrightarrow> free_slots (cc_inner st') + gain \<le> free_slots (cc_inner st)" "gain + extra = 1 \<or> set_option ko \<inter> woken_in st = {}"
  shows "served_ok (lost + extra) st'"
proof -
  have w: "woken_in st' = woken_in st - set_option ko" unfolding woken_in_def st' by blast
  have fw: "finite (woken_in st)" using fin by (simp add: woken_in_def)
  have c: "card (woken_in st) \<le> card (woken_in st') + gain + extra"
  proof (cases "set_option ko \<inter> woken_in st = {}")
    case True
    then have "woken_in st' = woken_in st" unfolding w by blast
    then show ?thesis by simp
  next
    case False
    then obtain k where "ko = Some k" by auto
    then show ?thesis using card_Diff1_le [of "woken_in st" k] card_Suc_Diff1 [OF fw, of k] core(4) False unfolding w by (auto simp: fw)
  qed
  have "free_slots (cc_inner st') \<le> card (woken_in st') + (lost + extra)" if "queued_in st' \<noteq> {}" "open_for_sends (cc_inner st')"
  proof -
    have "queued_in st \<noteq> {}" using that(1) st'(2) by blast
    then have "free_slots (cc_inner st) \<le> card (woken_in st) + lost" using served core(2) [OF that(2)] unfolding served_ok_def by blast
    then show ?thesis using c core(3) [OF that(2)] by simp
  qed
  moreover have "queued_in st' = {}" if "ci_closed (cc_inner st')"
    using that served core(1) st'(2) unfolding served_ok_def by simp
  ultimately show ?thesis unfolding served_ok_def by blast
qed

lemma closed_waiters:
  assumes ok: "ctl_ok (waiters_in st)" and c: "close (cc_inner st) = (closed, i)"
  obtains (now) ns st' where "closed" "map_option (\<lambda>(ns, st2). (ns @ [Notify_Waiters], st2)) (wake_all_waiters (st\<lparr>cc_inner := i\<rparr>)) = Some (ns, st')"
      "ctl_ok (waiters_in st')" "cc_inner st' = i" "parked_in st' = parked_in st" "queued_in st' = {}"
  | (before) "\<not> closed" "st\<lparr>cc_inner := i\<rparr> = st"
proof (cases closed)
  case True
  have ok1: "ctl_ok (waiters_in (st\<lparr>cc_inner := i\<rparr>))" using ok by simp
  obtain ns st' where "wake_all_waiters (st\<lparr>cc_inner := i\<rparr>) = Some (ns, st')" "ctl_ok (waiters_in st')" "rest_same (st\<lparr>cc_inner := i\<rparr>) st'"
    "parked_in st' = parked_in (st\<lparr>cc_inner := i\<rparr>)" "queued_in st' = {}" by (rule wake_all_waiters_law [OF ok1])
  then show thesis by (intro now [of "ns @ [Notify_Waiters]" st']) (use True in \<open>simp_all add: rest_same_def\<close>)
next
  case False
  then have "i = cc_inner st" using close_effect [OF c] by simp
  then show thesis using before False by simp
qed

lemma ctl_step_close:
  assumes "ctl_inv lost s" "close (cc_inner (sy_state s)) = (closed, i)"
  shows "\<exists>ns st. (if closed then map_option (\<lambda>(ns, st2). (ns @ [Notify_Waiters], st2)) (wake_all_waiters ((sy_state s)\<lparr>cc_inner := i\<rparr>))
      else Some ([], (sy_state s)\<lparr>cc_inner := i\<rparr>)) = Some (ns, st) \<and> ctl_inv lost (s\<lparr>sy_state := st\<rparr>)"
proof -
  have ok: "ctl_ok (waiters_in (sy_state s))" and ci: "core_inv i"
    using assms core_inv_close [of "cc_inner (sy_state s)"] by (simp_all add: ctl_inv_def)
  show ?thesis
  proof (rule closed_waiters [OF ok assms(2)])
    fix ns st' assume *: closed "map_option (\<lambda>(ns, st2). (ns @ [Notify_Waiters], st2)) (wake_all_waiters ((sy_state s)\<lparr>cc_inner := i\<rparr>)) = Some (ns, st')"
      "ctl_ok (waiters_in st')" "cc_inner st' = i" "parked_in st' = parked_in (sy_state s)" "queued_in st' = {}"
    have "ctl_inv lost (s\<lparr>sy_state := st'\<rparr>)" by (rule ctl_inv_woken [OF assms(1) _ *(3,5,6)]) (use ci *(4) in simp)
    then show ?thesis using *(1,2) by (intro exI [of _ ns] exI [of _ st']) simp
  next
    assume "\<not> closed" "(sy_state s)\<lparr>cc_inner := i\<rparr> = sy_state s"
    then show ?thesis using assms(1) by simp
  qed
qed

lemma notify_after_pop_law:
  assumes inv: "ctl_inv lost s" and p: "pop_event now (cc_inner (sy_state s)) = (ev, i)"
  shows "case ev of None \<Rightarrow> ctl_inv lost (s\<lparr>sy_state := (sy_state s)\<lparr>cc_inner := i\<rparr>\<rparr>)
    | Some e \<Rightarrow> \<exists>ns st. notify_after_pop e ((sy_state s)\<lparr>cc_inner := i\<rparr>) = Some (ns, st) \<and> ctl_inv lost (s\<lparr>sy_state := st\<rparr>)"
proof -
  let ?st = "(sy_state s)\<lparr>cc_inner := i\<rparr>"
  have core: "core_inv (cc_inner (sy_state s))" "core_inv i" and ok: "ctl_ok (waiters_in ?st)"
    using inv core_inv_pop [of "cc_inner (sy_state s)" now] p by (simp_all add: ctl_inv_def)
  show ?thesis
  proof (cases rule: pop_event_cases [OF core(1), of now, case_names batch fin other])
    case (batch b i')
    then have i: "ev = Some (CompletionBatch b)" "i' = i" using p by simp_all
    obtain ns st' where w: "wake_completion_waiters (length b) ?st = Some (ns, st')" "ctl_ok (waiters_in st')" "rest_same ?st st'"
      "parked_in st' = parked_in ?st" "queued_in st' \<subseteq> queued_in ?st"
      "queued_in st' \<noteq> {} \<Longrightarrow> card (woken_in st') = card (woken_in ?st) + length b"
      by (rule wake_completion_law [OF ok, of "length b"]) blast
    have in': "cc_inner st' = i" using w(3) by (simp add: rest_same_def)
    have "served_ok lost st'"
    proof -
      have *: "free_slots i \<le> card (woken_in st') + lost" if "queued_in st' \<noteq> {}" "open_for_sends i"
      proof -
        have "queued_in (sy_state s) \<noteq> {}" "open_for_sends (cc_inner (sy_state s))" using that w(5) batch(5) i(2) by auto
        then have "free_slots (cc_inner (sy_state s)) \<le> card (woken_in (sy_state s)) + lost"
          using inv unfolding ctl_inv_def served_ok_def by blast
        then show ?thesis using w(6) [OF that(1)] batch(3) i(2) by (simp add: woken_in_def)
      qed
      moreover have "queued_in st' = {}" if "ci_closed i"
        using that w(5) batch(2) i(2) inv unfolding ctl_inv_def served_ok_def by auto
      ultimately show ?thesis unfolding served_ok_def in' by blast
    qed
    moreover have "sleeps_ok (s\<lparr>sy_state := st'\<rparr>)"
      by (rule sleeps_ok_sub) (use inv w(5) batch(4) in' i(2) in \<open>simp_all add: ctl_inv_def\<close>)
    moreover have "sends_ok (s\<lparr>sy_state := st'\<rparr>)" using inv w(4) by (simp add: ctl_inv_def sends_ok_def)
    ultimately have "ctl_inv lost (s\<lparr>sy_state := st'\<rparr>)" using core(2) w(2) in' by (simp add: ctl_inv_def)
    then show ?thesis using i w(1) by simp
  next
    case (fin m i')
    then have i: "ev = Some (Shutdown m)" "i' = i" using p by simp_all
    obtain ns st' where w: "wake_all_waiters ?st = Some (ns, st')" "ctl_ok (waiters_in st')" "rest_same ?st st'"
      "parked_in st' = parked_in ?st" "queued_in st' = {}" by (rule wake_all_waiters_law [OF ok])
    have "ctl_inv lost (s\<lparr>sy_state := st'\<rparr>)" by (rule ctl_inv_woken [OF inv _ w(2)]) (use core(2) w in \<open>simp_all add: rest_same_def\<close>)
    then show ?thesis using i w(1) by simp
  next
    case (other ev' i')
    then have i: "ev' = ev" "i' = i" using p by simp_all
    have c: "ctl_inv lost (s\<lparr>sy_state := ?st\<rparr>)" by (rule ctl_inv_calm [OF inv core(2)]) (use other i in simp)
    show ?thesis
    proof (cases ev)
      case (Some e)
      have "notify_after_pop e ?st = Some ([], ?st)" using other(3,4) i(1) Some by (cases e) auto
      then show ?thesis using Some c by simp
    qed (use c in simp)
  qed
qed

lemma ctl_inv_send:
  assumes "ctl_inv lost s" "try_send now cmd (cc_inner (sy_state s)) = (r, i)"
  shows "ctl_inv lost (s\<lparr>sy_state := (sy_state s)\<lparr>cc_inner := i\<rparr>\<rparr>)"
proof (rule ctl_inv_calm [OF assms(1)])
  show "core_inv i" using assms core_inv_try_send [of "cc_inner (sy_state s)" now cmd] by (simp add: ctl_inv_def)
  show "calm (cc_inner (sy_state s)) i"
  proof (cases rule: try_send_cases [of now cmd "cc_inner (sy_state s)"])
    case (ok o' s')
    then show ?thesis using assms(2) by (auto simp: calm_def)
  next
    case (full adm)
    then show ?thesis using assms(2) by simp
  next
    case (closed s')
    then show ?thesis using assms(2) try_send_closed_calm [OF closed(1)] by simp
  qed
qed

lemma ctl_step_cancel:
  assumes inv: "ctl_inv lost s" and fut: "sy_sends s n = Some fut"
  shows "\<exists>ns s'. exec_ctl (C_Cancel n) s = Some (ns, s') \<and> ctl_inv (lost + forfeits (C_Cancel n) s) s'"
proof -
  let ?ko = "fu_waiter_key fut"
  have ok: "ctl_ok (waiters_in (sy_state s))" using inv by (simp add: ctl_inv_def)
  obtain st where st: "release_waiter ?ko (sy_state s) = Some st" "ctl_ok (waiters_in st)" "rest_same (sy_state s) st"
    "parked_in st = parked_in (sy_state s) - set_option ?ko" "queued_in st = queued_in (sy_state s) - set_option ?ko"
    by (rule release_waiter_law [OF ok])
  have core: "cc_inner st = cc_inner (sy_state s)" using st(3) by (simp add: rest_same_def)
  let ?s = "s\<lparr>sy_state := st, sy_sends := (sy_sends s)(n := None)\<rparr>"
  have "served_ok (lost + forfeits (C_Cancel n) s) st"
    by (rule served_ok_leave [OF _ finite_parked [OF ok] st(4,5), where gain = 0])
      (use inv core fut in \<open>auto simp: ctl_inv_def\<close>)
  moreover have "sends_ok ?s" by (rule sends_ok_remove [OF _ fut st(4)]) (use inv in \<open>simp add: ctl_inv_def\<close>)
  moreover have "sleeps_ok ?s" by (rule sleeps_ok_sub) (use inv st(5) core in \<open>auto simp: ctl_inv_def\<close>)
  ultimately have "ctl_inv (lost + forfeits (C_Cancel n) s) ?s" using inv st(2) core by (simp add: ctl_inv_def)
  then show ?thesis using fut st(1) by (simp add: drop_send_def)
qed

lemma ctl_step_poll:
  assumes inv: "ctl_inv lost s" and fut: "sy_sends s n = Some fut" and room: "ctl_room (waiters_in (sy_state s))" and timers: "timers_ok rounds"
  shows "\<exists>ns s'. exec_ctl (C_Poll n t rounds) s = Some (ns, s') \<and> ctl_inv lost s'"
proof -
  let ?ko = "fu_waiter_key fut"
  have ok: "ctl_ok (waiters_in (sy_state s))" and sends: "sends_ok s" and served: "served_ok lost (sy_state s)" and sleeps: "sleeps_ok s"
    and core: "core_inv (cc_inner (sy_state s))"
    using inv by (simp_all add: ctl_inv_def)
  obtain cmd where cmd: "fu_pending_cmd fut = Some cmd" "?ko \<noteq> None \<longrightarrow> is_completion cmd"
    using sends fut unfolding sends_ok_def by blast
  have key: "set_option ?ko \<subseteq> parked_in (sy_state s)" using sends fut unfolding sends_ok_def by auto
  have leave: "\<exists>ns s'. exec_ctl (C_Poll n t rounds) s = Some (ns, s') \<and> ctl_inv lost s'"
    if "poll_send_fut rounds t fut (sy_state s) = Some (SendReady r, ns, finished_send, st)" "ctl_ok (waiters_in st)"
      "parked_in st = parked_in (sy_state s) - set_option ?ko" "queued_in st = queued_in (sy_state s) - set_option ?ko"
      "core_inv (cc_inner st)" "calm (cc_inner (sy_state s)) (cc_inner st)"
      "open_for_sends (cc_inner st) \<Longrightarrow> free_slots (cc_inner st) + of_bool (is_completion cmd) = free_slots (cc_inner (sy_state s))" for r ns st
  proof -
    let ?s = "s\<lparr>sy_state := st, sy_sends := (sy_sends s)(n := None)\<rparr>"
    have "served_ok (lost + 0) st"
      by (rule served_ok_leave [OF served finite_parked [OF ok] that(3,4), where gain = "of_bool (is_completion cmd)"])
        (use that(6,7) cmd(2) in \<open>auto simp: calm_def\<close>)
    moreover have "sends_ok ?s" by (rule sends_ok_remove [OF sends fut that(3)])
    moreover have "sleeps_ok ?s" by (rule sleeps_ok_sub [OF sleeps]) (use that(4,6) in \<open>auto simp: calm_def\<close>)
    ultimately have "ctl_inv lost ?s" using that(2,5) by (simp add: ctl_inv_def)
    then show ?thesis using fut that(1) by simp
  qed
  show ?thesis
  proof (cases rule: poll_fut_cases [OF ok key room cmd(1) timers, where t = t, case_names sent closed waits])
    case (sent now outcome st)
    have c: "core_inv (cc_inner st)" using core_inv_try_send [OF core, of now cmd] sent(3) by simp
    have "calm (cc_inner (sy_state s)) (cc_inner st) \<and> free_slots (cc_inner st) + of_bool (is_completion cmd) = free_slots (cc_inner (sy_state s))"
      by (cases rule: try_send_cases [of now cmd "cc_inner (sy_state s)"]) (use sent(3) in \<open>auto simp: calm_def\<close>)
    then show ?thesis by (intro leave [OF sent(1,2,5,6) c]) simp_all
  next
    case (closed now st)
    have c: "core_inv (cc_inner st)" using core_inv_try_send [OF core, of now cmd] closed(3) by simp
    have "\<not> open_for_sends (cc_inner st)"
      by (cases rule: try_send_cases [of now cmd "cc_inner (sy_state s)"]) (use closed(3) in auto)
    then show ?thesis by (intro leave [OF closed(1,2,5,6) c try_send_closed_calm [OF closed(3)]]) simp
  next
    case (waits k st)
    have core': "cc_inner st = cc_inner (sy_state s)" using waits(3) by (simp add: rest_same_def)
    let ?f = "\<lparr>fu_pending_cmd = Some cmd, fu_waiter_key = Some k, fu_deadline_sleep = next_deadline (cc_inner (sy_state s))\<rparr>"
    let ?s = "s\<lparr>sy_state := st, sy_sends := (sy_sends s)(n \<mapsto> ?f)\<rparr>"
    have so: "sends_ok ?s" by (rule sends_ok_park [OF sends fut waits(7,5,4)])
    have other: "fu_waiter_key f \<noteq> Some k" if "sy_sends s m = Some f" "m \<noteq> n" for m f
    proof
      assume k: "fu_waiter_key f = Some k"
      have "sy_sends ?s m = Some f" "sy_sends ?s n = Some ?f" "fu_waiter_key ?f = Some k" using that by simp_all
      then have "m = n" using so k unfolding sends_ok_def by blast
      then show False using that(2) by simp
    qed
    have "sleeps_ok ?s" by (rule sleeps_ok_park [OF sleeps waits(6) core' other])
    moreover have "served_ok lost st" using waits(8,9) core' by (simp add: served_ok_def open_for_sends_def)
    ultimately have "ctl_inv lost ?s" using so core core' waits(2) by (simp add: ctl_inv_def)
    then show ?thesis using fut waits(1) by simp
  qed
qed

lemma ctl_inv_cong:
  assumes "ctl_inv lost s" "cc_inner (sy_state s') = cc_inner (sy_state s)" "waiters_in (sy_state s') = waiters_in (sy_state s)" "sy_sends s' = sy_sends s"
  shows "ctl_inv lost s'"
  using assms(1) unfolding ctl_inv_def sends_ok_def served_ok_def sleeps_ok_def woken_in_def assms(2-4) .

lemma ctl_step:
  assumes inv: "ctl_inv lost s" and en: "ctl_enabled op s"
  shows "\<exists>ns s'. exec_ctl op s = Some (ns, s') \<and> ctl_inv (lost + forfeits op s) s'"
proof (cases op)
  case (C_TrySend now cmd)
  obtain r i where r: "try_send now cmd (cc_inner (sy_state s)) = (r, i)" by force
  then show ?thesis using C_TrySend ctl_inv_send [OF inv r] sender_try_send_eq [OF r] by (simp add: with_state_def)
next
  case (C_Drain now msg)
  obtain r i where r: "record_drain_ingress now msg (cc_inner (sy_state s)) = (r, i)" by force
  have "ctl_inv lost (s\<lparr>sy_state := (sy_state s)\<lparr>cc_inner := i\<rparr>\<rparr>)"
    by (rule ctl_inv_calm [OF inv]) (use core_inv_record_drain [of "cc_inner (sy_state s)" now msg] drain_calm [of "cc_inner (sy_state s)" now msg] inv r in \<open>simp_all add: ctl_inv_def\<close>)
  then show ?thesis using C_Drain r by (simp add: with_state_def accept_drain_ingress_def)
next
  case (C_Shutdown now msg)
  obtain r i where r: "record_shutdown now msg (cc_inner (sy_state s)) = (r, i)" by force
  have ci: "core_inv i" and ok: "ctl_ok (waiters_in ((sy_state s)\<lparr>cc_inner := i\<rparr>))"
    using core_inv_record_shutdown [of "cc_inner (sy_state s)" now msg] inv r by (simp_all add: ctl_inv_def)
  show ?thesis
  proof (cases "r = LcAccepted")
    case True
    obtain ns st where w: "wake_all_waiters ((sy_state s)\<lparr>cc_inner := i\<rparr>) = Some (ns, st)" "ctl_ok (waiters_in st)" "rest_same ((sy_state s)\<lparr>cc_inner := i\<rparr>) st"
      "parked_in st = parked_in ((sy_state s)\<lparr>cc_inner := i\<rparr>)" "queued_in st = {}" by (rule wake_all_waiters_law [OF ok])
    have "ctl_inv lost (s\<lparr>sy_state := st\<rparr>)" by (rule ctl_inv_woken [OF inv _ w(2)]) (use ci w in \<open>simp_all add: rest_same_def\<close>)
    then show ?thesis using C_Shutdown r True w(1) by (simp add: with_state_def accept_shutdown_def)
  next
    case False
    then have "i = cc_inner (sy_state s)" using shutdown_effect [OF r] by blast
    then show ?thesis using C_Shutdown r False inv by (simp add: with_state_def accept_shutdown_def)
  qed
next
  case C_Close
  obtain b i where c: "close (cc_inner (sy_state s)) = (b, i)" by force
  then show ?thesis using ctl_step_close [OF inv c] C_Close by (auto simp: with_state_def sender_close_def)
next
  case C_Clone
  have "ctl_inv lost (s\<lparr>sy_state := clone_ctl_sender (sy_state s)\<rparr>)"
    by (rule ctl_inv_cong [OF inv]) (simp_all add: clone_ctl_sender_def)
  then show ?thesis using C_Clone by (simp add: with_state_def)
next
  case C_DropSender
  let ?st = "(sy_state s)\<lparr>cc_sender_count := cc_sender_count (sy_state s) - 1\<rparr>"
  have less: "ctl_inv lost (s\<lparr>sy_state := ?st\<rparr>)"
    by (rule ctl_inv_cong [OF inv]) simp_all
  show ?thesis
  proof (cases "cc_sender_count (sy_state s) = 1")
    case True
    obtain b i where c: "close (cc_inner (sy_state s)) = (b, i)" by force
    have none: "parked_in (sy_state s) = {}" using inv en C_DropSender True by (auto simp: ctl_inv_def sends_ok_def)
    then have "queued_in (sy_state s) = {}" using queued_parked [of "sy_state s"] inv by (auto simp: ctl_inv_def)
    then have "ctl_inv lost (s\<lparr>sy_state := ?st\<lparr>cc_inner := i\<rparr>\<rparr>)"
      by (intro ctl_inv_woken [OF inv]) (use inv c core_inv_close [of "cc_inner (sy_state s)"] in \<open>simp_all add: ctl_inv_def\<close>)
    then show ?thesis using C_DropSender True c by (simp add: with_state_def drop_ctl_sender_def Let_def)
  next
    case False
    then have "cc_sender_count (sy_state s) - 1 \<noteq> 0" using en C_DropSender by simp
    then show ?thesis using C_DropSender less by (simp add: with_state_def drop_ctl_sender_def Let_def)
  qed
next
  case C_DropReceiver
  obtain b i where c: "close (cc_inner (sy_state s)) = (b, i)" by force
  have "ctl_inv lost (s\<lparr>sy_receiver := False\<rparr>)" by (rule ctl_inv_cong [OF inv]) simp_all
  moreover have e: "sy_state (s\<lparr>sy_receiver := False\<rparr>) = sy_state s" by simp
  ultimately obtain ns st where st: "drop_ctl_receiver (sy_state s) = Some (ns, st)" "ctl_inv lost (s\<lparr>sy_receiver := False, sy_state := st\<rparr>)"
    using ctl_step_close [of lost "s\<lparr>sy_receiver := False\<rparr>" b i, unfolded e] c unfolding drop_ctl_receiver_def Let_def by auto
  then show ?thesis using C_DropReceiver by (simp add: with_state_def)
next
  case (C_Send n cmd)
  have new: "sy_sends s n = None" using en C_Send by simp
  let ?s = "s\<lparr>sy_sends := (sy_sends s)(n \<mapsto> start_send cmd)\<rparr>"
  have look: "sy_sends ?s m = Some f \<longleftrightarrow> (if m = n then f = start_send cmd else sy_sends s m = Some f)" for m f by auto
  have keyed: "sy_sends ?s m = Some f \<and> fu_waiter_key f = Some k \<longleftrightarrow> sy_sends s m = Some f \<and> fu_waiter_key f = Some k" for m f k
    unfolding look using new by (auto simp: start_send_def)
  have "sends_ok ?s"
  proof -
    have "\<exists>c. fu_pending_cmd f = Some c \<and> (fu_waiter_key f \<noteq> None \<longrightarrow> is_completion c)" if "sy_sends ?s m = Some f" for m f
    proof (cases "m = n")
      case True
      then show ?thesis using that by (auto simp: start_send_def)
    next
      case False
      then have "sy_sends s m = Some f" using that by simp
      then show ?thesis using inv unfolding ctl_inv_def sends_ok_def by blast
    qed
    moreover have "k \<in> parked_in (sy_state ?s) \<longleftrightarrow> (\<exists>m f. sy_sends ?s m = Some f \<and> fu_waiter_key f = Some k)" for k
      unfolding keyed using inv unfolding ctl_inv_def sends_ok_def by simp
    moreover have "m = m'" if "sy_sends ?s m = Some f" "sy_sends ?s m' = Some f'" "fu_waiter_key f = Some k" "fu_waiter_key f' = Some k" for m m' f f' k
    proof -
      have "sy_sends s m = Some f" "sy_sends s m' = Some f'" using keyed that by blast+
      then show ?thesis using inv that(3,4) unfolding ctl_inv_def sends_ok_def by blast
    qed
    ultimately show ?thesis unfolding sends_ok_def by blast
  qed
  moreover have "sleeps_ok ?s" unfolding sleeps_ok_def
  proof (intro allI impI, elim conjE)
    fix m f k d assume "sy_sends ?s m = Some f" "fu_waiter_key f = Some k" "k \<in> queued_in (sy_state ?s)" "next_deadline (cc_inner (sy_state ?s)) = Some d"
    moreover from this have "sy_sends s m = Some f" using keyed by blast
    ultimately show "fu_deadline_sleep f = Some d" using inv unfolding ctl_inv_def sleeps_ok_def by simp
  qed
  ultimately have "ctl_inv lost ?s" using inv by (simp add: ctl_inv_def)
  then show ?thesis using C_Send by simp
next
  case (C_Poll n t rounds)
  then obtain fut where "sy_sends s n = Some fut" "ctl_room (waiters_in (sy_state s))" "timers_ok rounds" using en by auto
  then show ?thesis using ctl_step_poll [OF inv, of n fut rounds t] C_Poll by simp
next
  case (C_Cancel n)
  then obtain fut where "sy_sends s n = Some fut" using en by auto
  then show ?thesis using ctl_step_cancel [OF inv] C_Cancel by blast
next
  case (C_Recv now)
  obtain ev i where p: "pop_event now (cc_inner (sy_state s)) = (ev, i)" by force
  show ?thesis using notify_after_pop_law [OF inv p] C_Recv p
    by (auto simp: with_state_def recv_round_def Let_def split: option.splits)
next
  case (C_TryRecv now)
  obtain ev i where p: "pop_event now (cc_inner (sy_state s)) = (ev, i)" by force
  show ?thesis using notify_after_pop_law [OF inv p] C_TryRecv p
    by (auto simp: with_state_def try_recv_internal_def Let_def split: option.splits)
qed

lemma ctl_reach_inv: "ctl_reach c lost s \<Longrightarrow> config_wf c \<Longrightarrow> ctl_inv lost s"
proof (induction rule: ctl_reach.induct)
  case start
  then show ?case by (rule ctl_inv_start)
next
  case (step lost s op ns s')
  then show ?case using ctl_step [of lost s op] by auto
qed

subsection \<open>When the receiver waits\<close>

definition receiver_waits :: "instant \<Rightarrow> ('p, 'm, 'j) ctl_state \<Rightarrow> bool" where
  "receiver_waits now st \<longleftrightarrow> (case recv_round now st of Some (Recv_Waits d, rest) \<Rightarrow> True | _ \<Rightarrow> False)"

definition idle :: "('p, 'm, 'j) inner \<Rightarrow> bool" where
  "idle s \<longleftrightarrow> drain_ingress s = None \<and> completion s = [] \<and> ci_phase s \<noteq> PhShutdownRecorded \<and> \<not> has_pending_normal_event s \<and> \<not> ci_closed s"

lemma receiver_waits_iff:
  assumes "core_inv (cc_inner st)" "ctl_ok (waiters_in st)"
  shows "receiver_waits now st \<longleftrightarrow> idle (cc_inner st)"
proof -
  let ?s = "cc_inner st"
  obtain ev i where p: "pop_event now ?s = (ev, i)" by force
  have "receiver_waits now st \<longleftrightarrow> ev = None \<and> \<not> ci_closed i"
    by (auto simp: receiver_waits_def recv_round_def Let_def p split: option.splits recv_poll.splits)
  also have "\<dots> \<longleftrightarrow> idle ?s"
  proof (rule pop_event_form [of ?s now], goal_cases)
    case (1 m)
    then show ?case using p by (auto simp: idle_def)
  next
    case (2 b)
    then show ?case using p by (auto simp: idle_def take_completion_batch_def Let_def)
  next
    case (3 f)
    have "ci_closed ?s" if "shutdown ?s = None" using that 3(2) assms(1) by (auto simp: core_inv_def)
    then show ?case using 3 p by (auto simp: idle_def finalize_shutdown_def Let_def split: option.splits)
  next
    case 4
    then show ?case using p take_next_normal_event_pending [of ?s] by (auto simp: idle_def)
  next
    case 5
    have "\<not> has_pending_normal_event ?s" using 5(4) assms(1) by (auto simp: core_inv_def)
    then show ?case using 5 p by (auto simp: idle_def)
  qed
  finally show ?thesis .
qed

lemma idle_send:
  assumes "idle s" "core_inv s" "try_send now cmd s = (r, s')"
  shows "idle s' \<or> r = Inr Accepted"
  using assms by (cases cmd) (auto simp: idle_def core_inv_def config_wf_def validate_ok_iff try_send_def Let_def refresh_normal
      admission_defs has_pending_normal_event_def split: if_splits)

lemma idle_lifecycle:
  assumes "idle s"
  shows "idle (snd (record_drain_ingress now msg s)) \<or> fst (record_drain_ingress now msg s) = LcAccepted"
    "idle (snd (record_shutdown now msg' s)) \<or> fst (record_shutdown now msg' s) = LcAccepted"
    "idle (snd (close s)) \<or> fst (close s)"
  using assms by (auto simp: idle_def record_drain_ingress_def record_shutdown_def close_def Let_def refresh_normal)

lemma receiver_notified:
  assumes inv: "ctl_inv lost s" and en: "ctl_enabled op s" and ex: "exec_ctl op s = Some (ns, s')"
    and before: "idle (cc_inner (sy_state s))" and after: "\<not> idle (cc_inner (sy_state s'))"
  shows "Notify_One \<in> set ns \<or> Notify_Waiters \<in> set ns"
proof -
  let ?i = "cc_inner (sy_state s)"
  have core: "core_inv ?i" and ok: "ctl_ok (waiters_in (sy_state s))" using inv by (simp_all add: ctl_inv_def)
  have wake: "rest_same st st2" if "wake_all_waiters st = Some (ms, st2)" "waiters_in st = waiters_in (sy_state s)" for st st2 :: "('a, 'b, 'c) ctl_state" and ms
    by (rule wake_all_waiters_law [of st]) (use that ok in auto)
  have calmly: False if "cc_inner (sy_state s') = ?i" using that before after by simp
  show ?thesis
  proof (cases op)
    case (C_TrySend now cmd)
    obtain r i where r: "try_send now cmd ?i = (r, i)" by force
    then show ?thesis using idle_send [OF before core r] after ex C_TrySend sender_try_send_eq [OF r] by (auto simp: with_state_def)
  next
    case (C_Drain now msg)
    then show ?thesis using idle_lifecycle(1) [OF before, of now msg] after ex
      by (auto simp: with_state_def accept_drain_ingress_def split: prod.splits)
  next
    case (C_Shutdown now msg)
    then show ?thesis using idle_lifecycle(2) [OF before, of now msg] after ex
      by (auto simp: with_state_def accept_shutdown_def Let_def split: prod.splits if_splits)
  next
    case C_Close
    then show ?thesis using idle_lifecycle(3) [OF before] after ex
      by (auto simp: with_state_def sender_close_def Let_def split: prod.splits if_splits)
  next
    case C_Clone
    then show ?thesis using calmly ex by (auto simp: with_state_def clone_ctl_sender_def)
  next
    case C_DropSender
    then show ?thesis using idle_lifecycle(3) [OF before] after before ex
      by (auto simp: with_state_def drop_ctl_sender_def Let_def split: prod.splits if_splits)
  next
    case C_DropReceiver
    then show ?thesis using idle_lifecycle(3) [OF before] after ex
      by (auto simp: with_state_def drop_ctl_receiver_def Let_def split: prod.splits if_splits)
  next
    case (C_Send n cmd)
    then show ?thesis using calmly ex by auto
  next
    case (C_Poll n t rounds)
    then obtain fut where fut: "sy_sends s n = Some fut" and room: "ctl_room (waiters_in (sy_state s))" and timers: "timers_ok rounds" using en by auto
    have key: "set_option (fu_waiter_key fut) \<subseteq> parked_in (sy_state s)" using inv fut unfolding ctl_inv_def sends_ok_def by auto
    obtain cmd where cmd: "fu_pending_cmd fut = Some cmd" using inv fut unfolding ctl_inv_def sends_ok_def by blast
    show ?thesis
    proof (cases rule: poll_fut_cases [OF ok key room cmd timers, where t = t, case_names sent closed waits])
      case (sent now outcome st)
      then have "sy_state s' = st" "ns = (if outcome = Accepted \<or> outcome = Replaced then [Notify_One] else [])"
        using ex C_Poll fut by auto
      then show ?thesis using idle_send [OF before core sent(3)] after by auto
    next
      case (closed now st)
      then have "sy_state s' = st" using ex C_Poll fut by auto
      then show ?thesis using idle_send [OF before core closed(3)] after by auto
    next
      case (waits k st)
      then have "sy_state s' = st" using ex C_Poll fut by auto
      then show ?thesis using calmly waits(3) by (simp add: rest_same_def)
    qed
  next
    case (C_Cancel n)
    then obtain fut where fut: "sy_sends s n = Some fut" using en by auto
    obtain st where "release_waiter (fu_waiter_key fut) (sy_state s) = Some st" "rest_same (sy_state s) st"
      by (rule release_waiter_law [OF ok]) blast
    then show ?thesis using calmly ex C_Cancel fut by (auto simp: drop_send_def rest_same_def)
  next
    case (C_Recv now)
    have "recv_round now (sy_state s) = Some (Recv_Waits (next_deadline ?i), [], sy_state s)"
      using receiver_waits_iff [OF core ok, of now] before by (auto simp: receiver_waits_def recv_round_def Let_def idle_def pop_event_eq pop_normal_phase_eq)
    then show ?thesis using calmly ex C_Recv by (auto simp: with_state_def)
  next
    case (C_TryRecv now)
    have "pop_event now ?i = (None, ?i)" using before by (simp add: idle_def pop_event_eq pop_normal_phase_eq)
    then show ?thesis using calmly ex C_TryRecv by (auto simp: with_state_def try_recv_internal_def)
  qed
qed

definition woken_sends :: "('p, 'm, 'j) ctl_system \<Rightarrow> nat set" where
  \<comment> \<open>the sends that are parked and were woken since they were last polled\<close>
  "woken_sends s = {n. \<exists>fut k. sy_sends s n = Some fut \<and> fu_waiter_key fut = Some k \<and> k \<notin> queued_in (sy_state s)}"

lemma card_woken_sends:
  assumes "sends_ok s"
  shows "card (woken_sends s) = card (woken_in (sy_state s))"
proof (rule bij_betw_same_card)
  let ?key = "\<lambda>n. the (fu_waiter_key (the (sy_sends s n)))"
  have one: "k \<in> parked_in (sy_state s) \<longleftrightarrow> (\<exists>m f. sy_sends s m = Some f \<and> fu_waiter_key f = Some k)" for k
    using assms unfolding sends_ok_def by blast
  have uniq: "m = m'" if "sy_sends s m = Some f" "sy_sends s m' = Some f'" "fu_waiter_key f = Some k" "fu_waiter_key f' = Some k" for m m' f f' k
    using assms that unfolding sends_ok_def by blast
  show "bij_betw ?key (woken_sends s) (woken_in (sy_state s))"
  proof (rule bij_betw_imageI)
    show "inj_on ?key (woken_sends s)"
      by (rule inj_onI) (use uniq in \<open>auto simp: woken_sends_def\<close>)
    show "?key ` woken_sends s = woken_in (sy_state s)"
    proof
      show "?key ` woken_sends s \<subseteq> woken_in (sy_state s)" by (fastforce simp: woken_sends_def woken_in_def one)
      show "woken_in (sy_state s) \<subseteq> ?key ` woken_sends s"
      proof
        fix k assume k: "k \<in> woken_in (sy_state s)"
        then obtain m f where "sy_sends s m = Some f" "fu_waiter_key f = Some k" using one by (auto simp: woken_in_def)
        then show "k \<in> ?key ` woken_sends s" using k by (intro image_eqI [of _ _ m]) (auto simp: woken_sends_def woken_in_def)
      qed
    qed
  qed
qed

subsection \<open>An example history\<close>

text \<open>
  A channel of one slot: the slot is taken, two sends wait, and the receiver frees the slot, which
  wakes the first of them.
\<close>

definition one_slot :: control_channel_config where
  "one_slot = \<lparr>completion_msg_capacity = 1, completion_batch_max = 1, completion_burst_limit = 1\<rparr>"

definition calm_rounds :: "(instant \<times> (instant \<Rightarrow> bool)) list" where
  "calm_rounds = [(0, \<lambda>d. False), (0, \<lambda>d. False)]"

definition ack_cmd :: "nat \<Rightarrow> (nat, unit, nat) control_cmd" where
  "ack_cmd n = CmdAck \<lparr>accepted = n, ack_meta = ()\<rparr>"

fun run_ctl :: "('p, 'm, 'j) ctl_op list \<Rightarrow> ('p, 'm, 'j) ctl_system \<Rightarrow> ('p, 'm, 'j) ctl_system option" where
  "run_ctl [] s = Some s"
| "run_ctl (op # ops) s = (if ctl_enabled op s \<and> forfeits op s = 0 then exec_ctl op s \<bind> (\<lambda>(ns, s'). run_ctl ops s') else None)"

lemma run_ctl_reach: "run_ctl ops s = Some s' \<Longrightarrow> ctl_reach c lost s \<Longrightarrow> ctl_reach c lost s'"
proof (induction ops arbitrary: s)
  case (Cons op ops)
  then obtain ns s1 where *: "ctl_enabled op s" "forfeits op s = 0" "exec_ctl op s = Some (ns, s1)" "run_ctl ops s1 = Some s'"
    by (auto split: if_splits bind_splits)
  then have "ctl_reach c lost s1" using ctl_reach.step [OF Cons.prems(2) *(1,3)] by simp
  then show ?case using Cons.IH *(4) by blast
qed simp

definition two_wait :: "(nat, unit, nat) ctl_op list" where
  "two_wait = [C_TrySend 0 (ack_cmd 1), C_Send 0 (ack_cmd 2), C_Poll 0 10 calm_rounds, C_Send 1 (ack_cmd 3), C_Poll 1 11 calm_rounds, C_Recv 0]"

definition parked_fut :: "nat \<Rightarrow> nat \<Rightarrow> (nat, unit, nat) send_fut" where
  "parked_fut v i = \<lparr>fu_pending_cmd = Some (ack_cmd v), fu_waiter_key = Some (WaiterKey i (of_nat i)), fu_deadline_sleep = None\<rparr>"

definition two_wait_waiters :: ctl_waiters where
  "two_wait_waiters = \<lparr>cw_queue = [WaiterKey 1 1], cw_slots = [\<lparr>cl_generation = 0, cl_waker = None, cl_in_use = True, cl_queued = False\<rparr>,
      \<lparr>cl_generation = 1, cl_waker = Some 11, cl_in_use = True, cl_queued = True\<rparr>], cw_free_slots = [], cw_queued_live = 1, cw_queued_stale = 0,
      cw_next_generation = 2\<rparr>"

lemmas ctl_eval = one_slot_def calm_rounds_def ack_cmd_def ctl_start_def new_inner_def with_state_def sender_try_send_def try_send_def Let_def
  refresh_shutdown_force_def push_completion_def bump_version_def start_send_def poll_round_def register_waiter_def release_waiter_def
  ctl_register_or_refresh_def ctl_enter_def ctl_waiters_new_def ctl_vacant_def next_deadline_def timers_ok_def ctl_room_def waiters_in_def
  recv_round_def pop_event_def pop_normal_phase_def has_pending_normal_event_def take_completion_batch_def batch_len_def
  wake_completion_waiters_def ctl_wake_n_def entry_is_live_def apfst_def

lemma two_wait_run:
  "\<exists>s. run_ctl two_wait (ctl_start one_slot) = Some s \<and> sy_sends s = [0 \<mapsto> parked_fut 2 0, 1 \<mapsto> parked_fut 3 1] \<and>
     cc_sender_waiters (sy_state s) = Some two_wait_waiters \<and> completion (cc_inner (sy_state s)) = [] \<and>
     ci_config (cc_inner (sy_state s)) = one_slot \<and> open_for_sends (cc_inner (sy_state s)) \<and> idle (cc_inner (sy_state s))"
  by (simp add: two_wait_def ctl_eval parked_fut_def two_wait_waiters_def open_for_sends_def idle_def)

lemma one_slot_wf: "config_wf one_slot"
  by (simp add: config_wf_def one_slot_def validate_def u64_max_def)

lemma two_wait_sets:
  "waiting (base two_wait_waiters) = {WaiterKey 1 1}" "regd (base two_wait_waiters) = {WaiterKey 0 0, WaiterKey 1 1}"
proof -
  have i: "i < Suc (Suc 0) \<longleftrightarrow> i = 0 \<or> i = Suc 0" for i :: nat by auto
  have "k \<in> waiting (base two_wait_waiters) \<longleftrightarrow> k = WaiterKey 1 1" for k
    by (cases k) (auto simp: two_wait_waiters_def waiting_def keys_where_def i)
  then show "waiting (base two_wait_waiters) = {WaiterKey 1 1}" by blast
  have "k \<in> regd (base two_wait_waiters) \<longleftrightarrow> k = WaiterKey 0 0 \<or> k = WaiterKey 1 1" for k
    by (cases k) (auto simp: two_wait_waiters_def regd_def keys_where_def i)
  then show "regd (base two_wait_waiters) = {WaiterKey 0 0, WaiterKey 1 1}" by blast
qed

definition two_waiting :: "(nat, unit, nat) ctl_system" where
  "two_waiting = the (run_ctl two_wait (ctl_start one_slot))"

lemma two_waiting_facts:
  "ctl_reach one_slot 0 two_waiting" "sy_sends two_waiting = [0 \<mapsto> parked_fut 2 0, 1 \<mapsto> parked_fut 3 1]"
  "cc_sender_waiters (sy_state two_waiting) = Some two_wait_waiters" "waiters_in (sy_state two_waiting) = two_wait_waiters"
  "completion (cc_inner (sy_state two_waiting)) = []"
  "ci_config (cc_inner (sy_state two_waiting)) = one_slot" "open_for_sends (cc_inner (sy_state two_waiting))" "idle (cc_inner (sy_state two_waiting))"
proof -
  obtain s where s: "run_ctl two_wait (ctl_start one_slot) = Some s" "sy_sends s = [0 \<mapsto> parked_fut 2 0, 1 \<mapsto> parked_fut 3 1]"
     "cc_sender_waiters (sy_state s) = Some two_wait_waiters" "completion (cc_inner (sy_state s)) = []"
     "ci_config (cc_inner (sy_state s)) = one_slot" "open_for_sends (cc_inner (sy_state s))" "idle (cc_inner (sy_state s))" using two_wait_run by blast
  have "two_waiting = s" using s(1) by (simp add: two_waiting_def)
  then show "ctl_reach one_slot 0 two_waiting" "sy_sends two_waiting = [0 \<mapsto> parked_fut 2 0, 1 \<mapsto> parked_fut 3 1]"
    "cc_sender_waiters (sy_state two_waiting) = Some two_wait_waiters" "waiters_in (sy_state two_waiting) = two_wait_waiters"
    "completion (cc_inner (sy_state two_waiting)) = []"
    "ci_config (cc_inner (sy_state two_waiting)) = one_slot" "open_for_sends (cc_inner (sy_state two_waiting))" "idle (cc_inner (sy_state two_waiting))"
    using s run_ctl_reach [OF s(1) ctl_reach.start] by (simp_all add: waiters_in_def)
qed

subsection \<open>What senders and the receiver rely on\<close>

text \<open>
  C9. No wakeup is lost. In every history of the control channel, while a send is queued and the
  channel takes sends, there are at least as many woken sends that were not polled since as there
  are free completion slots, apart from the wakeups that went to sends which were then dropped.
  So a send stays queued beside a free slot only if another one is about to take the slot, or a
  woken send was dropped.\<close>

theorem control_no_lost_wakeup:
  assumes "config_wf c" "ctl_reach c lost s" "queued_in (sy_state s) \<noteq> {}" "open_for_sends (cc_inner (sy_state s))"
  shows "free_slots (cc_inner (sy_state s)) \<le> card (woken_sends s) + lost"
proof -
  have inv: "ctl_inv lost s" by (rule ctl_reach_inv [OF assms(2,1)])
  then have "free_slots (cc_inner (sy_state s)) \<le> card (woken_in (sy_state s)) + lost"
    using assms(3,4) unfolding ctl_inv_def served_ok_def by blast
  then show ?thesis using card_woken_sends [of s] inv by (simp add: ctl_inv_def)
qed

theorem control_no_lost_wakeup_witness:
  "free_slots (cc_inner (sy_state two_waiting)) = 1 \<and> 1 \<le> card (woken_sends two_waiting)"
proof -
  have "free_slots (cc_inner (sy_state two_waiting)) = 1" using two_waiting_facts(5,6) by (simp add: free_slots_def one_slot_def)
  then show ?thesis
    using control_no_lost_wakeup [OF one_slot_wf two_waiting_facts(1) _ two_waiting_facts(7)] two_waiting_facts(4) two_wait_sets(1) by simp
qed

lemma cancel_woken:
  assumes inv: "ctl_inv lost s" and woken: "n \<in> woken_sends s"
  obtains st where "exec_ctl (C_Cancel n) s = Some ([], s\<lparr>sy_state := st, sy_sends := (sy_sends s)(n := None)\<rparr>)"
    "queued_in st = queued_in (sy_state s)" "rest_same (sy_state s) st"
proof -
  have ok: "ctl_ok (waiters_in (sy_state s))" using inv by (simp add: ctl_inv_def)
  obtain fut k where fut: "sy_sends s n = Some fut" "fu_waiter_key fut = Some k" "k \<notin> queued_in (sy_state s)"
    using woken by (auto simp: woken_sends_def)
  obtain st where st: "release_waiter (Some k) (sy_state s) = Some st" "rest_same (sy_state s) st"
    "queued_in st = queued_in (sy_state s) - {k}"
    by (rule release_waiter_law [OF ok, of "Some k"]) simp
  show thesis by (rule that [of st]) (use st fut in \<open>simp_all add: drop_send_def\<close>)
qed

text \<open>
  C39. Dropping a woken send loses its wakeup. In every history, when a send that was woken and not
  polled since is dropped, nobody is woken or notified in its place: the same sends stay queued,
  the other woken sends are those of before, and the core of the channel, with its free slots,
  does not change. So if it was the only woken send, the queued ones stay asleep beside the slot
  that was freed for it.\<close>

theorem cancelled_wakeup_is_lost:
  assumes "config_wf c" "ctl_reach c lost s" "n \<in> woken_sends s"
  shows "\<exists>s'. exec_ctl (C_Cancel n) s = Some ([], s') \<and> ctl_reach c (lost + 1) s' \<and>
    queued_in (sy_state s') = queued_in (sy_state s) \<and> woken_sends s' = woken_sends s - {n} \<and>
    sy_sends s' = (sy_sends s)(n := None) \<and> cc_inner (sy_state s') = cc_inner (sy_state s)"
proof -
  have inv: "ctl_inv lost s" by (rule ctl_reach_inv [OF assms(2,1)])
  obtain st where st: "exec_ctl (C_Cancel n) s = Some ([], s\<lparr>sy_state := st, sy_sends := (sy_sends s)(n := None)\<rparr>)"
    "queued_in st = queued_in (sy_state s)" "rest_same (sy_state s) st"
    by (rule cancel_woken [OF inv assms(3)])
  let ?s = "s\<lparr>sy_state := st, sy_sends := (sy_sends s)(n := None)\<rparr>"
  obtain fut k where fut: "sy_sends s n = Some fut" "fu_waiter_key fut = Some k" "k \<notin> queued_in (sy_state s)"
    using assms(3) by (auto simp: woken_sends_def)
  have "k \<in> parked_in (sy_state s)" using inv fut unfolding ctl_inv_def sends_ok_def by blast
  then have "forfeits (C_Cancel n) s = 1" using fut by (simp add: woken_in_def)
  then have "ctl_reach c (lost + 1) ?s" using ctl_reach.step [OF assms(2) _ st(1)] fut(1) by simp
  moreover have "woken_sends ?s = woken_sends s - {n}"
    using st(2) by (auto simp: woken_sends_def split: if_splits)
  moreover have "cc_inner st = cc_inner (sy_state s)" using st(3) by (simp add: rest_same_def)
  ultimately show ?thesis using st(1,2) by (intro exI [of _ ?s]) simp
qed

text \<open>The stranded send: a free slot, an idle receiver, a queued send and nobody woken.\<close>

theorem cancelled_wakeup_is_lost_witness:
  "\<exists>s :: (nat, unit, nat) ctl_system. exec_ctl (C_Cancel 0) two_waiting = Some ([], s) \<and> ctl_reach one_slot 1 s \<and>
     sy_sends s 1 = Some (parked_fut 3 1) \<and> queued_in (sy_state s) = {WaiterKey 1 1} \<and> woken_sends s = {} \<and>
     open_for_sends (cc_inner (sy_state s)) \<and> free_slots (cc_inner (sy_state s)) = 1 \<and> receiver_waits 0 (sy_state s)"
proof -
  note f = two_waiting_facts
  have q: "queued_in (sy_state two_waiting) = {WaiterKey 1 1}" using f(4) two_wait_sets(1) by simp
  have w: "woken_sends two_waiting = {0}"
    using f(2) q by (auto simp: woken_sends_def parked_fut_def split: if_splits)
  obtain s where s: "exec_ctl (C_Cancel 0) two_waiting = Some ([], s)" "ctl_reach one_slot 1 s"
    "queued_in (sy_state s) = {WaiterKey 1 1}" "woken_sends s = {}" "sy_sends s = (sy_sends two_waiting)(0 := None)"
    "cc_inner (sy_state s) = cc_inner (sy_state two_waiting)"
    using cancelled_wakeup_is_lost [OF one_slot_wf f(1), of 0] q w by auto
  have "receiver_waits 0 (sy_state s)"
    using receiver_waits_iff [of "sy_state s" 0] ctl_reach_inv [OF s(2) one_slot_wf] f(8) s(6) by (simp add: ctl_inv_def)
  then show ?thesis using s f(2,5-7) by (intro exI [of _ s]) (simp add: free_slots_def one_slot_def)
qed

text \<open>
  C10. The receiver is notified. If the receiver waits and a call makes that wrong, because there is
  an event or the channel is closed, then the call notifies the receiver, whatever the clock says
  before and after.\<close>

theorem receiver_is_notified:
  assumes "config_wf c" "ctl_reach c lost s" "ctl_enabled op s" "exec_ctl op s = Some (ns, s')"
    and "receiver_waits now (sy_state s)" "\<not> receiver_waits now' (sy_state s')"
  shows "Notify_One \<in> set ns \<or> Notify_Waiters \<in> set ns"
proof -
  have inv: "ctl_inv lost s" by (rule ctl_reach_inv [OF assms(2,1)])
  have inv': "ctl_inv (lost + forfeits op s) s'" by (rule ctl_reach_inv [OF ctl_reach.step [OF assms(2-4)] assms(1)])
  show ?thesis
    by (rule receiver_notified [OF inv assms(3,4)])
      (use inv inv' assms(5,6) receiver_waits_iff in \<open>auto simp: ctl_inv_def\<close>)
qed

theorem receiver_is_notified_witness:
  "\<exists>ns s'. exec_ctl (C_TrySend 0 (ack_cmd 1)) (ctl_start one_slot) = Some (ns, s') \<and> (Notify_One \<in> set ns \<or> Notify_Waiters \<in> set ns)"
proof -
  obtain ns s' where e: "exec_ctl (C_TrySend 0 (ack_cmd 1)) (ctl_start one_slot) = Some (ns, s')"
    using ctl_step [OF ctl_inv_start [OF one_slot_wf], of "C_TrySend 0 (ack_cmd 1)"] by (auto simp: ctl_start_def)
  have "receiver_waits 0 (sy_state (ctl_start one_slot :: (nat, unit, nat) ctl_system))" "\<not> receiver_waits 0 (sy_state s')"
    using e by (auto simp: receiver_waits_def ctl_eval)
  then show ?thesis using receiver_is_notified [OF one_slot_wf ctl_reach.start _ e] e by (simp add: ctl_start_def)
qed

text \<open>
  C37. A poll ends, and the command is kept. In every state of every history, polling a send needs
  at most two rounds, provided that a sleep is over only after its deadline. It panics nowhere, it
  keeps the command while the send is pending, and it gives it back when the channel is closed.\<close>

theorem poll_returns:
  assumes "config_wf c" "ctl_reach c lost s" "sy_sends s n = Some fut" "ctl_room (waiters_in (sy_state s))" "timers_ok rounds"
  shows "\<exists>cmd p ns fut' st. fu_pending_cmd fut = Some cmd \<and> poll_send_fut rounds t fut (sy_state s) = Some (p, ns, fut', st) \<and>
    (case p of SendPending \<Rightarrow> fu_pending_cmd fut' = Some cmd \<and> is_completion cmd \<and> completion (cc_inner st) = completion (cc_inner (sy_state s))
     | SendReady (Inl e) \<Rightarrow> e = SendClosed cmd \<and> completion (cc_inner st) = completion (cc_inner (sy_state s))
     | SendReady (Inr outcome) \<Rightarrow> \<exists>now. try_send now cmd (cc_inner (sy_state s)) = (Inr outcome, cc_inner st))"
proof -
  have inv: "ctl_inv lost s" by (rule ctl_reach_inv [OF assms(2,1)])
  then have ok: "ctl_ok (waiters_in (sy_state s))" by (simp add: ctl_inv_def)
  have key: "set_option (fu_waiter_key fut) \<subseteq> parked_in (sy_state s)" using inv assms(3) unfolding ctl_inv_def sends_ok_def by auto
  obtain cmd where cmd: "fu_pending_cmd fut = Some cmd" using inv assms(3) unfolding ctl_inv_def sends_ok_def by blast
  show ?thesis
  proof (cases rule: poll_fut_cases [OF ok key assms(4) cmd assms(5), where t = t, case_names sent closed waits])
    case (sent now outcome st)
    then show ?thesis using cmd by auto
  next
    case (closed now st)
    have "completion (cc_inner st) = completion (cc_inner (sy_state s))" using fifo_send [OF closed(3)] by (cases cmd) auto
    then show ?thesis using closed(1) cmd by simp
  next
    case (waits k st)
    then show ?thesis using cmd by (simp add: rest_same_def)
  qed
qed

theorem poll_returns_witness:
  "\<exists>p ns fut' st. poll_send_fut calm_rounds 10 (parked_fut 2 0) (sy_state two_waiting) = Some (p, ns, fut', st)"
proof -
  have "sy_sends two_waiting 0 = Some (parked_fut 2 0)" using two_waiting_facts(2) by simp
  moreover have "ctl_room (waiters_in (sy_state two_waiting))" using two_waiting_facts(4) by (simp add: ctl_room_def two_wait_waiters_def)
  moreover have "timers_ok calm_rounds" by (simp add: timers_ok_def calm_rounds_def)
  ultimately show ?thesis using poll_returns [OF one_slot_wf two_waiting_facts(1), of 0 "parked_fut 2 0" calm_rounds 10] by blast
qed

text \<open>
  C38. Blocked sends see a forced shutdown. In every history, a queued send sleeps until the
  deadline at which the shutdown can be forced, and once the channel is closed no send is queued,
  so no blocked send depends on another call to learn that its command is refused.\<close>

theorem blocked_sends_see_shutdown:
  assumes "config_wf c" "ctl_reach c lost s" "sy_sends s n = Some fut" "fu_waiter_key fut = Some k" "k \<in> queued_in (sy_state s)"
  shows "\<not> ci_closed (cc_inner (sy_state s)) \<and>
    (case next_deadline (cc_inner (sy_state s)) of Some d \<Rightarrow> fu_deadline_sleep fut = Some d | None \<Rightarrow> True)"
proof -
  have inv: "ctl_inv lost s" by (rule ctl_reach_inv [OF assms(2,1)])
  have "\<not> ci_closed (cc_inner (sy_state s))" using inv assms(5) unfolding ctl_inv_def served_ok_def by blast
  moreover have "fu_deadline_sleep fut = Some d" if "next_deadline (cc_inner (sy_state s)) = Some d" for d
    using inv assms(3-5) that unfolding ctl_inv_def sleeps_ok_def by blast
  ultimately show ?thesis by (simp split: option.split)
qed

theorem blocked_sends_see_shutdown_witness: "\<not> ci_closed (cc_inner (sy_state two_waiting))"
proof -
  have "sy_sends two_waiting 1 = Some (parked_fut 3 1)" "fu_waiter_key (parked_fut 3 1) = Some (WaiterKey 1 1)"
    using two_waiting_facts(2) by (simp_all add: parked_fut_def)
  then show ?thesis using blocked_sends_see_shutdown [OF one_slot_wf two_waiting_facts(1), of 1] two_waiting_facts(4) two_wait_sets(1) by simp
qed

end
