(* ===== verification/Mpsc_Channel.thy ===== *)
theory Mpsc_Channel
  imports Mpsc_Waiters
begin

section \<open>The data channel\<close>

text \<open>
  The single-threaded bounded channel of \<^verbatim>\<open>crates/channel/src/mpsc.rs\<close>: the channel state, its
  senders and receiver, and the two futures. Every operation returns, besides its answer, the tasks
  it wakes. A \<^verbatim>\<open>SendFuture\<close> is a value; polling it returns the future it leaves behind, and a
  future polled after completion panics, which is the value \<^term>\<open>None\<close>.
\<close>

datatype 'a mpsc_send_error = SendFull 'a | SendClosed 'a

fun send_error_inner :: "'a mpsc_send_error \<Rightarrow> 'a" where
  "send_error_inner (SendFull v) = v"
| "send_error_inner (SendClosed v) = v"

datatype recv_error = RecvClosed | RecvEmpty

datatype 'r poll = Pending | Ready 'r

record 'a channel_state =
  cs_buffer :: "'a list"
  cs_capacity :: nat
  cs_reserved :: nat
  cs_closed :: bool
  cs_senders :: nat
  cs_has_receiver :: bool
  cs_receiver_waker :: "task option"
  cs_waiters :: "sender_waiters option"

record 'a send_future =
  sf_value :: "'a option"
  sf_key :: "waiter_key option"

definition new_channel :: "nat \<Rightarrow> 'a channel_state" where
  "new_channel capacity =
     \<lparr>cs_buffer = [], cs_capacity = capacity, cs_reserved = 0, cs_closed = False, cs_senders = 1,
      cs_has_receiver = True, cs_receiver_waker = None, cs_waiters = None\<rparr>"

definition grant_one_sender_waiter :: "'a channel_state \<Rightarrow> task list \<times> 'a channel_state" where
  "grant_one_sender_waiter st =
     (if cs_closed st \<or> length (cs_buffer st) + cs_reserved st \<ge> cs_capacity st then ([], st)
      else case cs_waiters st of
        None \<Rightarrow> ([], st)
      | Some w \<Rightarrow>
          (case reserve_one w of
             (None, w') \<Rightarrow> ([], st\<lparr>cs_waiters := Some w'\<rparr>)
           | (Some t, w') \<Rightarrow>
               ([t], st\<lparr>cs_waiters := Some w', cs_reserved := cs_reserved st + 1\<rparr>)))"

definition wake_all_sender_waiters :: "'a channel_state \<Rightarrow> task list \<times> 'a channel_state" where
  "wake_all_sender_waiters st =
     (case cs_waiters st of
        None \<Rightarrow> ([], st)
      | Some w \<Rightarrow> let (ts, w') = wake_all w in (ts, st\<lparr>cs_waiters := Some w'\<rparr>))"

definition register_or_refresh_sender_waiter ::
  "waiter_key option \<Rightarrow> task \<Rightarrow> 'a channel_state \<Rightarrow> waiter_key option \<times> 'a channel_state" where
  "register_or_refresh_sender_waiter ko t st =
     (let w = (case cs_waiters st of Some w \<Rightarrow> w | None \<Rightarrow> new_waiters);
          (ko', w') = register_or_refresh ko t w
      in (ko', st\<lparr>cs_waiters := Some w'\<rparr>))"

definition unregister_sender_waiter :: "waiter_key \<Rightarrow> 'a channel_state \<Rightarrow> task list \<times> 'a channel_state" where
  "unregister_sender_waiter k st =
     (case cs_waiters st of
        None \<Rightarrow> ([], st)
      | Some w \<Rightarrow>
          let (held, w') = unregister k w; st' = st\<lparr>cs_waiters := Some w'\<rparr>
          in if held then grant_one_sender_waiter (st'\<lparr>cs_reserved := cs_reserved st - 1\<rparr>)
             else ([], st'))"

definition consume_sender_reservation :: "waiter_key \<Rightarrow> 'a channel_state \<Rightarrow> bool \<times> 'a channel_state" where
  "consume_sender_reservation k st =
     (case cs_waiters st of
        None \<Rightarrow> (False, st)
      | Some w \<Rightarrow>
          let (held, w') = consume_reservation k w; st' = st\<lparr>cs_waiters := Some w'\<rparr>
          in if held then (True, st'\<lparr>cs_reserved := cs_reserved st - 1\<rparr>) else (False, st'))"

definition wake_receiver :: "'a channel_state \<Rightarrow> task list \<times> 'a channel_state" where
  \<comment> \<open>\<^verbatim>\<open>if let Some(waker) = state.receiver_waker.take() { waker.wake() }\<close>\<close>
  "wake_receiver st =
     (case cs_receiver_waker st of None \<Rightarrow> [] | Some t \<Rightarrow> [t], st\<lparr>cs_receiver_waker := None\<rparr>)"

definition clone_sender :: "'a channel_state \<Rightarrow> 'a channel_state" where
  "clone_sender st = st\<lparr>cs_senders := cs_senders st + 1\<rparr>"

definition drop_sender :: "'a channel_state \<Rightarrow> task list \<times> 'a channel_state" where
  "drop_sender st =
     (let st1 = st\<lparr>cs_senders := cs_senders st - 1\<rparr>
      in if cs_senders st1 = 0 then wake_receiver (st1\<lparr>cs_closed := True\<rparr>) else ([], st1))"

definition drop_receiver :: "'a channel_state \<Rightarrow> task list \<times> 'a channel_state" where
  "drop_receiver st = wake_all_sender_waiters (st\<lparr>cs_has_receiver := False, cs_closed := True\<rparr>)"

definition send :: "'a \<Rightarrow> 'a channel_state \<Rightarrow> ('a mpsc_send_error + unit) \<times> task list \<times> 'a channel_state" where
  "send v st =
     (if cs_closed st \<or> \<not> cs_has_receiver st then (Inl (SendClosed v), [], st)
      else if length (cs_buffer st) + cs_reserved st \<ge> cs_capacity st then (Inl (SendFull v), [], st)
      else let (ts, st') = wake_receiver (st\<lparr>cs_buffer := cs_buffer st @ [v]\<rparr>)
           in (Inr (), ts, st'))"

definition send_async ::
  "'a \<Rightarrow> 'a channel_state \<Rightarrow>
     ('a mpsc_send_error + unit) poll \<times> 'a send_future option \<times> task list \<times> 'a channel_state" where
  \<comment> \<open>up to the point where the future is awaited\<close>
  "send_async v st =
     (case send v st of
        (Inr u, ts, st') \<Rightarrow> (Ready (Inr u), None, ts, st')
      | (Inl (SendFull v'), ts, st') \<Rightarrow>
          (Pending, Some \<lparr>sf_value = Some v', sf_key = None\<rparr>, ts, clone_sender st')
      | (Inl e, ts, st') \<Rightarrow> (Ready (Inl e), None, ts, st'))"

definition close_channel :: "'a channel_state \<Rightarrow> task list \<times> 'a channel_state" where
  "close_channel st =
     (let (ts1, st1) = wake_receiver (st\<lparr>cs_closed := True\<rparr>);
          (ts2, st2) = wake_all_sender_waiters st1
      in (ts1 @ ts2, st2))"

definition try_recv :: "'a channel_state \<Rightarrow> (recv_error + 'a) \<times> task list \<times> 'a channel_state" where
  "try_recv st =
     (case cs_buffer st of
        v # rest \<Rightarrow>
          let st1 = st\<lparr>cs_buffer := rest\<rparr>;
              (ts, st2) = (if length rest = cs_capacity st1 - 1 \<or> rest = []
                           then grant_one_sender_waiter st1 else ([], st1))
          in (Inr v, ts, st2)
      | [] \<Rightarrow> (if cs_closed st then Inl RecvClosed else Inl RecvEmpty, [], st))"

definition poll_recv ::
  "task \<Rightarrow> 'a channel_state \<Rightarrow> (recv_error + 'a) poll \<times> task list \<times> 'a channel_state" where
  "poll_recv t st =
     (case try_recv st of
        (Inr v, ts, st') \<Rightarrow> (Ready (Inr v), ts, st')
      | (Inl RecvEmpty, ts, st') \<Rightarrow>
          (Pending, ts,
           if cs_receiver_waker st' = Some t then st' else st'\<lparr>cs_receiver_waker := Some t\<rparr>)
      | (Inl e, ts, st') \<Rightarrow> (Ready (Inl e), ts, st'))"

definition channel_is_empty :: "'a channel_state \<Rightarrow> bool" where
  "channel_is_empty st \<longleftrightarrow> cs_buffer st = []"

definition channel_is_closed :: "'a channel_state \<Rightarrow> bool" where
  "channel_is_closed st \<longleftrightarrow> cs_closed st"

definition release_key :: "waiter_key option \<Rightarrow> 'a channel_state \<Rightarrow> task list \<times> 'a channel_state" where
  \<comment> \<open>\<^verbatim>\<open>if let Some(key) = this.waiter_key.take() { state.unregister_sender_waiter(key) }\<close>\<close>
  "release_key ko st = (case ko of None \<Rightarrow> ([], st) | Some k \<Rightarrow> unregister_sender_waiter k st)"

definition drop_send_future :: "'a send_future \<Rightarrow> 'a channel_state \<Rightarrow> task list \<times> 'a channel_state" where
  \<comment> \<open>\<^verbatim>\<open>SendFuture::drop\<close>, then the drop of its \<^verbatim>\<open>sender\<close> field\<close>
  "drop_send_future fut st =
     (let (ts1, st1) = release_key (sf_key fut) st; (ts2, st2) = drop_sender st1
      in (ts1 @ ts2, st2))"

definition poll_send_value ::
  "'a \<Rightarrow> waiter_key option \<Rightarrow> task \<Rightarrow> 'a channel_state \<Rightarrow>
     ('a mpsc_send_error + unit) poll \<times> task list \<times> 'a send_future \<times> 'a channel_state" where
  "poll_send_value v key t st =
     (if cs_closed st \<or> \<not> cs_has_receiver st then
        let (ts, st1) = release_key key st
        in (Ready (Inl (SendClosed v)), ts, \<lparr>sf_value = None, sf_key = None\<rparr>, st1)
      else
        let (owns_slot, st1) =
              (case key of None \<Rightarrow> (False, st) | Some k \<Rightarrow> consume_sender_reservation k st)
        in if \<not> owns_slot \<and> length (cs_buffer st1) + cs_reserved st1 \<ge> cs_capacity st1 then
             let (key', st2) = register_or_refresh_sender_waiter key t st1
             in (Pending, [], \<lparr>sf_value = Some v, sf_key = key'\<rparr>, st2)
           else
             let st2 = st1\<lparr>cs_buffer := cs_buffer st1 @ [v]\<rparr>;
                 (ts1, st3) = release_key key st2;
                 (ts2, st4) = (if cs_reserved st3 = 0 then grant_one_sender_waiter st3 else ([], st3));
                 (ts3, st5) = wake_receiver st4
             in (Ready (Inr ()), ts1 @ ts2 @ ts3, \<lparr>sf_value = None, sf_key = None\<rparr>, st5))"

definition poll_send ::
  "'a send_future \<Rightarrow> task \<Rightarrow> 'a channel_state \<Rightarrow>
     (('a mpsc_send_error + unit) poll \<times> task list \<times> 'a send_future \<times> 'a channel_state) option" where
  "poll_send fut t st =
     (case sf_value fut of
        None \<Rightarrow> None
      | Some v \<Rightarrow> Some (poll_send_value v (sf_key fut) t st))"

subsection \<open>Accounting of reservations\<close>

definition waiters_of :: "'a channel_state \<Rightarrow> sender_waiters" where
  "waiters_of st = (case cs_waiters st of None \<Rightarrow> new_waiters | Some w \<Rightarrow> w)"

abbreviation "blocked st \<equiv> waiting (waiters_of st)"
abbreviation "grants st \<equiv> granted (waiters_of st)"
abbreviation "parked st \<equiv> regd (waiters_of st)"

definition chan_ok :: "'a channel_state \<Rightarrow> bool" where
  "chan_ok st \<longleftrightarrow> waiters_wf (waiters_of st) \<and> cs_reserved st = card (grants st) \<and>
     length (cs_buffer st) + cs_reserved st \<le> cs_capacity st"

definition same_chan :: "'a channel_state \<Rightarrow> 'a channel_state \<Rightarrow> bool" where
  "same_chan st st' \<longleftrightarrow> st' = st\<lparr>cs_waiters := cs_waiters st', cs_reserved := cs_reserved st'\<rparr>"

lemma same_chanD:
  assumes "same_chan st st'"
  shows "cs_buffer st' = cs_buffer st" "cs_capacity st' = cs_capacity st" "cs_closed st' = cs_closed st"
    "cs_senders st' = cs_senders st" "cs_has_receiver st' = cs_has_receiver st"
    "cs_receiver_waker st' = cs_receiver_waker st"
  by (subst assms [unfolded same_chan_def], simp)+

lemma same_chan_refl [simp]: "same_chan st st"
  by (simp add: same_chan_def)

lemma same_chan_trans: "same_chan a b \<Longrightarrow> same_chan b c \<Longrightarrow> same_chan a c"
  by (cases a; cases b; cases c) (auto simp: same_chan_def)

lemma same_chan_update [simp]:
  "same_chan st (st\<lparr>cs_waiters := w\<rparr>)" "same_chan st (st\<lparr>cs_reserved := r\<rparr>)"
  "same_chan st (st\<lparr>cs_waiters := w, cs_reserved := r\<rparr>)"
  by (cases st; simp add: same_chan_def)+

lemma waiters_of_simps [simp]:
  "cs_waiters st = Some w \<Longrightarrow> waiters_of st = w"
  "waiters_of (st\<lparr>cs_waiters := Some w\<rparr>) = w"
  "waiters_of (st\<lparr>cs_reserved := r\<rparr>) = waiters_of st"
  "waiters_of (st\<lparr>cs_buffer := b\<rparr>) = waiters_of st"
  "waiters_of (st\<lparr>cs_closed := c\<rparr>) = waiters_of st"
  "waiters_of (st\<lparr>cs_senders := n\<rparr>) = waiters_of st"
  "waiters_of (st\<lparr>cs_has_receiver := h\<rparr>) = waiters_of st"
  "waiters_of (st\<lparr>cs_receiver_waker := k\<rparr>) = waiters_of st"
  by (simp_all add: waiters_of_def)

lemma waiters_of_None: "cs_waiters st = None \<Longrightarrow> waiters_of st = new_waiters"
  by (simp add: waiters_of_def)

lemma chan_ok_frame:
  "chan_ok st \<Longrightarrow> waiters_of st' = waiters_of st \<Longrightarrow> cs_reserved st' = cs_reserved st \<Longrightarrow>
     cs_capacity st' = cs_capacity st \<Longrightarrow> length (cs_buffer st') \<le> length (cs_buffer st) \<Longrightarrow> chan_ok st'"
  by (simp add: chan_ok_def)

lemma grant_law:
  assumes "chan_ok st" "grant_one_sender_waiter st = (ts, st')"
  shows "chan_ok st'" "same_chan st st'" "parked st' = parked st" "blocked st' \<subseteq> blocked st"
    "grants st \<subseteq> grants st'"
    "\<not> cs_closed st \<Longrightarrow> length (cs_buffer st) + cs_reserved st < cs_capacity st \<Longrightarrow>
       blocked st' \<noteq> {} \<Longrightarrow> 0 < cs_reserved st'"
proof -
  have "chan_ok st' \<and> same_chan st st' \<and> parked st' = parked st \<and> blocked st' \<subseteq> blocked st \<and>
    grants st \<subseteq> grants st' \<and>
    (\<not> cs_closed st \<longrightarrow> length (cs_buffer st) + cs_reserved st < cs_capacity st \<longrightarrow>
       blocked st' \<noteq> {} \<longrightarrow> 0 < cs_reserved st')"
  proof (cases "cs_closed st \<or> cs_capacity st \<le> length (cs_buffer st) + cs_reserved st")
    case True
    with assms show ?thesis by (auto simp: grant_one_sender_waiter_def)
  next
    case room: False
    show ?thesis
    proof (cases "cs_waiters st")
      case None
      with assms room show ?thesis by (auto simp: grant_one_sender_waiter_def waiters_of_None)
    next
      case (Some w)
      have wf: "waiters_wf w" using assms(1) Some by (simp add: chan_ok_def)
      obtain t w' where r: "reserve_one w = (t, w')" by force
      show ?thesis
      proof (cases t)
        case None
        with assms room Some r mw.reserve_None [OF wf] show ?thesis
          by (auto simp: grant_one_sender_waiter_def chan_ok_def)
      next
        case (Some u)
        with r have r': "reserve_one w = (Some u, w')" by simp
        have st': "st' = st\<lparr>cs_waiters := Some w', cs_reserved := cs_reserved st + 1\<rparr>"
          using assms(2) room \<open>cs_waiters st = Some w\<close> r'
          by (auto simp: grant_one_sender_waiter_def)
        show ?thesis
          using mw.reserve_Some [OF wf r'] mw.reserve_card [OF wf r'] assms(1) room \<open>cs_waiters st = Some w\<close>
          by (auto simp: chan_ok_def st')
      qed
    qed
  qed
  then show "chan_ok st'" "same_chan st st'" "parked st' = parked st" "blocked st' \<subseteq> blocked st"
    "grants st \<subseteq> grants st'"
    "\<not> cs_closed st \<Longrightarrow> length (cs_buffer st) + cs_reserved st < cs_capacity st \<Longrightarrow>
       blocked st' \<noteq> {} \<Longrightarrow> 0 < cs_reserved st'" by blast+
qed

lemma wake_all_sender_law:
  assumes "chan_ok st" "wake_all_sender_waiters st = (ts, st')"
  shows "chan_ok st' \<and> same_chan st st' \<and> parked st' = parked st \<and> blocked st' = {} \<and>
    grants st' = grants st \<and> cs_reserved st' = cs_reserved st"
proof (cases "cs_waiters st")
  case None
  with assms show ?thesis by (auto simp: wake_all_sender_waiters_def waiters_of_None)
next
  case (Some w)
  have wf: "waiters_wf w" using assms(1) Some by (simp add: chan_ok_def)
  obtain us w' where r: "wake_all w = (us, w')" by force
  show ?thesis
    using mw.wake_all [OF wf r] mw.granted_wake_all [OF wf r] assms Some r
    by (auto simp: wake_all_sender_waiters_def chan_ok_def)
qed

lemma register_sender_law:
  assumes "chan_ok st" "register_or_refresh_sender_waiter ko t st = (ko', st')"
    and "\<And>k. ko = Some k \<Longrightarrow> k \<in> parked st - grants st"
  obtains k where "ko' = Some k" "ko = None \<Longrightarrow> k \<notin> parked st" "ko \<noteq> None \<Longrightarrow> ko' = ko"
    "chan_ok st'" "same_chan st st'" "parked st' = insert k (parked st)"
    "blocked st' = insert k (blocked st)" "grants st' = grants st" "cs_reserved st' = cs_reserved st"
proof -
  obtain w' where r: "register_or_refresh ko t (waiters_of st) = (ko', w')"
    and st': "st' = st\<lparr>cs_waiters := Some w'\<rparr>"
    using assms(2) by (auto simp: register_or_refresh_sender_waiter_def waiters_of_def
        split: prod.splits option.splits)
  have wf: "waiters_wf (waiters_of st)" using assms(1) by (simp add: chan_ok_def)
  have g: "granted w' = grants st"
    using mw.granted_refresh [OF wf r] assms(3) by blast
  show thesis
  proof (cases ko)
    case None
    with r mw.enter_None [OF wf] obtain k where k: "ko' = Some k" "k \<notin> parked st" "waiters_wf w'"
      "regd w' = insert k (parked st)" "waiting w' = insert k (blocked st)"
      by metis
    show thesis
      by (rule that [of k]) (use k g assms(1) None in \<open>simp_all add: st' chan_ok_def\<close>)
  next
    case (Some k)
    with assms(3) have "k \<in> requeue (waiters_of st)" using mw.requeue_eq [OF wf] by blast
    from mw.refresh [OF wf this] r Some have k: "ko' = Some k" "waiters_wf w'"
      "regd w' = parked st" "waiting w' = insert k (blocked st)" by metis+
    have "k \<in> parked st" using assms(3) Some by blast
    then show thesis
      by (intro that [of k]) (use k g assms(1) Some in \<open>simp_all add: st' chan_ok_def insert_absorb\<close>)
  qed
qed

lemma consume_sender_law:
  assumes "chan_ok st" "consume_sender_reservation k st = (b, st')"
  shows "b = (k \<in> grants st)" "chan_ok st'" "same_chan st st'" "parked st' = parked st"
    "blocked st' = blocked st" "grants st' = grants st - {k}"
    "cs_reserved st = cs_reserved st' + of_bool b"
proof -
  have "b = (k \<in> grants st) \<and> chan_ok st' \<and> same_chan st st' \<and> parked st' = parked st \<and>
    blocked st' = blocked st \<and> grants st' = grants st - {k} \<and> cs_reserved st = cs_reserved st' + of_bool b"
  proof (cases "cs_waiters st")
    case None
    with assms show ?thesis by (auto simp: consume_sender_reservation_def waiters_of_None)
  next
    case (Some w)
    have wf: "waiters_wf w" using assms(1) Some by (simp add: chan_ok_def)
    obtain w' where r: "consume_reservation k w = (b, w')"
      using assms(2) Some by (auto simp: consume_sender_reservation_def Let_def split: prod.splits if_splits)
    have st': "st' = (if b then st\<lparr>cs_waiters := Some w', cs_reserved := cs_reserved st - 1\<rparr>
        else st\<lparr>cs_waiters := Some w'\<rparr>)"
      using assms(2) Some r by (auto simp: consume_sender_reservation_def Let_def split: if_splits)
    show ?thesis
      using mw.consume [OF wf r] mw.consume_card [OF wf, of k w'] assms(1) Some r
      by (cases b) (auto simp: st' chan_ok_def)
  qed
  then show "b = (k \<in> grants st)" "chan_ok st'" "same_chan st st'" "parked st' = parked st"
    "blocked st' = blocked st" "grants st' = grants st - {k}"
    "cs_reserved st = cs_reserved st' + of_bool b" by blast+
qed

lemma unregister_sender_law:
  assumes "chan_ok st" "unregister_sender_waiter k st = (ts, st')"
  shows "chan_ok st'" "same_chan st st'" "parked st' = parked st - {k}" "blocked st' \<subseteq> blocked st"
    "grants st - {k} \<subseteq> grants st'"
    "k \<notin> grants st \<Longrightarrow> cs_reserved st' = cs_reserved st \<and> ts = []"
    "k \<in> grants st \<Longrightarrow> \<not> cs_closed st \<Longrightarrow> blocked st' \<noteq> {} \<Longrightarrow> 0 < cs_reserved st'"
proof -
  have "chan_ok st' \<and> same_chan st st' \<and> parked st' = parked st - {k} \<and> blocked st' \<subseteq> blocked st \<and>
    grants st - {k} \<subseteq> grants st' \<and> (k \<notin> grants st \<longrightarrow> cs_reserved st' = cs_reserved st \<and> ts = []) \<and>
    (k \<in> grants st \<longrightarrow> \<not> cs_closed st \<longrightarrow> blocked st' \<noteq> {} \<longrightarrow> 0 < cs_reserved st')"
  proof (cases "cs_waiters st")
    case None
    with assms show ?thesis by (auto simp: unregister_sender_waiter_def waiters_of_None)
  next
    case (Some w)
    have wf: "waiters_wf w" using assms(1) Some by (simp add: chan_ok_def)
    obtain b w' where r: "unregister k w = (b, w')" by force
    note u = unregister_law [OF wf, of k, unfolded r, simplified]
    have c: "card (granted w) = card (granted w') + of_bool (k \<in> granted w)"
      using mw.leave_card [OF wf, of k] r by simp
    define st1 where "st1 = st\<lparr>cs_waiters := Some w', cs_reserved := card (granted w')\<rparr>"
    have ok1: "chan_ok st1" using assms(1) Some u c by (auto simp: st1_def chan_ok_def)
    have "st\<lparr>cs_waiters := Some w', cs_reserved := cs_reserved st - 1\<rparr> = st1" if b
      using assms(1) Some u(1) c that by (simp add: st1_def chan_ok_def)
    moreover have "st\<lparr>cs_waiters := Some w'\<rparr> = st1" if "\<not> b"
      using assms(1) Some u(1) c that by (simp add: st1_def chan_ok_def)
    ultimately have e: "(ts, st') = (if b then grant_one_sender_waiter st1 else ([], st1))"
      using assms(2) Some r by (auto simp: unregister_sender_waiter_def Let_def)
    show ?thesis
    proof (cases b)
      case False
      with e have "ts = []" "st' = st1" by simp_all
      moreover have sets: "parked st1 = parked st - {k}" "blocked st1 \<subseteq> blocked st"
        "grants st1 = grants st - {k}"
        using u(3-5) Some by (auto simp: st1_def)
      moreover have "k \<notin> grants st" "cs_reserved st1 = cs_reserved st"
        using False u(1) Some c assms(1) by (simp_all add: st1_def chan_ok_def)
      moreover have "same_chan st st1" by (simp add: st1_def)
      ultimately show ?thesis using ok1 by simp
    next
      case True
      with e have g: "grant_one_sender_waiter st1 = (ts, st')" by simp
      note g = grant_law [OF ok1 g]
      have room: "length (cs_buffer st1) + cs_reserved st1 < cs_capacity st1"
        using True u(1) c assms(1) Some by (simp add: st1_def chan_ok_def)
      have sets: "parked st1 = parked st - {k}" "blocked st1 \<subseteq> blocked st"
        "grants st1 = grants st - {k}" "k \<in> grants st" "cs_closed st1 = cs_closed st"
        using u Some True by (auto simp: st1_def)
      have "same_chan st st'" by (rule same_chan_trans [OF _ g(2)]) (simp add: st1_def)
      moreover have "parked st' = parked st - {k}" using g(3) sets(1) by (rule trans)
      moreover have "blocked st' \<subseteq> blocked st" using g(4) sets(2) by (rule subset_trans)
      moreover have "grants st - {k} \<subseteq> grants st'" using g(5) unfolding sets(3) .
      moreover have "\<not> cs_closed st \<longrightarrow> blocked st' \<noteq> {} \<longrightarrow> 0 < cs_reserved st'"
        using g(6) room sets(5) by blast
      ultimately show ?thesis using g(1) sets(4) by blast
    qed
  qed
  then show "chan_ok st'" "same_chan st st'" "parked st' = parked st - {k}" "blocked st' \<subseteq> blocked st"
    "grants st - {k} \<subseteq> grants st'"
    "k \<notin> grants st \<Longrightarrow> cs_reserved st' = cs_reserved st \<and> ts = []"
    "k \<in> grants st \<Longrightarrow> \<not> cs_closed st \<Longrightarrow> blocked st' \<noteq> {} \<Longrightarrow> 0 < cs_reserved st'" by blast+
qed

subsection \<open>Senders, receiver and futures sharing a channel\<close>

text \<open>
  A channel with the handles that exist for it: \<open>ms_handles\<close> live senders, the receiver (alive as
  long as \<^const>\<open>cs_has_receiver\<close>), and the pending send futures by name. Operations on handles that
  do not exist cannot be written in the source language; they are answered \<open>AInvalid\<close> and change
  nothing. Answers carry the values that entered or left the buffer.
\<close>

record 'a mpsc_sys =
  ms_chan :: "'a channel_state"
  ms_futs :: "nat \<Rightarrow> 'a send_future option"
  ms_handles :: nat

datatype 'a mpsc_op =
    MSend 'a
  | MSendAsync nat 'a
  | MPollSend nat task
  | MDropSend nat
  | MTryRecv
  | MPollRecv task
  | MClose
  | MCloneSender
  | MDropSender
  | MDropReceiver

datatype 'a mpsc_answer =
    AInvalid
  | APanic
  | ADone
  | ASend 'a "('a mpsc_send_error + unit) poll"
  | ARecv "(recv_error + 'a) poll"

definition new_mpsc :: "nat \<Rightarrow> 'a mpsc_sys" where
  "new_mpsc capacity = \<lparr>ms_chan = new_channel capacity, ms_futs = Map.empty, ms_handles = 1\<rparr>"

definition with_sender ::
  "('a mpsc_sys \<Rightarrow> ('a mpsc_answer \<times> task list) \<times> 'a mpsc_sys) \<Rightarrow> 'a mpsc_sys \<Rightarrow>
     ('a mpsc_answer \<times> task list) \<times> 'a mpsc_sys" where
  "with_sender f s = (if ms_handles s = 0 then ((AInvalid, []), s) else f s)"

definition with_receiver ::
  "('a mpsc_sys \<Rightarrow> ('a mpsc_answer \<times> task list) \<times> 'a mpsc_sys) \<Rightarrow> 'a mpsc_sys \<Rightarrow>
     ('a mpsc_answer \<times> task list) \<times> 'a mpsc_sys" where
  "with_receiver f s = (if \<not> cs_has_receiver (ms_chan s) then ((AInvalid, []), s) else f s)"

fun exec_mpsc :: "'a mpsc_op \<Rightarrow> 'a mpsc_sys \<Rightarrow> ('a mpsc_answer \<times> task list) \<times> 'a mpsc_sys" where
  "exec_mpsc (MSend v) s = with_sender (\<lambda>s.
     let (r, ts, st) = send v (ms_chan s) in ((ASend v (Ready r), ts), s\<lparr>ms_chan := st\<rparr>)) s"
| "exec_mpsc (MSendAsync f v) s = with_sender (\<lambda>s.
     if ms_futs s f \<noteq> None then ((AInvalid, []), s)
     else let (r, fut, ts, st) = send_async v (ms_chan s)
          in ((ASend v r, ts), s\<lparr>ms_chan := st, ms_futs := (ms_futs s)(f := fut)\<rparr>)) s"
| "exec_mpsc (MPollSend f t) s =
     (case ms_futs s f of
        None \<Rightarrow> ((AInvalid, []), s)
      | Some fut \<Rightarrow>
          (case poll_send fut t (ms_chan s) of
             None \<Rightarrow> ((APanic, []), s)
           | Some (r, ts, fut', st) \<Rightarrow>
               ((ASend (the (sf_value fut)) r, ts),
                s\<lparr>ms_chan := st, ms_futs := (ms_futs s)(f \<mapsto> fut')\<rparr>)))"
| "exec_mpsc (MDropSend f) s =
     (case ms_futs s f of
        None \<Rightarrow> ((AInvalid, []), s)
      | Some fut \<Rightarrow>
          let (ts, st) = drop_send_future fut (ms_chan s)
          in ((ADone, ts), s\<lparr>ms_chan := st, ms_futs := (ms_futs s)(f := None)\<rparr>))"
| "exec_mpsc MTryRecv s = with_receiver (\<lambda>s.
     let (r, ts, st) = try_recv (ms_chan s) in ((ARecv (Ready r), ts), s\<lparr>ms_chan := st\<rparr>)) s"
| "exec_mpsc (MPollRecv t) s = with_receiver (\<lambda>s.
     let (r, ts, st) = poll_recv t (ms_chan s) in ((ARecv r, ts), s\<lparr>ms_chan := st\<rparr>)) s"
| "exec_mpsc MClose s = with_sender (\<lambda>s.
     let (ts, st) = close_channel (ms_chan s) in ((ADone, ts), s\<lparr>ms_chan := st\<rparr>)) s"
| "exec_mpsc MCloneSender s = with_sender (\<lambda>s.
     ((ADone, []), s\<lparr>ms_chan := clone_sender (ms_chan s), ms_handles := ms_handles s + 1\<rparr>)) s"
| "exec_mpsc MDropSender s = with_sender (\<lambda>s.
     let (ts, st) = drop_sender (ms_chan s)
     in ((ADone, ts), s\<lparr>ms_chan := st, ms_handles := ms_handles s - 1\<rparr>)) s"
| "exec_mpsc MDropReceiver s = with_receiver (\<lambda>s.
     let (ts, st) = drop_receiver (ms_chan s) in ((ADone, ts), s\<lparr>ms_chan := st\<rparr>)) s"

inductive mpsc_reach :: "nat \<Rightarrow> 'a mpsc_sys \<Rightarrow> bool" for capacity where
  mpsc_init: "mpsc_reach capacity (new_mpsc capacity)"
| mpsc_step: "mpsc_reach capacity s \<Longrightarrow> exec_mpsc c s = (r, s') \<Longrightarrow> mpsc_reach capacity s'"

subsection \<open>The invariant of a shared channel\<close>

definition live_ok :: "'a channel_state \<Rightarrow> bool" where
  "live_ok st \<longleftrightarrow>
     (cs_closed st \<longrightarrow> blocked st = {}) \<and>
     (0 < cs_capacity st \<longrightarrow> blocked st \<noteq> {} \<longrightarrow> 0 < cs_reserved st \<or> cs_buffer st \<noteq> []) \<and>
     (cs_has_receiver st \<longrightarrow> cs_receiver_waker st \<noteq> None \<longrightarrow> cs_buffer st = [] \<and> \<not> cs_closed st) \<and>
     (\<not> cs_has_receiver st \<longrightarrow> cs_closed st)"

definition fut_keys :: "(nat \<Rightarrow> 'a send_future option) \<Rightarrow> waiter_key set" where
  "fut_keys F = {k. \<exists>f fut. F f = Some fut \<and> sf_key fut = Some k}"

definition futs_ok :: "(nat \<Rightarrow> 'a send_future option) \<Rightarrow> bool" where
  "futs_ok F \<longleftrightarrow> finite (dom F) \<and>
     (\<forall>f fut. F f = Some fut \<longrightarrow> sf_value fut = None \<longrightarrow> sf_key fut = None) \<and>
     (\<forall>f g fut fut' k. F f = Some fut \<longrightarrow> F g = Some fut' \<longrightarrow> sf_key fut = Some k \<longrightarrow>
        sf_key fut' = Some k \<longrightarrow> f = g)"

definition mpsc_inv :: "'a mpsc_sys \<Rightarrow> bool" where
  "mpsc_inv s \<longleftrightarrow> chan_ok (ms_chan s) \<and> live_ok (ms_chan s) \<and> futs_ok (ms_futs s) \<and>
     parked (ms_chan s) = fut_keys (ms_futs s) \<and>
     cs_senders (ms_chan s) = ms_handles s + card (dom (ms_futs s)) \<and>
     (cs_senders (ms_chan s) = 0 \<longrightarrow> cs_closed (ms_chan s))"

lemma new_mpsc_inv: "mpsc_inv (new_mpsc capacity)"
  by (simp add: mpsc_inv_def new_mpsc_def new_channel_def chan_ok_def live_ok_def futs_ok_def
      fut_keys_def waiters_of_def)

lemma release_key_law:
  assumes "chan_ok st" "release_key ko st = (ts, st')"
  shows "chan_ok st'" "same_chan st st'" "parked st' = parked st - set_option ko"
    "blocked st' \<subseteq> blocked st" "set_option ko \<inter> grants st = {} \<Longrightarrow> cs_reserved st' = cs_reserved st"
    "set_option ko \<inter> grants st \<noteq> {} \<Longrightarrow> \<not> cs_closed st \<Longrightarrow> blocked st' \<noteq> {} \<Longrightarrow> 0 < cs_reserved st'"
  using assms unregister_sender_law [OF assms(1)] by (cases ko; simp add: release_key_def)+

lemma live_ok_release:
  assumes "chan_ok st" "live_ok st" "release_key ko st = (ts, st')"
  shows "live_ok st'"
proof -
  note r = release_key_law [OF assms(1,3)] and s = same_chanD [OF release_key_law(2) [OF assms(1,3)]]
  have "0 < cs_reserved st' \<or> cs_buffer st' \<noteq> []" if "0 < cs_capacity st'" "blocked st' \<noteq> {}"
  proof (cases "set_option ko \<inter> grants st = {}")
    case True
    with r(4,5) that assms(2) show ?thesis unfolding live_ok_def s by auto
  next
    case False
    have "blocked st \<noteq> {}" using that(2) r(4) by blast
    with assms(2) have "\<not> cs_closed st" by (auto simp: live_ok_def)
    with r(6) False that(2) show ?thesis by blast
  qed
  with assms(2) r(4) show ?thesis unfolding live_ok_def s by blast
qed

definition consume_opt :: "waiter_key option \<Rightarrow> 'a channel_state \<Rightarrow> bool \<times> 'a channel_state" where
  "consume_opt ko st = (case ko of None \<Rightarrow> (False, st) | Some k \<Rightarrow> consume_sender_reservation k st)"

lemma consume_opt_law:
  assumes "chan_ok st" "consume_opt ko st = (b, st')"
  shows "b = (set_option ko \<inter> grants st \<noteq> {})" "chan_ok st'" "same_chan st st'" "parked st' = parked st"
    "blocked st' = blocked st" "grants st' = grants st - set_option ko"
    "cs_reserved st = cs_reserved st' + of_bool b"
  using assms consume_sender_law [OF assms(1)] by (cases ko; simp add: consume_opt_def)+

subsection \<open>Every operation keeps the invariant\<close>

lemma wake_receiver_eq:
  "wake_receiver st = (ts, st') \<Longrightarrow> st' = st\<lparr>cs_receiver_waker := None\<rparr>"
  by (simp add: wake_receiver_def)

lemma chan_ok_simps [simp]:
  "chan_ok (st\<lparr>cs_receiver_waker := t\<rparr>) = chan_ok st"
  "chan_ok (st\<lparr>cs_closed := c\<rparr>) = chan_ok st"
  "chan_ok (st\<lparr>cs_senders := n\<rparr>) = chan_ok st"
  "chan_ok (st\<lparr>cs_has_receiver := h\<rparr>) = chan_ok st"
  by (simp_all add: chan_ok_def)

lemma live_ok_senders [simp]: "live_ok (st\<lparr>cs_senders := n\<rparr>) = live_ok st"
  by (simp add: live_ok_def)

lemma send_law:
  assumes "chan_ok st" "live_ok st" "send v st = (r, ts, st')"
  shows "chan_ok st'" "live_ok st'" "parked st' = parked st" "cs_senders st' = cs_senders st"
    "cs_closed st' = cs_closed st" "cs_has_receiver st' = cs_has_receiver st"
    "cs_buffer st' = cs_buffer st @ (if r = Inr () then [v] else [])"
  using assms
  by (auto simp: send_def wake_receiver_def chan_ok_def live_ok_def split: if_splits)

lemma try_recv_law:
  assumes "chan_ok st" "live_ok st" "try_recv st = (r, ts, st')"
  shows "chan_ok st' \<and> live_ok st' \<and> parked st' = parked st \<and> cs_senders st' = cs_senders st \<and>
    cs_closed st' = cs_closed st \<and> cs_has_receiver st' = cs_has_receiver st \<and>
    cs_receiver_waker st' = cs_receiver_waker st \<and>
    (case r of Inr v \<Rightarrow> cs_buffer st = v # cs_buffer st' | Inl e \<Rightarrow> st' = st \<and> cs_buffer st = []) \<and>
    (r = Inl RecvEmpty \<longrightarrow> \<not> cs_closed st)"
proof (cases "cs_buffer st")
  case Nil
  with assms show ?thesis by (auto simp: try_recv_def)
next
  case (Cons v rest)
  define st1 where "st1 = st\<lparr>cs_buffer := rest\<rparr>"
  have ok1: "chan_ok st1" using assms(1) Cons by (simp add: st1_def chan_ok_def)
  have sel: "cs_closed st1 = cs_closed st" "cs_has_receiver st1 = cs_has_receiver st"
    "cs_senders st1 = cs_senders st" "cs_receiver_waker st1 = cs_receiver_waker st"
    "cs_capacity st1 = cs_capacity st" "cs_buffer st1 = rest" "parked st1 = parked st"
    "blocked st1 = blocked st"
    by (simp_all add: st1_def)
  have rx: "\<not> (cs_has_receiver st \<and> cs_receiver_waker st \<noteq> None)"
    using assms(2) Cons by (auto simp: live_ok_def)
  show ?thesis
  proof (cases "length rest = cs_capacity st1 - 1 \<or> rest = []")
    case True
    with assms(3) Cons have r: "r = Inr v" and g0: "grant_one_sender_waiter st1 = (ts, st')"
      by (auto simp: try_recv_def st1_def Let_def split: prod.splits)
    note g = grant_law [OF ok1 g0] and s = same_chanD [OF grant_law(2) [OF ok1 g0], unfolded sel]
    have "0 < cs_reserved st' \<or> rest \<noteq> []" if b: "blocked st' \<noteq> {}"
    proof (rule ccontr)
      assume n: "\<not> (0 < cs_reserved st' \<or> rest \<noteq> [])"
      have "blocked st \<noteq> {}" using b g(4) unfolding sel by blast
      then have "\<not> cs_closed st" using assms(2) by (auto simp: live_ok_def)
      moreover have "length (cs_buffer st1) + cs_reserved st1 < cs_capacity st1"
        using assms(1) Cons by (simp add: st1_def chan_ok_def)
      ultimately show False using g(6) b n unfolding sel by blast
    qed
    moreover have "cs_closed st \<longrightarrow> blocked st' = {}"
      using assms(2) g(4) unfolding sel live_ok_def by blast
    moreover have "\<not> cs_has_receiver st \<longrightarrow> cs_closed st" using assms(2) by (simp add: live_ok_def)
    ultimately have "live_ok st'" unfolding live_ok_def s using rx by blast
    then show ?thesis using g(1,3) s r Cons sel by simp
  next
    case False
    with assms(3) Cons have "r = Inr v" "st' = st1"
      by (auto simp: try_recv_def st1_def Let_def)
    moreover have "live_ok st1"
      using assms(2) Cons False rx by (auto simp: live_ok_def sel)
    ultimately show ?thesis using ok1 Cons sel by simp
  qed
qed

lemma poll_recv_law:
  assumes "chan_ok st" "live_ok st" "poll_recv t st = (r, ts, st')"
  shows "chan_ok st' \<and> live_ok st' \<and> parked st' = parked st \<and> cs_senders st' = cs_senders st \<and>
    cs_closed st' = cs_closed st \<and> cs_has_receiver st' = cs_has_receiver st \<and>
    cs_buffer st = (case r of Ready (Inr v) \<Rightarrow> v # cs_buffer st' | _ \<Rightarrow> cs_buffer st')"
proof -
  obtain r1 ts1 st1 where e: "try_recv st = (r1, ts1, st1)" by (cases "try_recv st")
  note l = try_recv_law [OF assms(1,2) e]
  show ?thesis
  proof (cases r1)
    case (Inr v)
    with assms(3) e have "r = Ready (Inr v)" "st' = st1" by (auto simp: poll_recv_def)
    then show ?thesis using l Inr by simp
  next
    case (Inl err)
    show ?thesis
    proof (cases err)
      case RecvClosed
      with assms(3) e Inl have "r = Ready (Inl RecvClosed)" "st' = st1" by (auto simp: poll_recv_def)
      then show ?thesis using l Inl assms(1,2) by simp
    next
      case RecvEmpty
      with l Inl have st1: "st1 = st" "cs_buffer st = []" "\<not> cs_closed st" by simp_all
      with assms(3) e Inl RecvEmpty have "r = Pending"
        "st' = (if cs_receiver_waker st = Some t then st else st\<lparr>cs_receiver_waker := Some t\<rparr>)"
        by (auto simp: poll_recv_def)
      moreover have "live_ok (st\<lparr>cs_receiver_waker := Some t\<rparr>)"
        using assms(2) st1 by (auto simp: live_ok_def)
      ultimately show ?thesis using assms(1,2) st1 by simp
    qed
  qed
qed

lemma close_law:
  assumes "chan_ok st" "live_ok st" "close_channel st = (ts, st')"
  shows "chan_ok st' \<and> live_ok st' \<and> parked st' = parked st \<and> cs_senders st' = cs_senders st \<and>
    cs_closed st' \<and> cs_buffer st' = cs_buffer st \<and> blocked st' = {} \<and> cs_has_receiver st' = cs_has_receiver st"
proof -
  define st1 where "st1 = st\<lparr>cs_closed := True, cs_receiver_waker := None\<rparr>"
  obtain us where w: "wake_all_sender_waiters st1 = (us, st')"
    using assms(3) by (auto simp: close_channel_def wake_receiver_def st1_def split: prod.splits)
  have "chan_ok st1" using assms(1) by (simp add: st1_def chan_ok_def)
  note l = wake_all_sender_law [OF this w]
  then have s: "same_chan st1 st'" by simp
  show ?thesis using l unfolding live_ok_def same_chanD [OF s] by (simp add: st1_def)
qed

lemma drop_receiver_law:
  assumes "chan_ok st" "drop_receiver st = (ts, st')"
  shows "chan_ok st' \<and> live_ok st' \<and> parked st' = parked st \<and> cs_senders st' = cs_senders st \<and>
    cs_closed st' \<and> cs_buffer st' = cs_buffer st"
proof -
  define st1 where "st1 = st\<lparr>cs_has_receiver := False, cs_closed := True\<rparr>"
  have w: "wake_all_sender_waiters st1 = (ts, st')"
    using assms(2) by (simp add: drop_receiver_def st1_def)
  have "chan_ok st1" using assms(1) by (simp add: st1_def chan_ok_def)
  note l = wake_all_sender_law [OF this w]
  then have s: "same_chan st1 st'" by simp
  show ?thesis using l unfolding live_ok_def same_chanD [OF s] by (simp add: st1_def)
qed

lemma drop_sender_law:
  assumes "chan_ok st" "live_ok st" "drop_sender st = (ts, st')" "cs_senders st = 1 \<longrightarrow> parked st = {}"
    and "0 < cs_senders st"
  shows "chan_ok st' \<and> live_ok st' \<and> parked st' = parked st \<and> cs_senders st' = cs_senders st - 1 \<and>
    (cs_senders st' = 0 \<longrightarrow> cs_closed st') \<and> cs_buffer st' = cs_buffer st"
proof (cases "cs_senders st - 1 = 0")
  case False
  with assms(3) have "st' = st\<lparr>cs_senders := cs_senders st - 1\<rparr>" by (simp add: drop_sender_def)
  with assms(1,2) False show ?thesis by simp
next
  case True
  with assms(3) have st': "st' = st\<lparr>cs_senders := 0, cs_closed := True, cs_receiver_waker := None\<rparr>"
    by (auto simp: drop_sender_def wake_receiver_def)
  from True assms(5) have "cs_senders st = 1" by simp
  with assms(4) have "parked st = {}" by simp
  moreover have "blocked st \<subseteq> parked st" using assms(1) mw.waiting_regd by (simp add: chan_ok_def)
  ultimately have "blocked st = {}" by simp
  then show ?thesis using assms(1,2) True by (auto simp: st' live_ok_def)
qed

lemma poll_send_value_closed:
  assumes "chan_ok st" "live_ok st" "cs_closed st \<or> \<not> cs_has_receiver st"
    and "poll_send_value v key t st = (r, ts, fut, st')"
  shows "r = Ready (Inl (SendClosed v))" "fut = \<lparr>sf_value = None, sf_key = None\<rparr>" "chan_ok st'"
    "live_ok st'" "parked st' = parked st - set_option key" "same_chan st st'"
proof -
  obtain us where k: "release_key key st = (us, st')" and r: "r = Ready (Inl (SendClosed v))"
    "fut = \<lparr>sf_value = None, sf_key = None\<rparr>"
    using assms(3,4) by (auto simp: poll_send_value_def split: prod.splits)
  show "r = Ready (Inl (SendClosed v))" "fut = \<lparr>sf_value = None, sf_key = None\<rparr>" by (fact r)+
  show "chan_ok st'" "same_chan st st'" "parked st' = parked st - set_option key"
    by (rule release_key_law [OF assms(1) k])+
  show "live_ok st'" by (rule live_ok_release [OF assms(1,2) k])
qed

lemma poll_send_value_pending:
  assumes "chan_ok st" "live_ok st" "\<not> cs_closed st" "cs_has_receiver st" "set_option key \<subseteq> parked st"
    and "set_option key \<inter> grants st = {}" "cs_capacity st \<le> length (cs_buffer st) + cs_reserved st"
    and "poll_send_value v key t st = (r, ts, fut, st')"
  obtains k where "r = Pending" "fut = \<lparr>sf_value = Some v, sf_key = Some k\<rparr>" "chan_ok st'" "live_ok st'"
    "parked st' = insert k (parked st)" "k \<in> blocked st'" "same_chan st st'"
    "key = None \<Longrightarrow> k \<notin> parked st" "key \<noteq> None \<Longrightarrow> key = Some k"
proof -
  obtain b st1 where c: "consume_opt key st = (b, st1)" by force
  note c' = consume_opt_law [OF assms(1) c] and s1 = same_chanD [OF consume_opt_law(3) [OF assms(1) c]]
  have b: "\<not> b" using c'(1) assms(6) by simp
  with c'(7) have res: "cs_reserved st1 = cs_reserved st" by simp
  obtain key' st2 where g: "register_or_refresh_sender_waiter key t st1 = (key', st2)" by force
  have r: "r = Pending" "fut = \<lparr>sf_value = Some v, sf_key = key'\<rparr>" "st' = st2"
    using assms(3,4,7,8) c b g res s1 by (auto simp: poll_send_value_def consume_opt_def)
  have "\<And>k. key = Some k \<Longrightarrow> k \<in> parked st1 - grants st1"
    using assms(5,6) c'(4,6) by auto
  from register_sender_law [OF c'(2) g this] obtain k where k: "key' = Some k"
    "key = None \<Longrightarrow> k \<notin> parked st1" "key \<noteq> None \<Longrightarrow> key' = key" "chan_ok st2" "same_chan st1 st2"
    "parked st2 = insert k (parked st1)" "blocked st2 = insert k (blocked st1)"
    "cs_reserved st2 = cs_reserved st1" by metis
  have s2: "same_chan st st2" by (rule same_chan_trans [OF c'(3) k(5)])
  have "live_ok st2"
    unfolding live_ok_def same_chanD [OF s2] k(8) res
    using assms(2,3,4,7) by (auto simp: live_ok_def)
  then show thesis using r k c'(4) s2 by (intro that [of k]) auto
qed

lemma poll_send_value_sent:
  assumes "chan_ok st" "live_ok st" "\<not> cs_closed st" "cs_has_receiver st"
    and "set_option key \<inter> grants st \<noteq> {} \<or> length (cs_buffer st) + cs_reserved st < cs_capacity st"
    and "poll_send_value v key t st = (r, ts, fut, st')"
  shows "r = Ready (Inr ())" "fut = \<lparr>sf_value = None, sf_key = None\<rparr>" "chan_ok st'" "live_ok st'"
    "parked st' = parked st - set_option key" "cs_buffer st' = cs_buffer st @ [v]"
    "cs_closed st' = cs_closed st" "cs_senders st' = cs_senders st"
proof -
  obtain b st1 where c: "consume_opt key st = (b, st1)" by force
  note c' = consume_opt_law [OF assms(1) c] and s1 = same_chanD [OF consume_opt_law(3) [OF assms(1) c]]
  define st2 where "st2 = st1\<lparr>cs_buffer := cs_buffer st1 @ [v]\<rparr>"
  obtain ts1 st3 where r3: "release_key key st2 = (ts1, st3)" by force
  obtain ts2 st4 where g4: "(if cs_reserved st3 = 0 then grant_one_sender_waiter st3 else ([], st3)) = (ts2, st4)"
    by (cases "if cs_reserved st3 = 0 then grant_one_sender_waiter st3 else ([], st3)")
  have room: "b \<or> length (cs_buffer st1) + cs_reserved st1 < cs_capacity st1"
    using assms(5) c'(1,7) s1 by auto
  have r: "r = Ready (Inr ())" "fut = \<lparr>sf_value = None, sf_key = None\<rparr>"
    "st' = st4\<lparr>cs_receiver_waker := None\<rparr>"
    using assms(3,4,6) c room r3 g4
    by (auto simp: poll_send_value_def consume_opt_def wake_receiver_def st2_def split: prod.splits)
  have len: "length (cs_buffer st) + cs_reserved st \<le> cs_capacity st" using assms(1) by (simp add: chan_ok_def)
  have ok2: "chan_ok st2"
    using c'(2,7) room len s1 by (cases b) (auto simp: st2_def chan_ok_def)
  note r3' = release_key_law [OF ok2 r3]
  have ok4: "chan_ok st4" and same4: "same_chan st3 st4" and parked4: "parked st4 = parked st3"
    using g4 r3'(1) grant_law(1-3) [OF r3'(1)] by (auto split: if_splits)
  have s4: "same_chan st2 st4" by (rule same_chan_trans [OF r3'(2) same4])
  have sel: "cs_buffer st4 = cs_buffer st @ [v]" "cs_closed st4 = cs_closed st"
    "cs_senders st4 = cs_senders st" "cs_has_receiver st4 = cs_has_receiver st"
    using same_chanD [OF s4] s1 by (simp_all add: st2_def)
  show "r = Ready (Inr ())" "fut = \<lparr>sf_value = None, sf_key = None\<rparr>" by (fact r)+
  show "chan_ok st'" using ok4 by (simp add: r)
  show "live_ok st'" using assms(3,4) sel by (simp add: r live_ok_def)
  show "parked st' = parked st - set_option key"
    using parked4 r3'(3) c'(4) by (simp add: r st2_def)
  show "cs_buffer st' = cs_buffer st @ [v]" "cs_closed st' = cs_closed st" "cs_senders st' = cs_senders st"
    by (simp_all add: r sel)
qed

definition key_of :: "'a send_future option \<Rightarrow> waiter_key set" where
  "key_of fo = (case fo of None \<Rightarrow> {} | Some fut \<Rightarrow> set_option (sf_key fut))"

lemma key_of_simps [simp]: "key_of None = {}" "key_of (Some fut) = set_option (sf_key fut)"
  by (simp_all add: key_of_def)

lemma fut_keys_key_of: "fut_keys F = (\<Union>f. key_of (F f))"
  by (auto simp: fut_keys_def key_of_def split: option.splits) (metis option.set_intros option.simps(5))+

lemma futs_ok_disjoint: "futs_ok F \<Longrightarrow> f \<noteq> g \<Longrightarrow> key_of (F f) \<inter> key_of (F g) = {}"
  by (fastforce simp: futs_ok_def key_of_def split: option.splits)

lemma fut_keys_remove:
  assumes "futs_ok F"
  shows "fut_keys (F(f := None)) = fut_keys F - key_of (F f)"
proof -
  have "fut_keys (F(f := None)) = (\<Union>g \<in> - {f}. key_of (F g))"
    by (auto simp: fut_keys_key_of split: if_splits)
  moreover have "x \<notin> key_of (F f)" if "x \<in> key_of (F g)" "g \<noteq> f" for x g
    using futs_ok_disjoint [OF assms that(2)] that(1) by blast
  ultimately show ?thesis by (auto simp: fut_keys_key_of)
qed

lemma futs_ok_remove: "futs_ok F \<Longrightarrow> futs_ok (F(f := None))"
  by (auto simp: futs_ok_def)

lemma fut_keys_set:
  assumes "futs_ok F"
  shows "fut_keys (F(f := fo)) = (fut_keys F - key_of (F f)) \<union> key_of fo"
proof -
  have "fut_keys (F(f := fo)) = fut_keys (F(f := None)) \<union> key_of fo"
    by (auto simp: fut_keys_key_of split: if_splits)
  then show ?thesis by (simp add: fut_keys_remove [OF assms])
qed

lemma futs_ok_set:
  assumes "futs_ok F" "sf_value fut = None \<longrightarrow> sf_key fut = None"
    and "set_option (sf_key fut) \<inter> (fut_keys F - key_of (F f)) = {}"
  shows "futs_ok (F(f \<mapsto> fut))"
proof -
  have new: "sf_key fut' \<noteq> Some k" if "sf_key fut = Some k" "F g = Some fut'" "g \<noteq> f" for g fut' k
  proof
    assume k: "sf_key fut' = Some k"
    then have "k \<in> key_of (F g)" using that(2) by simp
    moreover from this have "k \<notin> key_of (F f)" using futs_ok_disjoint [OF assms(1) that(3)] by blast
    ultimately have "k \<in> fut_keys F - key_of (F f)" by (auto simp: fut_keys_key_of)
    with assms(3) that(1) show False by simp
  qed
  show ?thesis unfolding futs_ok_def
  proof (intro conjI allI impI)
    show "finite (dom (F(f \<mapsto> fut)))" using assms(1) by (simp add: futs_ok_def)
  next
    fix g fut' assume "(F(f \<mapsto> fut)) g = Some fut'" "sf_value fut' = None"
    then show "sf_key fut' = None" using assms(1,2) by (auto simp: futs_ok_def split: if_splits)
  next
    fix g h a b k
    assume "(F(f \<mapsto> fut)) g = Some a" "(F(f \<mapsto> fut)) h = Some b" "sf_key a = Some k" "sf_key b = Some k"
    then show "g = h" using assms(1) new by (auto simp: futs_ok_def split: if_splits)
  qed
qed

lemma card_dom_set:
  "finite (dom F) \<Longrightarrow> F f = Some fut \<Longrightarrow> card (dom (F(f \<mapsto> fut'))) = card (dom F)"
  "finite (dom F) \<Longrightarrow> F f = None \<Longrightarrow> card (dom (F(f \<mapsto> fut'))) = Suc (card (dom F))"
  "finite (dom F) \<Longrightarrow> F f = Some fut \<Longrightarrow> card (dom F) = Suc (card (dom (F(f := None))))"
proof -
  assume "F f = Some fut"
  then have "dom (F(f \<mapsto> fut')) = dom F" by auto
  then show "card (dom (F(f \<mapsto> fut'))) = card (dom F)" by simp
next
  assume "finite (dom F)" "F f = None"
  moreover from this have "f \<notin> dom F" by auto
  ultimately show "card (dom (F(f \<mapsto> fut'))) = Suc (card (dom F))" by simp
next
  assume "finite (dom F)" "F f = Some fut"
  then show "card (dom F) = Suc (card (dom (F(f := None))))"
    using card.remove [of "dom F" f] by (simp add: domIff)
qed

lemma inv_chan_step:
  assumes "mpsc_inv s" "chan_ok st'" "live_ok st'" "parked st' = parked (ms_chan s)"
    "cs_senders st' = cs_senders (ms_chan s)" "cs_closed (ms_chan s) \<longrightarrow> cs_closed st'"
  shows "mpsc_inv (s\<lparr>ms_chan := st'\<rparr>)"
  using assms by (simp add: mpsc_inv_def)

lemma poll_send_cases:
  assumes inv: "mpsc_inv s" and fut: "ms_futs s f = Some fut" "sf_value fut = Some v"
    and p: "poll_send_value v (sf_key fut) t (ms_chan s) = (r, ts, fut', st')"
  obtains
    (closed) "cs_closed (ms_chan s)" "r = Ready (Inl (SendClosed v))" "sf_value fut' = None" "sf_key fut' = None"
      "chan_ok st'" "live_ok st'" "parked st' = parked (ms_chan s) - set_option (sf_key fut)"
      "same_chan (ms_chan s) st'"
  | (pending) k where "\<not> cs_closed (ms_chan s)" "r = Pending" "sf_value fut' = Some v" "sf_key fut' = Some k"
      "chan_ok st'" "live_ok st'" "parked st' = insert k (parked (ms_chan s))"
      "same_chan (ms_chan s) st'" "sf_key fut = None \<Longrightarrow> k \<notin> parked (ms_chan s)"
      "sf_key fut \<noteq> None \<Longrightarrow> sf_key fut = Some k" "k \<in> blocked st'"
      "set_option (sf_key fut) \<inter> grants (ms_chan s) = {}"
  | (sent) "\<not> cs_closed (ms_chan s)" "r = Ready (Inr ())" "sf_value fut' = None" "sf_key fut' = None"
      "chan_ok st'" "live_ok st'" "parked st' = parked (ms_chan s) - set_option (sf_key fut)"
      "cs_buffer st' = cs_buffer (ms_chan s) @ [v]" "cs_closed st' = cs_closed (ms_chan s)"
      "cs_senders st' = cs_senders (ms_chan s)"
proof -
  let ?st = "ms_chan s"
  have ok: "chan_ok ?st" "live_ok ?st" using inv by (simp_all add: mpsc_inv_def)
  have rx: "\<not> cs_has_receiver ?st \<Longrightarrow> cs_closed ?st" using ok(2) by (auto simp: live_ok_def)
  have key: "set_option (sf_key fut) \<subseteq> parked ?st"
    using inv fut(1) by (auto simp: mpsc_inv_def fut_keys_def)
  show thesis
  proof (cases "cs_closed ?st")
    case True
    then show thesis using poll_send_value_closed [OF ok _ p] by (intro closed) auto
  next
    case open_: False
    with rx have h: "cs_has_receiver ?st" by blast
    show thesis
    proof (cases "set_option (sf_key fut) \<inter> grants ?st = {} \<and>
        cs_capacity ?st \<le> length (cs_buffer ?st) + cs_reserved ?st")
      case True
      with poll_send_value_pending [OF ok open_ h key _ _ p] obtain k where
        "r = Pending" "fut' = \<lparr>sf_value = Some v, sf_key = Some k\<rparr>" "chan_ok st'" "live_ok st'"
        "parked st' = insert k (parked ?st)" "k \<in> blocked st'" "same_chan ?st st'"
        "sf_key fut = None \<Longrightarrow> k \<notin> parked ?st" "sf_key fut \<noteq> None \<Longrightarrow> sf_key fut = Some k"
        by blast
      with True open_ show thesis by (intro pending [of k]) simp_all
    next
      case False
      then have "set_option (sf_key fut) \<inter> grants ?st \<noteq> {} \<or>
          length (cs_buffer ?st) + cs_reserved ?st < cs_capacity ?st" by auto
      from poll_send_value_sent [OF ok open_ h this p] open_ show thesis by (intro sent) simp_all
    qed
  qed
qed

lemma inv_poll_send:
  assumes inv: "mpsc_inv s" and fut: "ms_futs s f = Some fut" "sf_value fut = Some v"
    and p: "poll_send_value v (sf_key fut) t (ms_chan s) = (r, ts, fut', st')"
  shows "mpsc_inv (s\<lparr>ms_chan := st', ms_futs := (ms_futs s)(f \<mapsto> fut')\<rparr>)"
proof -
  let ?F = "ms_futs s" and ?st = "ms_chan s"
  have F: "futs_ok ?F" "parked ?st = fut_keys ?F" "finite (dom ?F)"
    "cs_senders ?st = ms_handles s + card (dom ?F)" "cs_senders ?st = 0 \<longrightarrow> cs_closed ?st"
    using inv by (simp_all add: mpsc_inv_def futs_ok_def)
  note card = card_dom_set(1) [OF F(3) fut(1)] and keys = fut_keys_set [OF F(1), of f "Some fut'"]
  have kF: "key_of (?F f) \<subseteq> fut_keys ?F" by (auto simp: fut_keys_key_of)
  from inv fut p show ?thesis
  proof (cases rule: poll_send_cases)
    case closed
    then have "futs_ok (?F(f \<mapsto> fut'))" by (intro futs_ok_set [OF F(1)]) simp_all
    with closed F card keys fut same_chanD [OF closed(8)] show ?thesis by (simp add: mpsc_inv_def)
  next
    case (pending k)
    have "set_option (sf_key fut') \<inter> (fut_keys ?F - key_of (?F f)) = {}"
      using pending(4,9,10) F(2) fut(1) by (cases "sf_key fut") auto
    then have "futs_ok (?F(f \<mapsto> fut'))" by (intro futs_ok_set [OF F(1)]) (simp_all add: pending)
    moreover have "fut_keys (?F(f \<mapsto> fut')) = insert k (fut_keys ?F)"
      using keys pending(4,9,10) kF F(2) fut(1) by (cases "sf_key fut") auto
    ultimately show ?thesis
      using pending F card same_chanD [OF pending(8)] by (simp add: mpsc_inv_def)
  next
    case sent
    then have "futs_ok (?F(f \<mapsto> fut'))" by (intro futs_ok_set [OF F(1)]) simp_all
    with sent F card keys fut show ?thesis by (simp add: mpsc_inv_def)
  qed
qed

lemma inv_drop_send:
  assumes inv: "mpsc_inv s" and fut: "ms_futs s f = Some fut"
    and d: "drop_send_future fut (ms_chan s) = (ts, st')"
  shows "mpsc_inv (s\<lparr>ms_chan := st', ms_futs := (ms_futs s)(f := None)\<rparr>) \<and>
    cs_buffer st' = cs_buffer (ms_chan s)"
proof -
  let ?F = "ms_futs s" and ?st = "ms_chan s"
  have F: "futs_ok ?F" "parked ?st = fut_keys ?F" "finite (dom ?F)"
    "cs_senders ?st = ms_handles s + card (dom ?F)" and ok: "chan_ok ?st" "live_ok ?st"
    using inv by (simp_all add: mpsc_inv_def futs_ok_def)
  obtain ts1 st1 ts2 where r: "release_key (sf_key fut) ?st = (ts1, st1)" and ds: "drop_sender st1 = (ts2, st')"
    using d by (auto simp: drop_send_future_def split: prod.splits)
  note r' = release_key_law [OF ok(1) r] and s1 = same_chanD [OF release_key_law(2) [OF ok(1) r]]
  have live1: "live_ok st1" by (rule live_ok_release [OF ok r])
  have keys: "fut_keys (?F(f := None)) = parked st1"
    using fut_keys_remove [OF F(1), of f] r'(3) F(2) fut by simp
  have card: "card (dom ?F) = Suc (card (dom (?F(f := None))))" by (rule card_dom_set(3) [OF F(3) fut])
  have "cs_senders st1 = 1 \<longrightarrow> parked st1 = {}"
  proof
    assume "cs_senders st1 = 1"
    then have "card (dom (?F(f := None))) = 0" using F(4) card s1 by simp
    then have "dom (?F(f := None)) = {}" using F(3) by simp
    then have "?F(f := None) = Map.empty" by (rule dom_eq_empty_conv [THEN iffD1])
    then show "parked st1 = {}" unfolding keys [symmetric] by (simp add: fut_keys_def)
  qed
  moreover have "0 < cs_senders st1" using F(4) card s1 by simp
  ultimately have "chan_ok st' \<and> live_ok st' \<and> parked st' = parked st1 \<and> cs_senders st' = cs_senders st1 - 1 \<and>
    (cs_senders st' = 0 \<longrightarrow> cs_closed st') \<and> cs_buffer st' = cs_buffer st1"
    by (rule drop_sender_law [OF r'(1) live1 ds])
  then show ?thesis using futs_ok_remove [OF F(1)] keys F(4) card s1 by (simp add: mpsc_inv_def)
qed

lemma inv_send_async:
  assumes inv: "mpsc_inv s" and new: "ms_futs s f = None"
    and a: "send_async v (ms_chan s) = (r, fo, ts, st')"
  shows "mpsc_inv (s\<lparr>ms_chan := st', ms_futs := (ms_futs s)(f := fo)\<rparr>) \<and>
    cs_buffer st' = cs_buffer (ms_chan s) @ (if r = Ready (Inr ()) then [v] else [])"
proof -
  let ?F = "ms_futs s" and ?st = "ms_chan s"
  have F: "futs_ok ?F" "finite (dom ?F)" and ok: "chan_ok ?st" "live_ok ?st"
    using inv by (simp_all add: mpsc_inv_def futs_ok_def)
  obtain r1 ts1 st1 where sd: "send v ?st = (r1, ts1, st1)" by (cases "send v ?st")
  note l = send_law [OF ok sd]
  have same: "?F(f := None) = ?F" using new by auto
  show ?thesis
  proof (cases "\<exists>v'. r1 = Inl (SendFull v')")
    case True
    then obtain v' where r1: "r1 = Inl (SendFull v')" by blast
    have st: "fo = Some \<lparr>sf_value = Some v', sf_key = None\<rparr>" "st' = clone_sender st1" "r = Pending"
      using a sd r1 by (auto simp: send_async_def)
    have "futs_ok (?F(f := fo))" unfolding st by (rule futs_ok_set [OF F(1)]) simp_all
    moreover have "fut_keys (?F(f := fo)) = fut_keys ?F"
      using fut_keys_set [OF F(1), of f fo] new by (simp add: st)
    ultimately show ?thesis using inv l r1 card_dom_set(2) [OF F(2) new]
      by (simp add: mpsc_inv_def st clone_sender_def)
  next
    case False
    then have "fo = None" "st' = st1" "r = Ready r1"
      using a sd by (auto simp: send_async_def split: sum.splits mpsc_send_error.splits)
    then show ?thesis using inv l same by (simp add: mpsc_inv_def)
  qed
qed

fun mpsc_in :: "'a mpsc_op \<Rightarrow> 'a mpsc_answer \<times> task list \<Rightarrow> 'a list" where
  \<comment> \<open>the values a call put into the buffer\<close>
  "mpsc_in c (ASend v (Ready (Inr u)), ts) = [v]"
| "mpsc_in c (_, ts) = []"

fun mpsc_out :: "'a mpsc_answer \<times> task list \<Rightarrow> 'a list" where
  \<comment> \<open>the values a call took out of it\<close>
  "mpsc_out (ARecv (Ready (Inr v)), ts) = [v]"
| "mpsc_out (_, ts) = []"

lemma mpsc_in_ASend: "mpsc_in c (ASend v r, ts) = (if r = Ready (Inr ()) then [v] else [])"
proof (cases r)
  case (Ready x)
  then show ?thesis by (cases x) simp_all
qed simp

lemma mpsc_out_ARecv: "mpsc_out (ARecv r, ts) = (case r of Ready (Inr v) \<Rightarrow> [v] | _ \<Rightarrow> [])"
  by (auto split: poll.splits sum.splits)

lemma exec_mpsc_law:
  assumes "mpsc_inv s" "exec_mpsc c s = (r, s')"
  shows "mpsc_inv s' \<and> cs_buffer (ms_chan s) @ mpsc_in c r = mpsc_out r @ cs_buffer (ms_chan s')"
proof -
  let ?st = "ms_chan s"
  have ok: "chan_ok ?st" "live_ok ?st" using assms(1) by (simp_all add: mpsc_inv_def)
  have F: "futs_ok (ms_futs s)" "finite (dom (ms_futs s))" using assms(1) by (simp_all add: mpsc_inv_def futs_ok_def)
  show ?thesis
  proof (cases c)
    case (MSend v)
    show ?thesis
    proof (cases "ms_handles s = 0")
      case False
      obtain a ts st' where sd: "send v ?st = (a, ts, st')" by (cases "send v ?st")
      note l = send_law [OF ok sd]
      have "mpsc_inv (s\<lparr>ms_chan := st'\<rparr>)" by (rule inv_chan_step) (use assms(1) l in simp_all)
      with assms(2) MSend False sd l(7) show ?thesis by (auto simp: with_sender_def mpsc_in_ASend)
    qed (use assms MSend in \<open>auto simp: with_sender_def\<close>)
  next
    case (MSendAsync f v)
    show ?thesis
    proof (cases "ms_handles s = 0 \<or> ms_futs s f \<noteq> None")
      case False
      obtain a fo ts st' where sd: "send_async v ?st = (a, fo, ts, st')" by (cases "send_async v ?st")
      with inv_send_async [OF assms(1) _ sd, of f] assms(2) MSendAsync False
      show ?thesis by (auto simp: with_sender_def mpsc_in_ASend)
    qed (use assms MSendAsync in \<open>auto simp: with_sender_def split: if_splits\<close>)
  next
    case (MPollSend f t)
    show ?thesis
    proof (cases "\<exists>fut v. ms_futs s f = Some fut \<and> sf_value fut = Some v")
      case True
      then obtain fut v where fut: "ms_futs s f = Some fut" "sf_value fut = Some v" by blast
      obtain a ts fut' st' where p: "poll_send_value v (sf_key fut) t ?st = (a, ts, fut', st')"
        by (cases "poll_send_value v (sf_key fut) t ?st")
      have b: "cs_buffer st' = cs_buffer ?st @ (if a = Ready (Inr ()) then [v] else [])"
        using assms(1) fut p by (cases rule: poll_send_cases) (simp_all add: same_chanD)
      from assms(2) MPollSend fut p have "r = (ASend v a, ts)"
        "s' = s\<lparr>ms_chan := st', ms_futs := (ms_futs s)(f \<mapsto> fut')\<rparr>" by (simp_all add: poll_send_def)
      with inv_poll_send [OF assms(1) fut p] b show ?thesis by (simp add: mpsc_in_ASend)
    next
      case False
      with assms MPollSend show ?thesis by (auto simp: poll_send_def split: option.splits)
    qed
  next
    case (MDropSend f)
    show ?thesis
    proof (cases "ms_futs s f")
      case (Some fut)
      obtain ts st' where d: "drop_send_future fut ?st = (ts, st')" by force
      with inv_drop_send [OF assms(1) Some d] assms(2) MDropSend Some show ?thesis by auto
    qed (use assms MDropSend in auto)
  next
    case MTryRecv
    show ?thesis
    proof (cases "cs_has_receiver ?st")
      case True
      obtain a ts st' where e: "try_recv ?st = (a, ts, st')" by (cases "try_recv ?st")
      note l = try_recv_law [OF ok e]
      have "mpsc_inv (s\<lparr>ms_chan := st'\<rparr>)" by (rule inv_chan_step) (use assms(1) l in simp_all)
      with assms(2) MTryRecv True e l show ?thesis
        by (auto simp: with_receiver_def mpsc_out_ARecv split: sum.splits)
    qed (use assms MTryRecv in \<open>auto simp: with_receiver_def\<close>)
  next
    case (MPollRecv t)
    show ?thesis
    proof (cases "cs_has_receiver ?st")
      case True
      obtain a ts st' where e: "poll_recv t ?st = (a, ts, st')" by (cases "poll_recv t ?st")
      note l = poll_recv_law [OF ok e]
      have "mpsc_inv (s\<lparr>ms_chan := st'\<rparr>)" by (rule inv_chan_step) (use assms(1) l in simp_all)
      with assms(2) MPollRecv True e l show ?thesis
        by (auto simp: with_receiver_def mpsc_out_ARecv split: sum.splits poll.splits)
    qed (use assms MPollRecv in \<open>auto simp: with_receiver_def\<close>)
  next
    case MClose
    show ?thesis
    proof (cases "ms_handles s = 0")
      case False
      obtain ts st' where e: "close_channel ?st = (ts, st')" by force
      note l = close_law [OF ok e]
      have "mpsc_inv (s\<lparr>ms_chan := st'\<rparr>)" by (rule inv_chan_step) (use assms(1) l in simp_all)
      with assms(2) MClose False e l show ?thesis by (auto simp: with_sender_def)
    qed (use assms MClose in \<open>auto simp: with_sender_def\<close>)
  next
    case MCloneSender
    with assms show ?thesis by (auto simp: with_sender_def clone_sender_def mpsc_inv_def split: if_splits)
  next
    case MDropSender
    show ?thesis
    proof (cases "ms_handles s = 0")
      case False
      obtain ts st' where e: "drop_sender ?st = (ts, st')" by force
      have snd: "cs_senders ?st = ms_handles s + card (dom (ms_futs s))" "parked ?st = fut_keys (ms_futs s)"
        using assms(1) by (simp_all add: mpsc_inv_def)
      have "cs_senders ?st = 1 \<longrightarrow> parked ?st = {}"
      proof
        assume "cs_senders ?st = 1"
        with snd(1) False have "card (dom (ms_futs s)) = 0" by simp
        with F(2) have "dom (ms_futs s) = {}" by simp
        then show "parked ?st = {}" unfolding snd(2) by (auto simp: fut_keys_def)
      qed
      moreover have "0 < cs_senders ?st" using snd(1) False by simp
      ultimately have "chan_ok st' \<and> live_ok st' \<and> parked st' = parked ?st \<and>
          cs_senders st' = cs_senders ?st - 1 \<and> (cs_senders st' = 0 \<longrightarrow> cs_closed st') \<and>
          cs_buffer st' = cs_buffer ?st"
        by (rule drop_sender_law [OF ok e])
      with assms MDropSender False e snd show ?thesis by (auto simp: with_sender_def mpsc_inv_def)
    qed (use assms MDropSender in \<open>auto simp: with_sender_def\<close>)
  next
    case MDropReceiver
    show ?thesis
    proof (cases "cs_has_receiver ?st")
      case True
      obtain ts st' where e: "drop_receiver ?st = (ts, st')" by force
      note l = drop_receiver_law [OF ok(1) e]
      have "mpsc_inv (s\<lparr>ms_chan := st'\<rparr>)" by (rule inv_chan_step) (use assms(1) l in simp_all)
      with assms(2) MDropReceiver True e l show ?thesis by (auto simp: with_receiver_def)
    qed (use assms MDropReceiver in \<open>auto simp: with_receiver_def\<close>)
  qed
qed

interpretation mpsc: step_system exec_mpsc mpsc_inv
  by unfold_locales (metis exec_mpsc_law prod.collapse)

interpretation mpsc_fifo: fifo_system exec_mpsc mpsc_inv "\<lambda>s. True" "\<lambda>s. cs_buffer (ms_chan s)"
    mpsc_in mpsc_out
  by unfold_locales (use exec_mpsc_law in blast)+

lemma mpsc_reach_inv: "mpsc_reach capacity s \<Longrightarrow> mpsc_inv s"
proof (induction rule: mpsc_reach.induct)
  case mpsc_init
  show ?case by (rule new_mpsc_inv)
next
  case (mpsc_step s c r s')
  then show ?case using exec_mpsc_law by blast
qed

lemma mpsc_reach_run:
  "mpsc_reach capacity s \<Longrightarrow> run_ops exec_mpsc cs s = (rs, s') \<Longrightarrow> mpsc_reach capacity s'"
proof (induction cs arbitrary: s rs)
  case (Cons c cs)
  from Cons.prems(2) obtain r s1 rs' where "exec_mpsc c s = (r, s1)" "run_ops exec_mpsc cs s1 = (rs', s')"
    by (rule run_ops_Cons)
  with Cons show ?case by (blast intro: mpsc_step)
qed simp

subsection \<open>The capacity never changes\<close>

lemma capacity_waiters [simp]:
  "grant_one_sender_waiter st = (ts, st') \<Longrightarrow> cs_capacity st' = cs_capacity st"
  "wake_all_sender_waiters st = (ts, st') \<Longrightarrow> cs_capacity st' = cs_capacity st"
  "register_or_refresh_sender_waiter ko t st = (ko', st') \<Longrightarrow> cs_capacity st' = cs_capacity st"
  "consume_sender_reservation k st = (b, st') \<Longrightarrow> cs_capacity st' = cs_capacity st"
  by (auto simp: grant_one_sender_waiter_def wake_all_sender_waiters_def Let_def
      register_or_refresh_sender_waiter_def consume_sender_reservation_def
      split: if_splits option.splits prod.splits)

lemma capacity_release [simp]:
  "release_key ko st = (ts, st') \<Longrightarrow> cs_capacity st' = cs_capacity st"
  by (auto simp: release_key_def unregister_sender_waiter_def Let_def
      split: if_splits option.splits prod.splits)

lemma capacity_chan:
  "send v st = (r, ts, st') \<Longrightarrow> cs_capacity st' = cs_capacity st"
  "send_async v st = (p, fo, ts, st') \<Longrightarrow> cs_capacity st' = cs_capacity st"
  "try_recv st = (q, ts, st') \<Longrightarrow> cs_capacity st' = cs_capacity st"
  "poll_recv t st = (u, ts, st') \<Longrightarrow> cs_capacity st' = cs_capacity st"
  "close_channel st = (ts, st') \<Longrightarrow> cs_capacity st' = cs_capacity st"
  "drop_sender st = (ts, st') \<Longrightarrow> cs_capacity st' = cs_capacity st"
  "drop_receiver st = (ts, st') \<Longrightarrow> cs_capacity st' = cs_capacity st"
  "drop_send_future fut st = (ts, st') \<Longrightarrow> cs_capacity st' = cs_capacity st"
proof -
  show s: "send v st = (r, ts, st') \<Longrightarrow> cs_capacity st' = cs_capacity st" for r ts st'
    by (auto simp: send_def wake_receiver_def split: if_splits)
  then show "send_async v st = (p, fo, ts, st') \<Longrightarrow> cs_capacity st' = cs_capacity st"
    by (auto simp: send_async_def clone_sender_def split: prod.splits sum.splits mpsc_send_error.splits)
  show r: "try_recv st = (q, ts, st') \<Longrightarrow> cs_capacity st' = cs_capacity st" for q ts st'
    by (auto simp: try_recv_def Let_def split: list.splits prod.splits if_splits)
  then show "poll_recv t st = (u, ts, st') \<Longrightarrow> cs_capacity st' = cs_capacity st"
    by (auto simp: poll_recv_def split: prod.splits sum.splits recv_error.splits if_splits)
  show "close_channel st = (ts, st') \<Longrightarrow> cs_capacity st' = cs_capacity st"
    by (auto simp: close_channel_def wake_receiver_def split: prod.splits)
  show d: "drop_sender st = (ts, st') \<Longrightarrow> cs_capacity st' = cs_capacity st" for st ts and st' :: "'a channel_state"
    by (auto simp: drop_sender_def wake_receiver_def Let_def split: if_splits)
  show "drop_receiver st = (ts, st') \<Longrightarrow> cs_capacity st' = cs_capacity st"
    by (auto simp: drop_receiver_def)
  show "drop_send_future fut st = (ts, st') \<Longrightarrow> cs_capacity st' = cs_capacity st"
    by (auto simp: drop_send_future_def split: prod.splits dest!: d)
qed

lemma capacity_poll:
  "poll_send_value v key t st = (r, ts, fut, st') \<Longrightarrow> cs_capacity st' = cs_capacity st"
  by (auto simp: poll_send_value_def Let_def wake_receiver_def
      split: if_splits prod.splits option.splits)

lemma capacity_exec: "exec_mpsc c s = (r, s') \<Longrightarrow> cs_capacity (ms_chan s') = cs_capacity (ms_chan s)"
  by (cases c) (auto simp: with_sender_def with_receiver_def poll_send_def clone_sender_def
      split: if_splits prod.splits option.splits dest: capacity_chan capacity_poll)

lemma mpsc_reach_capacity: "mpsc_reach capacity s \<Longrightarrow> cs_capacity (ms_chan s) = capacity"
  by (induction rule: mpsc_reach.induct) (simp_all add: new_mpsc_def new_channel_def capacity_exec)

subsection \<open>Properties of the data channel\<close>

lemma reach_run_new: "mpsc_reach capacity (snd (run_ops exec_mpsc cs (new_mpsc capacity)))"
  by (rule mpsc_reach_run [OF mpsc_init]) (rule prod.collapse [symmetric])

text \<open>
  A channel of capacity one with a full buffer and two blocked senders; in \<open>demo_granted\<close> the
  receiver has taken the buffered value, so that the first of them holds a reservation.
\<close>

definition demo_ops :: "nat mpsc_op list" where
  "demo_ops = [MSend 10, MSendAsync 1 20, MPollSend 1 101, MSendAsync 2 30, MPollSend 2 102]"

definition demo_blocked :: "nat mpsc_sys" where
  "demo_blocked = snd (run_ops exec_mpsc demo_ops (new_mpsc 1))"

definition demo_granted :: "nat mpsc_sys" where
  "demo_granted = snd (run_ops exec_mpsc (demo_ops @ [MTryRecv]) (new_mpsc 1))"

lemma demo_reach: "mpsc_reach 1 demo_blocked" "mpsc_reach 1 demo_granted"
  by (simp_all add: demo_blocked_def demo_granted_def reach_run_new)

lemma demo_futs:
  "ms_futs demo_blocked 1 = Some \<lparr>sf_value = Some 20, sf_key = Some (WaiterKey 0 0)\<rparr>"
  "ms_futs demo_granted 1 = Some \<lparr>sf_value = Some 20, sf_key = Some (WaiterKey 0 0)\<rparr>"
  by code_simp+

lemma demo_slots:
  "cs_waiters (ms_chan demo_blocked) = Some \<lparr>wq_queue = [WaiterKey 0 0, WaiterKey 1 1],
     wq_slots = [\<lparr>sl_generation = 0, sl_waker = Some 101, sl_in_use = True, sl_queued = True, sl_reserved = False\<rparr>,
       \<lparr>sl_generation = 1, sl_waker = Some 102, sl_in_use = True, sl_queued = True, sl_reserved = False\<rparr>],
     wq_free = [], wq_next_generation = 2\<rparr>"
  "cs_waiters (ms_chan demo_granted) = Some \<lparr>wq_queue = [WaiterKey 1 1],
     wq_slots = [\<lparr>sl_generation = 0, sl_waker = None, sl_in_use = True, sl_queued = False, sl_reserved = True\<rparr>,
       \<lparr>sl_generation = 1, sl_waker = Some 102, sl_in_use = True, sl_queued = True, sl_reserved = False\<rparr>],
     wq_free = [], wq_next_generation = 2\<rparr>"
  "cs_closed (ms_chan demo_granted) = False"
  by code_simp+

lemma demo_sets: "WaiterKey 0 0 \<in> blocked (ms_chan demo_blocked)" "WaiterKey 0 0 \<in> grants (ms_chan demo_granted)"
  by (simp_all add: demo_slots waiting_def granted_def keys_where_def)

lemma live_ok_blocked:
  assumes "live_ok st" "k \<in> blocked st"
  shows "\<not> cs_closed st" "0 < cs_capacity st \<Longrightarrow> 0 < cs_reserved st \<or> cs_buffer st \<noteq> []"
  using assms unfolding live_ok_def by blast+

lemma futs_ok_value: "futs_ok F \<Longrightarrow> F g = Some fut \<Longrightarrow> sf_key fut = Some k \<Longrightarrow> \<exists>v. sf_value fut = Some v"
  by (cases "sf_value fut") (auto simp: futs_ok_def)

lemma grants_parked:
  assumes "chan_ok st"
  shows "grants st \<subseteq> parked st"
proof -
  have "grants st \<subseteq> parked st - blocked st"
    by (rule mw.granted_regd) (use assms in \<open>simp add: chan_ok_def\<close>)
  then show ?thesis by blast
qed

text \<open>
  C17. No operation of senders, receiver, futures (cancellation included) ever loses track of the
  channel's capacity: in every reachable state the buffered values and the slots reserved for
  woken senders together fit the capacity the channel was created with, and the counter of
  reservations is exactly the number of waiters that own one.
\<close>

theorem mpsc_capacity_respected:
  assumes "mpsc_reach capacity s"
  shows "length (cs_buffer (ms_chan s)) + cs_reserved (ms_chan s) \<le> capacity \<and>
    cs_reserved (ms_chan s) = card {f. \<exists>fut k. ms_futs s f = Some fut \<and> sf_key fut = Some k \<and>
      k \<in> granted (waiters_of (ms_chan s))}"
proof (intro conjI)
  have inv: "mpsc_inv s" by (rule mpsc_reach_inv [OF assms])
  then have ok: "chan_ok (ms_chan s)" and keys: "parked (ms_chan s) = fut_keys (ms_futs s)"
    and F: "futs_ok (ms_futs s)" by (simp_all add: mpsc_inv_def)
  show "length (cs_buffer (ms_chan s)) + cs_reserved (ms_chan s) \<le> capacity"
    using ok mpsc_reach_capacity [OF assms] by (simp add: chan_ok_def)
  let ?H = "{f. \<exists>fut k. ms_futs s f = Some fut \<and> sf_key fut = Some k \<and> k \<in> grants (ms_chan s)}"
  let ?k = "\<lambda>f. the (sf_key (the (ms_futs s f)))"
  have "inj_on ?k ?H" using F by (auto simp: inj_on_def futs_ok_def)
  from card_image [OF this] have "card (?k ` ?H) = card ?H" .
  also have "?k ` ?H = grants (ms_chan s)"
  proof (intro equalityI subsetI)
    fix k assume "k \<in> ?k ` ?H"
    then show "k \<in> grants (ms_chan s)" by auto
  next
    fix k assume k: "k \<in> grants (ms_chan s)"
    then have "k \<in> fut_keys (ms_futs s)" using grants_parked [OF ok] keys by blast
    then obtain f fut where "ms_futs s f = Some fut" "sf_key fut = Some k" by (auto simp: fut_keys_def)
    with k show "k \<in> ?k ` ?H" by (intro image_eqI [of _ _ f]) auto
  qed
  finally show "cs_reserved (ms_chan s) = card ?H" using ok by (simp add: chan_ok_def)
qed

theorem mpsc_capacity_respected_witness:
  "length (cs_buffer (ms_chan demo_granted)) + cs_reserved (ms_chan demo_granted) \<le> 1"
  using mpsc_capacity_respected [OF demo_reach(2)] by (rule conjunct1)

text \<open>
  C8. No wakeup is lost. In a channel with some capacity, whenever a sender is parked and queued,
  the channel is open and somebody is bound to act for it: a value is waiting to be received and
  the receiver is not parked, or another pending send owns a reservation.
\<close>

theorem mpsc_no_lost_wakeup:
  assumes "mpsc_reach capacity s" "0 < capacity"
    and "ms_futs s f = Some fut" "sf_key fut = Some k" "k \<in> waiting (waiters_of (ms_chan s))"
  shows "\<not> cs_closed (ms_chan s) \<and>
    (cs_buffer (ms_chan s) \<noteq> [] \<and> cs_receiver_waker (ms_chan s) = None \<or>
     (\<exists>g fut' k' v. ms_futs s g = Some fut' \<and> sf_value fut' = Some v \<and> sf_key fut' = Some k' \<and>
        k' \<in> granted (waiters_of (ms_chan s))))"
proof -
  have inv: "mpsc_inv s" by (rule mpsc_reach_inv [OF assms(1)])
  then have ok: "chan_ok (ms_chan s)" "live_ok (ms_chan s)"
    and keys: "parked (ms_chan s) = fut_keys (ms_futs s)" and F: "futs_ok (ms_futs s)"
    by (simp_all add: mpsc_inv_def)
  note blocked = live_ok_blocked [OF ok(2) assms(5)]
  have "cs_has_receiver (ms_chan s)" using ok(2) blocked(1) by (auto simp: live_ok_def)
  with ok(2) have rx: "cs_buffer (ms_chan s) \<noteq> [] \<Longrightarrow> cs_receiver_waker (ms_chan s) = None"
    by (auto simp: live_ok_def)
  show ?thesis
  proof (cases "cs_buffer (ms_chan s) = []")
    case True
    then have "0 < cs_reserved (ms_chan s)"
      using blocked(2) assms(2) mpsc_reach_capacity [OF assms(1)] by simp
    with ok(1) have "0 < card (grants (ms_chan s))" by (simp add: chan_ok_def)
    then obtain k' where k': "k' \<in> grants (ms_chan s)" by (metis card_gt_0_iff ex_in_conv)
    then have "k' \<in> fut_keys (ms_futs s)" using grants_parked [OF ok(1)] keys by blast
    then obtain g fut' where g: "ms_futs s g = Some fut'" "sf_key fut' = Some k'"
      by (auto simp: fut_keys_def)
    with F obtain v where "sf_value fut' = Some v" using futs_ok_value by blast
    with g k' blocked(1) show ?thesis by blast
  next
    case False
    with blocked(1) rx show ?thesis by simp
  qed
qed

theorem mpsc_no_lost_wakeup_witness: "\<not> cs_closed (ms_chan demo_blocked)"
  using mpsc_no_lost_wakeup [OF demo_reach(1) zero_less_one demo_futs(1) _ demo_sets(1)] by simp

text \<open>
  What polling a send on an open channel does. A future that owns a reservation completes and
  puts its value at the end of the buffer, however full the channel is for everybody else; one that
  does not completes exactly if there is room that is neither buffered nor reserved for another.
\<close>

theorem mpsc_grant_is_honoured:
  assumes "mpsc_reach capacity s" "\<not> cs_closed (ms_chan s)"
    and "ms_futs s f = Some fut" "sf_value fut = Some v" "exec_mpsc (MPollSend f t) s = ((a, ts), s')"
    and "sends \<longleftrightarrow> (\<exists>k. sf_key fut = Some k \<and> k \<in> granted (waiters_of (ms_chan s))) \<or>
      length (cs_buffer (ms_chan s)) + cs_reserved (ms_chan s) < capacity"
  shows "a = ASend v (if sends then Ready (Inr ()) else Pending) \<and>
    cs_buffer (ms_chan s') = cs_buffer (ms_chan s) @ (if sends then [v] else [])"
proof -
  have inv: "mpsc_inv s" by (rule mpsc_reach_inv [OF assms(1)])
  then have ok: "chan_ok (ms_chan s)" "live_ok (ms_chan s)"
    and keys: "parked (ms_chan s) = fut_keys (ms_futs s)" by (simp_all add: mpsc_inv_def)
  then have h: "cs_has_receiver (ms_chan s)" using assms(2) by (auto simp: live_ok_def)
  obtain r ts' fut' st' where p: "poll_send_value v (sf_key fut) t (ms_chan s) = (r, ts', fut', st')"
    by (cases "poll_send_value v (sf_key fut) t (ms_chan s)")
  with assms(3-5) have e: "a = ASend v r" "ms_chan s' = st'" by (auto simp: poll_send_def)
  have sends: "sends \<longleftrightarrow> set_option (sf_key fut) \<inter> grants (ms_chan s) \<noteq> {} \<or>
      length (cs_buffer (ms_chan s)) + cs_reserved (ms_chan s) < cs_capacity (ms_chan s)"
    using assms(6) mpsc_reach_capacity [OF assms(1)] by (cases "sf_key fut") auto
  show ?thesis
  proof (cases sends)
    case True
    with sends poll_send_value_sent [OF ok assms(2) h _ p] e show ?thesis by simp
  next
    case False
    then have "set_option (sf_key fut) \<inter> grants (ms_chan s) = {}"
      "cs_capacity (ms_chan s) \<le> length (cs_buffer (ms_chan s)) + cs_reserved (ms_chan s)"
      using sends by simp_all
    moreover have "set_option (sf_key fut) \<subseteq> parked (ms_chan s)"
      using keys assms(3) by (auto simp: fut_keys_def)
    ultimately have "r = Pending" "same_chan (ms_chan s) st'"
      using poll_send_value_pending [OF ok assms(2) h _ _ _ p] by blast+
    then show ?thesis using e same_chanD(1) False by simp
  qed
qed

text \<open>
  C18. Lossless and in order: over any history of calls on a channel, the values whose sends were
  acknowledged are exactly the received ones followed by the ones still buffered, in the order of
  acknowledgement.
\<close>

theorem mpsc_lossless_fifo:
  assumes "run_ops exec_mpsc cs (new_mpsc capacity) = (rs, s)"
  shows "concat (map2 mpsc_in cs rs) = concat (map mpsc_out rs) @ cs_buffer (ms_chan s)"
  using mpsc_fifo.run_balance [OF new_mpsc_inv assms TrueI] by (simp add: new_mpsc_def new_channel_def)

theorem mpsc_lossless_fifo_witness:
  "concat (map2 mpsc_in demo_ops (fst (run_ops exec_mpsc demo_ops (new_mpsc 1)))) =
   concat (map mpsc_out (fst (run_ops exec_mpsc demo_ops (new_mpsc 1)))) @ cs_buffer (ms_chan demo_blocked)"
  unfolding demo_blocked_def by (rule mpsc_lossless_fifo) simp

text \<open>
  Closing releases everybody: on a closed channel no sender is left queued, and polling any
  pending send completes it with \<^verbatim>\<open>Closed\<close> and gives the value back, without touching the buffer,
  from which the receiver can still drain what was accepted.
\<close>

theorem mpsc_close_releases:
  assumes "mpsc_reach capacity s" "cs_closed (ms_chan s)"
    and "ms_futs s f = Some fut" "sf_value fut = Some v" "exec_mpsc (MPollSend f t) s = ((a, ts), s')"
  shows "waiting (waiters_of (ms_chan s)) = {} \<and>
    a = ASend v (Ready (Inl (SendClosed v))) \<and> cs_buffer (ms_chan s') = cs_buffer (ms_chan s) \<and>
    fst (try_recv (ms_chan s')) = (case cs_buffer (ms_chan s) of [] \<Rightarrow> Inl RecvClosed | w # _ \<Rightarrow> Inr w)"
proof -
  have inv: "mpsc_inv s" by (rule mpsc_reach_inv [OF assms(1)])
  then have ok: "chan_ok (ms_chan s)" "live_ok (ms_chan s)" by (simp_all add: mpsc_inv_def)
  obtain r ts' fut' st' where p: "poll_send_value v (sf_key fut) t (ms_chan s) = (r, ts', fut', st')"
    by (cases "poll_send_value v (sf_key fut) t (ms_chan s)")
  with assms(3-5) have e: "a = ASend v r" "ms_chan s' = st'" by (auto simp: poll_send_def)
  note c = poll_send_value_closed [OF ok disjI1 [OF assms(2)] p]
  note same = same_chanD [OF c(6)]
  have "fst (try_recv st') = (case cs_buffer st' of [] \<Rightarrow> Inl RecvClosed | w # _ \<Rightarrow> Inr w)"
    using assms(2) same by (simp add: try_recv_def Let_def split: list.splits prod.splits)
  moreover have "blocked (ms_chan s) = {}" using ok(2) assms(2) by (simp add: live_ok_def)
  ultimately show ?thesis using c(1) same e by simp
qed

definition demo_closed :: "nat mpsc_sys" where
  "demo_closed = snd (run_ops exec_mpsc (demo_ops @ [MClose]) (new_mpsc 1))"

end
