(* ===== verification/Indexed_Min_Heap.thy ===== *)
theory Indexed_Min_Heap
  imports Prelude "HOL-Library.Multiset"
begin

section \<open>A keyed minimum queue and its indexed binary heap\<close>

text \<open>
  \<^verbatim>\<open>IndexedMinHeap\<close> of \<^verbatim>\<open>crates/engine/src/indexed_min_heap.rs\<close>: an implicit binary heap in a vector
  with a map from keys to positions. The first part states the contract the scheduler relies on, a
  finite map from keys to priorities from which a least entry can be taken; the second models the
  code, the third proves that the code implements the contract.

  A failing \<^verbatim>\<open>expect\<close>, \<^verbatim>\<open>assert\<close>, \<^verbatim>\<open>debug_assert\<close> or vector index panics; here it sets the
  flag \<open>hp_panicked\<close>, which stays set. The laws show that it is never set.
\<close>

subsection \<open>The contract\<close>

datatype insert_outcome = Inserted | Replaced

locale keyed_min_queue =
  fixes invar :: "'q \<Rightarrow> bool"
    and entry :: "'q \<Rightarrow> 'k \<Rightarrow> 'p :: linorder option"
    and empty :: 'q
    and insert :: "'k \<Rightarrow> 'p \<Rightarrow> 'q \<Rightarrow> insert_outcome \<times> 'q"
    and pop :: "'q \<Rightarrow> ('k \<times> 'p) option \<times> 'q"
    and remove :: "'k \<Rightarrow> 'q \<Rightarrow> ('k \<times> 'p) option \<times> 'q"
    and peek :: "'q \<Rightarrow> ('k \<times> 'p) option"
    and contains :: "'k \<Rightarrow> 'q \<Rightarrow> bool"
    and size_of :: "'q \<Rightarrow> nat"
  assumes empty: "invar empty" "entry empty = Map.empty"
    and finite_entries: "invar q \<Longrightarrow> finite (dom (entry q))"
    and size_of: "invar q \<Longrightarrow> size_of q = card (dom (entry q))"
    and contains: "invar q \<Longrightarrow> contains k q \<longleftrightarrow> k \<in> dom (entry q)"
    and insert: "invar q \<Longrightarrow> insert k p q = (out, q') \<Longrightarrow>
      invar q' \<and> entry q' = (entry q)(k \<mapsto> p) \<and> out = (if k \<in> dom (entry q) then Replaced else Inserted)"
    and peek_None: "invar q \<Longrightarrow> peek q = None \<longleftrightarrow> entry q = Map.empty"
    and peek_Some: "invar q \<Longrightarrow> peek q = Some (k, p) \<Longrightarrow>
      entry q k = Some p \<and> (\<forall>p' \<in> ran (entry q). p \<le> p')"
    and pop: "invar q \<Longrightarrow> pop q = (r, q') \<Longrightarrow>
      r = peek q \<and> invar q' \<and> entry q' = (case r of None \<Rightarrow> entry q | Some (k, _) \<Rightarrow> (entry q)(k := None))"
    and remove: "invar q \<Longrightarrow> remove k q = (r, q') \<Longrightarrow>
      r = map_option (Pair k) (entry q k) \<and> invar q' \<and> entry q' = (entry q)(k := None)"
begin

lemma pop_min:
  assumes "invar q" "pop q = (Some (k, p), q')"
  shows "entry q k = Some p" "\<forall>p' \<in> ran (entry q). p \<le> p'" "invar q'" "entry q' = (entry q)(k := None)"
  using pop [OF assms] peek_Some [OF assms(1), of k p] by simp_all

lemma pop_None_iff: "invar q \<Longrightarrow> pop q = (None, q') \<Longrightarrow> entry q = Map.empty"
  using pop [of q None q'] peek_None [of q] by simp

lemma size_pop:
  assumes "invar q" "pop q = (Some (k, p), q')"
  shows "size_of q = Suc (size_of q')"
proof -
  note m = pop_min [OF assms]
  have "k \<in> dom (entry q)" using m(1) by auto
  then show ?thesis
    using card.remove [OF finite_entries [OF assms(1)], of k] size_of [OF assms(1)] size_of [OF m(3)] m(4)
    by simp
qed

text \<open>Entries leave in the order of their priorities.\<close>

lemma pop_pop_sorted:
  assumes "invar q" "pop q = (Some (k, p), q')" "pop q' = (Some (k', p'), q'')"
  shows "p \<le> p'"
proof -
  note m = pop_min [OF assms(1,2)]
  have "entry q' k' = Some p'" using pop_min [OF m(3) assms(3)] by simp
  then have "p' \<in> ran (entry q)" using m(4) by (auto simp: ran_def split: if_splits)
  then show ?thesis using m(2) by blast
qed

end

subsection \<open>The heap\<close>

record ('k, 'p) min_heap =
  hp_entries :: "('k \<times> 'p) list"
  hp_indices :: "'k \<Rightarrow> nat option"
  hp_panicked :: bool

definition heap_new :: "('k, 'p) min_heap" where
  "heap_new = \<lparr>hp_entries = [], hp_indices = Map.empty, hp_panicked = False\<rparr>"

definition heap_expect :: "bool \<Rightarrow> ('k, 'p) min_heap \<Rightarrow> ('k, 'p) min_heap" where
  "heap_expect b h = h\<lparr>hp_panicked := hp_panicked h \<or> \<not> b\<rparr>"

definition heap_len :: "('k, 'p) min_heap \<Rightarrow> nat" where
  "heap_len h = length (hp_entries h)"

definition heap_is_empty :: "('k, 'p) min_heap \<Rightarrow> bool" where
  "heap_is_empty h \<longleftrightarrow> hp_entries h = []"

definition heap_peek :: "('k, 'p) min_heap \<Rightarrow> ('k \<times> 'p) option" where
  "heap_peek h = (case hp_entries h of [] \<Rightarrow> None | e # _ \<Rightarrow> Some e)"

definition heap_contains_key :: "'k \<Rightarrow> ('k, 'p) min_heap \<Rightarrow> bool" where
  "heap_contains_key k h \<longleftrightarrow> hp_indices h k \<noteq> None"

definition swap_list :: "nat \<Rightarrow> nat \<Rightarrow> 'a list \<Rightarrow> 'a list" where
  "swap_list a b xs = xs[a := xs ! b, b := xs ! a]"

definition heap_swap :: "nat \<Rightarrow> nat \<Rightarrow> ('k, 'p) min_heap \<Rightarrow> ('k, 'p) min_heap" where
  "heap_swap a b h =
     (if a = b then h
      else
        let h1 = heap_expect (a < heap_len h \<and> b < heap_len h) h;
            es = swap_list a b (hp_entries h1);
            key_a = fst (es ! a); key_b = fst (es ! b);
            h2 = heap_expect (hp_indices h1 key_a \<noteq> None) h1;
            ix1 = (hp_indices h2)(key_a \<mapsto> a);
            h3 = heap_expect (ix1 key_b \<noteq> None) h2
        in h3\<lparr>hp_entries := es, hp_indices := ix1(key_b \<mapsto> b)\<rparr>)"

definition prio_at :: "('k, 'p) min_heap \<Rightarrow> nat \<Rightarrow> 'p" where
  "prio_at h i = snd (hp_entries h ! i)"

function heap_sift_up :: "nat \<Rightarrow> ('k, 'p :: linorder) min_heap \<Rightarrow> ('k, 'p) min_heap" where
  "heap_sift_up index h =
     (if index = 0 then h
      else
        let parent = (index - 1) div 2
        in if prio_at h parent \<le> prio_at h index then h
           else heap_sift_up parent (heap_swap index parent h))"
  by auto
termination by (relation "measure fst") auto

lemma length_swap_list [simp]: "length (swap_list a b xs) = length xs"
  by (simp add: swap_list_def)

lemma heap_len_swap [simp]: "heap_len (heap_swap a b h) = heap_len h"
  by (simp add: heap_swap_def heap_len_def heap_expect_def Let_def)

function heap_sift_down :: "nat \<Rightarrow> ('k, 'p :: linorder) min_heap \<Rightarrow> ('k, 'p) min_heap" where
  "heap_sift_down index h =
     (let left = index * 2 + 1; right = left + 1
      in if heap_len h \<le> left then h
         else
           let smallest = (if right < heap_len h \<and> prio_at h right < prio_at h left then right else left)
           in if prio_at h index \<le> prio_at h smallest then h
              else heap_sift_down smallest (heap_swap index smallest h))"
  by auto
termination by (relation "measure (\<lambda>(i, h). heap_len h - i)") (auto simp: Let_def split: if_splits)

declare heap_sift_up.simps [simp del] heap_sift_down.simps [simp del]

definition heap_repair_at :: "nat \<Rightarrow> ('k, 'p :: linorder) min_heap \<Rightarrow> ('k, 'p) min_heap" where
  "heap_repair_at index h =
     (if index > 0 \<and> prio_at h index < prio_at h ((index - 1) div 2)
      then heap_sift_up index h else heap_sift_down index h)"

definition heap_remove_at :: "nat \<Rightarrow> ('k, 'p :: linorder) min_heap \<Rightarrow> ('k \<times> 'p) \<times> ('k, 'p) min_heap" where
  "heap_remove_at index h =
     (let h0 = heap_expect (0 < heap_len h) h; last = heap_len h - 1
      in if index = last then (hp_entries h0 ! last, h0\<lparr>hp_entries := butlast (hp_entries h0)\<rparr>)
         else
           let h1 = heap_expect (index < heap_len h0) h0;
               es = swap_list index last (hp_entries h1);
               removed = es ! last;
               es1 = butlast es;
               moved_key = fst (es1 ! index);
               h2 = heap_expect (hp_indices h1 moved_key \<noteq> None) h1;
               h3 = h2\<lparr>hp_entries := es1, hp_indices := (hp_indices h2)(moved_key \<mapsto> index)\<rparr>
           in (removed, heap_repair_at index h3))"

definition heap_insert :: "'k \<Rightarrow> 'p \<Rightarrow> ('k, 'p :: linorder) min_heap \<Rightarrow> insert_outcome \<times> ('k, 'p) min_heap" where
  "heap_insert key priority h =
     (case hp_indices h key of
        Some index \<Rightarrow>
          let h1 = heap_expect (index < heap_len h) h;
              es = hp_entries h1;
              h2 = h1\<lparr>hp_entries := es[index := (fst (es ! index), priority)]\<rparr>
          in (Replaced, heap_repair_at index h2)
      | None \<Rightarrow>
          let index = heap_len h;
              h1 = heap_expect (hp_indices h key = None) h;
              h2 = h1\<lparr>hp_entries := hp_entries h1 @ [(key, priority)],
                      hp_indices := (hp_indices h1)(key \<mapsto> index)\<rparr>
          in (Inserted, heap_sift_up index h2))"

definition heap_pop :: "('k, 'p :: linorder) min_heap \<Rightarrow> ('k \<times> 'p) option \<times> ('k, 'p) min_heap" where
  "heap_pop h =
     (if hp_entries h = [] then (None, h)
      else
        let root_key = fst (hp_entries h ! 0);
            h1 = heap_expect (hp_indices h root_key = Some 0) h;
            (e, h2) = heap_remove_at 0 (h1\<lparr>hp_indices := (hp_indices h1)(root_key := None)\<rparr>)
        in (Some e, h2))"

definition heap_remove :: "'k \<Rightarrow> ('k, 'p :: linorder) min_heap \<Rightarrow> ('k \<times> 'p) option \<times> ('k, 'p) min_heap" where
  "heap_remove key h =
     (case hp_indices h key of
        None \<Rightarrow> (None, h)
      | Some index \<Rightarrow>
          let (e, h1) = heap_remove_at index (h\<lparr>hp_indices := (hp_indices h)(key := None)\<rparr>)
          in (Some e, heap_expect (fst e = key) h1))"

definition heap_clear :: "('k, 'p) min_heap \<Rightarrow> ('k, 'p) min_heap" where
  "heap_clear h = h\<lparr>hp_entries := [], hp_indices := Map.empty\<rparr>"

definition heap_consistent :: "('k, 'p :: linorder) min_heap \<Rightarrow> bool" where
  \<comment> \<open>what \<^verbatim>\<open>assert_consistent\<close> asserts, the length of the map being the size of its domain\<close>
  "heap_consistent h \<longleftrightarrow> length (hp_entries h) = card (dom (hp_indices h)) \<and>
     (\<forall>i < length (hp_entries h). hp_indices h (fst (hp_entries h ! i)) = Some i \<and>
        (0 < i \<longrightarrow> prio_at h ((i - 1) div 2) \<le> prio_at h i))"

subsection \<open>Sifting restores the heap order\<close>

text \<open>
  The order is a property of the list of priorities. \<open>up_ok ps i\<close> and \<open>down_ok ps i\<close> say that it
  holds but for the edge above, respectively the edges below, position \<open>i\<close>, and that the parent of
  \<open>i\<close> is not larger than the children of \<open>i\<close>; in \<open>hole_ok ps i\<close> all edges at \<open>i\<close> are open.
\<close>

definition edge_ok :: "'p :: linorder list \<Rightarrow> nat \<Rightarrow> bool" where
  "edge_ok ps j \<longleftrightarrow> ps ! ((j - 1) div 2) \<le> ps ! j"

definition heap_ordered :: "'p :: linorder list \<Rightarrow> bool" where
  "heap_ordered ps \<longleftrightarrow> (\<forall>j. 0 < j \<longrightarrow> j < length ps \<longrightarrow> edge_ok ps j)"

definition bridged :: "'p :: linorder list \<Rightarrow> nat \<Rightarrow> bool" where
  "bridged ps i \<longleftrightarrow> (\<forall>j. 0 < i \<longrightarrow> 0 < j \<longrightarrow> j < length ps \<longrightarrow> (j - 1) div 2 = i \<longrightarrow>
     ps ! ((i - 1) div 2) \<le> ps ! j)"

definition up_ok :: "'p :: linorder list \<Rightarrow> nat \<Rightarrow> bool" where
  "up_ok ps i \<longleftrightarrow> bridged ps i \<and> (\<forall>j. 0 < j \<longrightarrow> j < length ps \<longrightarrow> j \<noteq> i \<longrightarrow> edge_ok ps j)"

definition down_ok :: "'p :: linorder list \<Rightarrow> nat \<Rightarrow> bool" where
  "down_ok ps i \<longleftrightarrow> bridged ps i \<and> (\<forall>j. 0 < j \<longrightarrow> j < length ps \<longrightarrow> (j - 1) div 2 \<noteq> i \<longrightarrow> edge_ok ps j)"

definition hole_ok :: "'p :: linorder list \<Rightarrow> nat \<Rightarrow> bool" where
  "hole_ok ps i \<longleftrightarrow> bridged ps i \<and>
     (\<forall>j. 0 < j \<longrightarrow> j < length ps \<longrightarrow> j \<noteq> i \<longrightarrow> (j - 1) div 2 \<noteq> i \<longrightarrow> edge_ok ps j)"

lemma parent_less: "0 < j \<Longrightarrow> (j - 1) div 2 < (j :: nat)"
  by simp

lemma parent_neq: "0 < j \<Longrightarrow> (j - 1) div 2 \<noteq> (j :: nat)"
  by simp

lemma child_iff: "0 < j \<Longrightarrow> (j - 1) div 2 = i \<longleftrightarrow> j = i * 2 + 1 \<or> j = i * 2 + (2 :: nat)"
  by auto

lemma nth_swap_list:
  "a < length xs \<Longrightarrow> b < length xs \<Longrightarrow>
     swap_list a b xs ! j = (if j = a then xs ! b else if j = b then xs ! a else xs ! j)"
  by (auto simp: swap_list_def nth_list_update)

lemma swap_list_same [simp]: "swap_list a a xs = xs"
  by (simp add: swap_list_def)

lemma map_swap_list: "a < length xs \<Longrightarrow> b < length xs \<Longrightarrow> map f (swap_list a b xs) = swap_list a b (map f xs)"
  by (simp add: swap_list_def map_update)

lemma mset_swap_list: "a < length xs \<Longrightarrow> b < length xs \<Longrightarrow> mset (swap_list a b xs) = mset xs"
  unfolding swap_list_def by (metis mset_swap)

lemma up_ok_step:
  assumes up: "up_ok ps i" and i: "0 < i" "i < length ps" and less: "ps ! i < ps ! ((i - 1) div 2)"
  shows "up_ok (swap_list i ((i - 1) div 2) ps) ((i - 1) div 2)"
proof -
  define p where "p = (i - 1) div 2"
  have p: "p < i" "p \<noteq> i" using i(1) by (simp_all add: p_def)
  have pl: "p < length ps" using p i by simp
  note nth = nth_swap_list [OF i(2) pl]
  have e: "ps ! ((j - 1) div 2) \<le> ps ! j" if "0 < j" "j < length ps" "j \<noteq> i" for j
    using up that by (simp add: up_ok_def edge_ok_def)
  have b: "ps ! p \<le> ps ! j" if "0 < j" "j < length ps" "(j - 1) div 2 = i" for j
    using up that i(1) by (simp add: up_ok_def bridged_def p_def)
  have l: "ps ! i < ps ! p" using less by (simp add: p_def)
  have "edge_ok (swap_list i p ps) j" if j: "0 < j" "j < length ps" "j \<noteq> p" for j
  proof (cases "j = i")
    case True
    then have "(j - 1) div 2 = p" by (simp add: p_def)
    then show ?thesis using l p True by (simp add: edge_ok_def nth)
  next
    case False
    consider "(j - 1) div 2 = i" | "(j - 1) div 2 = p" | "(j - 1) div 2 \<noteq> i" "(j - 1) div 2 \<noteq> p" by blast
    then show ?thesis
    proof cases
      case 1
      then show ?thesis using b [OF j(1,2) 1] False j by (simp add: edge_ok_def nth)
    next
      case 2
      then show ?thesis using e [OF j(1,2) False] l False j p by (simp add: edge_ok_def nth)
    next
      case 3
      then show ?thesis using e [OF j(1,2) False] False j by (simp add: edge_ok_def nth)
    qed
  qed
  moreover have "bridged (swap_list i p ps) p"
    unfolding bridged_def length_swap_list
  proof (intro allI impI)
    fix j assume p0: "0 < p" and j: "0 < j" "j < length ps" "(j - 1) div 2 = p"
    define q where "q = (p - 1) div 2"
    have q: "q < p" using p0 by (simp add: q_def)
    then have q': "q \<noteq> p" "q \<noteq> i" using p by simp_all
    have pp: "ps ! q \<le> ps ! p" using e [OF p0 pl p(2)] by (simp add: q_def)
    have jp: "j \<noteq> p" using parent_neq [OF j(1)] j(3) by simp
    show "swap_list i p ps ! ((p - 1) div 2) \<le> swap_list i p ps ! j"
      unfolding q_def [symmetric]
      using e [OF j(1,2)] pp j(3) q' jp by (cases "j = i") (auto simp: nth)
  qed
  ultimately show ?thesis unfolding up_ok_def p_def [symmetric] by simp
qed

lemma down_ok_step:
  assumes down: "down_ok ps i" and s: "0 < s" "s < length ps" "(s - 1) div 2 = i"
    and less: "ps ! s < ps ! i"
    and least: "\<And>j. 0 < j \<Longrightarrow> j < length ps \<Longrightarrow> (j - 1) div 2 = i \<Longrightarrow> ps ! s \<le> ps ! j"
  shows "down_ok (swap_list i s ps) s"
proof -
  have i: "i < s" "i \<noteq> s" "i < length ps" using parent_less [OF s(1)] s by simp_all
  note nth = nth_swap_list [OF i(3) s(2)]
  have e: "ps ! ((j - 1) div 2) \<le> ps ! j" if "0 < j" "j < length ps" "(j - 1) div 2 \<noteq> i" for j
    using down that by (simp add: down_ok_def edge_ok_def)
  have b: "ps ! ((i - 1) div 2) \<le> ps ! j" if "0 < i" "0 < j" "j < length ps" "(j - 1) div 2 = i" for j
    using down that by (simp add: down_ok_def bridged_def)
  have "edge_ok (swap_list i s ps) j" if j: "0 < j" "j < length ps" "(j - 1) div 2 \<noteq> s" for j
  proof -
    consider "j = s" | "j = i" | "j \<noteq> s" "j \<noteq> i" "(j - 1) div 2 = i" | "j \<noteq> s" "j \<noteq> i" "(j - 1) div 2 \<noteq> i"
      by blast
    then show ?thesis
    proof cases
      case 1
      then show ?thesis using less s(3) i by (simp add: edge_ok_def nth)
    next
      case 2
      have "(i - 1) div 2 \<noteq> i" using j(1) 2 by simp
      then show ?thesis using b [OF _ s] j i 2 by (simp add: edge_ok_def nth)
    next
      case 3
      then show ?thesis using least [OF j(1,2) 3(3)] by (simp add: edge_ok_def nth)
    next
      case 4
      then show ?thesis using e [OF j(1,2) 4(3)] j(3) by (simp add: edge_ok_def nth)
    qed
  qed
  moreover have "bridged (swap_list i s ps) s"
    unfolding bridged_def length_swap_list
  proof (intro allI impI)
    fix j assume j: "0 < s" "0 < j" "j < length ps" "(j - 1) div 2 = s"
    have js: "j \<noteq> s" using parent_neq [OF j(2)] j(4) by simp
    have ji: "j \<noteq> i" using parent_less [OF j(2)] j(4) i(1) by linarith
    have "ps ! s \<le> ps ! j" using e [OF j(2,3)] j(4) i(2) by simp
    then show "swap_list i s ps ! ((s - 1) div 2) \<le> swap_list i s ps ! j"
      unfolding s(3) using js ji by (simp add: nth)
  qed
  ultimately show ?thesis by (simp add: down_ok_def)
qed

lemma hole_ok_update:
  assumes "heap_ordered ps"
  shows "hole_ok (ps[i := x]) i"
proof -
  have e: "ps ! ((j - 1) div 2) \<le> ps ! j" if "0 < j" "j < length ps" for j
    using assms that by (simp add: heap_ordered_def edge_ok_def)
  have "bridged (ps[i := x]) i" unfolding bridged_def length_list_update
  proof (intro allI impI)
    fix j assume j: "0 < i" "0 < j" "j < length ps" "(j - 1) div 2 = i"
    have n: "i \<noteq> j" "i < length ps" "(i - 1) div 2 \<noteq> i" using parent_less [OF j(2)] j by auto
    have "ps ! ((i - 1) div 2) \<le> ps ! i" using e [OF j(1) n(2)] .
    also have "\<dots> \<le> ps ! j" using e [OF j(2,3)] j(4) by simp
    finally show "ps[i := x] ! ((i - 1) div 2) \<le> ps[i := x] ! j" using n by simp
  qed
  moreover have "edge_ok (ps[i := x]) j" if "0 < j" "j < length ps" "j \<noteq> i" "(j - 1) div 2 \<noteq> i" for j
    using e [OF that(1,2)] that by (simp add: edge_ok_def)
  ultimately show ?thesis by (simp add: hole_ok_def)
qed

lemma hole_ok_up:
  assumes "hole_ok ps i" "0 < i" "ps ! i < ps ! ((i - 1) div 2)"
  shows "up_ok ps i"
proof -
  have "edge_ok ps j" if j: "0 < j" "j < length ps" "j \<noteq> i" for j
  proof (cases "(j - 1) div 2 = i")
    case True
    with assms(1,2) j have "ps ! ((i - 1) div 2) \<le> ps ! j" by (simp add: hole_ok_def bridged_def)
    with assms(3) have "ps ! i \<le> ps ! j" by (rule less_imp_le [OF less_le_trans])
    then show ?thesis unfolding edge_ok_def True .
  next
    case False
    with assms(1) j show ?thesis by (simp add: hole_ok_def)
  qed
  with assms(1) show ?thesis by (simp add: hole_ok_def up_ok_def)
qed

lemma hole_ok_down:
  assumes "hole_ok ps i" "\<not> (0 < i \<and> ps ! i < ps ! ((i - 1) div 2))"
  shows "down_ok ps i"
proof -
  have "edge_ok ps j" if "0 < j" "j < length ps" "(j - 1) div 2 \<noteq> i" for j
    using assms that by (cases "j = i") (simp_all add: hole_ok_def edge_ok_def)
  with assms(1) show ?thesis by (simp add: hole_ok_def down_ok_def)
qed

lemma up_ok_done: "up_ok ps i \<Longrightarrow> i = 0 \<or> ps ! ((i - 1) div 2) \<le> ps ! i \<Longrightarrow> heap_ordered ps"
  unfolding heap_ordered_def
proof (intro allI impI)
  fix j assume "up_ok ps i" "i = 0 \<or> ps ! ((i - 1) div 2) \<le> ps ! i" "0 < j" "j < length ps"
  then show "edge_ok ps j" by (cases "j = i") (simp_all add: up_ok_def edge_ok_def)
qed

lemma heap_ordered_least:
  assumes "heap_ordered ps" "j < length ps"
  shows "ps ! 0 \<le> ps ! j"
  using assms(2)
proof (induction j rule: less_induct)
  case (less j)
  show ?case
  proof (cases "j = 0")
    case False
    then have "(j - 1) div 2 < j" by simp
    with less have "ps ! 0 \<le> ps ! ((j - 1) div 2)" by simp
    also have "\<dots> \<le> ps ! j" using assms(1) less.prems False by (simp add: heap_ordered_def edge_ok_def)
    finally show ?thesis .
  qed simp
qed

lemma heap_ordered_butlast: "heap_ordered ps \<Longrightarrow> heap_ordered (butlast ps)"
  unfolding heap_ordered_def edge_ok_def
proof (intro allI impI)
  fix j assume *: "\<forall>j. 0 < j \<longrightarrow> j < length ps \<longrightarrow> ps ! ((j - 1) div 2) \<le> ps ! j" "0 < j" "j < length (butlast ps)"
  then have "(j - 1) div 2 < length (butlast ps)" using parent_less [of j] by simp
  with * show "butlast ps ! ((j - 1) div 2) \<le> butlast ps ! j" by (simp add: nth_butlast)
qed

lemma heap_ordered_snoc:
  assumes "heap_ordered ps"
  shows "up_ok (ps @ [x]) (length ps)"
proof -
  have "bridged (ps @ [x]) (length ps)" unfolding bridged_def
  proof (intro allI impI)
    fix j assume "0 < j" "j < length (ps @ [x])" "(j - 1) div 2 = length ps"
    with parent_less [of j] have False by simp
    then show "(ps @ [x]) ! ((length ps - 1) div 2) \<le> (ps @ [x]) ! j" ..
  qed
  moreover have "edge_ok (ps @ [x]) j" if "0 < j" "j < length ps" for j
    using assms that parent_less [OF that(1)] by (simp add: edge_ok_def heap_ordered_def nth_append)
  ultimately show ?thesis by (simp add: up_ok_def)
qed

subsection \<open>The index map follows the entries\<close>

abbreviation prios :: "('k, 'p) min_heap \<Rightarrow> 'p list" where
  "prios h \<equiv> map snd (hp_entries h)"

definition indexed :: "('k, 'p) min_heap \<Rightarrow> bool" where
  "indexed h \<longleftrightarrow> \<not> hp_panicked h \<and>
     (\<forall>i < length (hp_entries h). hp_indices h (fst (hp_entries h ! i)) = Some i) \<and>
     (\<forall>k i. hp_indices h k = Some i \<longrightarrow> i < length (hp_entries h) \<and> fst (hp_entries h ! i) = k)"

definition heap_inv :: "('k, 'p :: linorder) min_heap \<Rightarrow> bool" where
  "heap_inv h \<longleftrightarrow> indexed h \<and> heap_ordered (prios h)"

definition heap_entry :: "('k, 'p) min_heap \<Rightarrow> 'k \<Rightarrow> 'p option" where
  "heap_entry h = map_of (hp_entries h)"

lemma indexedD:
  assumes "indexed h"
  shows "\<not> hp_panicked h" "i < length (hp_entries h) \<Longrightarrow> hp_indices h (fst (hp_entries h ! i)) = Some i"
    "hp_indices h k = Some i \<Longrightarrow> i < length (hp_entries h)"
    "hp_indices h k = Some i \<Longrightarrow> fst (hp_entries h ! i) = k"
  using assms unfolding indexed_def by blast+

lemma indexedI:
  assumes "\<not> hp_panicked h" "\<And>i. i < length (hp_entries h) \<Longrightarrow> hp_indices h (fst (hp_entries h ! i)) = Some i"
    "\<And>k i. hp_indices h k = Some i \<Longrightarrow> i < length (hp_entries h) \<and> fst (hp_entries h ! i) = k"
  shows "indexed h"
  unfolding indexed_def by (intro conjI allI impI assms) (assumption, drule assms(3), erule conjunct1, drule assms(3), erule conjunct2)

lemma indexed_inj:
  assumes "indexed h" "i < length (hp_entries h)" "j < length (hp_entries h)"
    and "fst (hp_entries h ! i) = fst (hp_entries h ! j)"
  shows "i = j"
proof -
  have "hp_indices h (fst (hp_entries h ! i)) = Some i" by (rule indexedD(2) [OF assms(1,2)])
  moreover have "hp_indices h (fst (hp_entries h ! j)) = Some j" by (rule indexedD(2) [OF assms(1,3)])
  ultimately show ?thesis unfolding assms(4) by simp
qed

lemma indexed_distinct:
  assumes "indexed h"
  shows "distinct (map fst (hp_entries h))"
  unfolding distinct_conv_nth
proof (intro allI impI notI)
  fix i j assume "i < length (map fst (hp_entries h))" "j < length (map fst (hp_entries h))" "i \<noteq> j"
    "map fst (hp_entries h) ! i = map fst (hp_entries h) ! j"
  then show False using indexed_inj [OF assms, of i j] by simp
qed

lemma prio_at_prios: "i < heap_len h \<Longrightarrow> prio_at h i = prios h ! i"
  by (simp add: prio_at_def heap_len_def)

lemma entry_cong:
  "indexed h \<Longrightarrow> indexed h' \<Longrightarrow> set (hp_entries h') = set (hp_entries h) \<Longrightarrow> heap_entry h' = heap_entry h"
  unfolding heap_entry_def using indexed_distinct by (metis map_of_inject_set)

lemma heap_expect_True: "b \<Longrightarrow> heap_expect b h = h"
  by (simp add: heap_expect_def)

lemma indexed_swap:
  assumes "indexed h" "a < heap_len h" "b < heap_len h"
  shows "indexed (heap_swap a b h)" "hp_entries (heap_swap a b h) = swap_list a b (hp_entries h)"
proof -
  let ?es = "hp_entries h"
  have l: "a < length ?es" "b < length ?es" using assms by (simp_all add: heap_len_def)
  have ix: "\<And>i. i < length ?es \<Longrightarrow> hp_indices h (fst (?es ! i)) = Some i"
    "\<And>k i. hp_indices h k = Some i \<Longrightarrow> i < length ?es \<and> fst (?es ! i) = k" "\<not> hp_panicked h"
    using assms(1) by (auto simp: indexed_def)
  note nth = nth_swap_list [OF l]
  have "indexed (heap_swap a b h) \<and> hp_entries (heap_swap a b h) = swap_list a b ?es"
  proof (cases "a = b")
    case True
    then show ?thesis using assms(1) by (simp add: heap_swap_def)
  next
    case False
    have keys: "fst (?es ! a) \<noteq> fst (?es ! b)" using ix(1) l False by (metis option.inject)
    have sw: "heap_swap a b h = h\<lparr>hp_entries := swap_list a b ?es,
        hp_indices := (hp_indices h)(fst (?es ! b) \<mapsto> a, fst (?es ! a) \<mapsto> b)\<rparr>"
      using False l ix(1) assms(2,3) by (simp add: heap_swap_def heap_expect_True nth Let_def)
    have "indexed (heap_swap a b h)"
    proof (rule indexedI)
      show "\<not> hp_panicked (heap_swap a b h)" using ix(3) by (simp add: sw)
    next
      fix i assume "i < length (hp_entries (heap_swap a b h))"
      then have i: "i < length ?es" by (simp add: sw)
      show "hp_indices (heap_swap a b h) (fst (hp_entries (heap_swap a b h) ! i)) = Some i"
        using keys ix(1) [OF i] indexed_inj [OF assms(1) i l(1)] indexed_inj [OF assms(1) i l(2)]
        by (cases "i = a"; cases "i = b") (auto simp: sw nth False)
    next
      fix k i assume "hp_indices (heap_swap a b h) k = Some i"
      then show "i < length (hp_entries (heap_swap a b h)) \<and> fst (hp_entries (heap_swap a b h) ! i) = k"
        using ix l keys False by (auto simp: sw nth split: if_splits)
    qed
    then show ?thesis by (simp add: sw)
  qed
  then show "indexed (heap_swap a b h)" "hp_entries (heap_swap a b h) = swap_list a b (hp_entries h)" by blast+
qed

lemma swap_facts:
  assumes "indexed h" "a < heap_len h" "b < heap_len h"
  shows "indexed (heap_swap a b h)" "prios (heap_swap a b h) = swap_list a b (prios h)"
    "heap_entry (heap_swap a b h) = heap_entry h"
proof -
  note s = indexed_swap [OF assms]
  have l: "a < length (hp_entries h)" "b < length (hp_entries h)" using assms by (simp_all add: heap_len_def)
  show "indexed (heap_swap a b h)" by (fact s)
  show "prios (heap_swap a b h) = swap_list a b (prios h)" by (simp add: s(2) map_swap_list [OF l])
  have "set (swap_list a b (hp_entries h)) = set (hp_entries h)"
    using mset_swap_list [OF l] by (metis set_mset_mset)
  then show "heap_entry (heap_swap a b h) = heap_entry h" using entry_cong [OF assms(1) s(1)] s(2) by simp
qed

lemma sift_up_law:
  assumes "indexed h" "up_ok (prios h) i" "i < heap_len h"
  shows "heap_inv (heap_sift_up i h) \<and> heap_entry (heap_sift_up i h) = heap_entry h"
  using assms
proof (induction i h rule: heap_sift_up.induct)
  case (1 i h)
  let ?p = "(i - 1) div 2"
  show ?case
  proof (cases "i = 0 \<or> prio_at h ?p \<le> prio_at h i")
    case True
    then have "heap_sift_up i h = h" by (subst heap_sift_up.simps) (auto simp: Let_def)
    moreover have "heap_ordered (prios h)"
    proof (rule up_ok_done [OF 1(3)])
      show "i = 0 \<or> prios h ! ?p \<le> prios h ! i"
        using True prio_at_prios [OF 1(4)] prio_at_prios [of ?p h] 1(4) by auto
    qed
    ultimately show ?thesis using 1(2) by (simp add: heap_inv_def)
  next
    case False
    then have i: "0 < i" and less: "\<not> prio_at h ?p \<le> prio_at h i" by simp_all
    have p: "?p < heap_len h" using parent_less [OF i] 1(4) by simp
    note sw = swap_facts [OF 1(2,4) p]
    have e: "heap_sift_up i h = heap_sift_up ?p (heap_swap i ?p h)"
      using i less by (subst heap_sift_up.simps) (simp add: Let_def)
    have "up_ok (prios (heap_swap i ?p h)) ?p"
      unfolding sw(2) by (rule up_ok_step [OF 1(3) i])
        (use less 1(4) prio_at_prios [OF 1(4)] prio_at_prios [OF p] in \<open>simp_all add: heap_len_def\<close>)
    then show ?thesis using 1(1) [OF _ refl less sw(1)] i p sw(3) unfolding e by simp
  qed
qed

lemma sift_down_law:
  assumes "indexed h" "down_ok (prios h) i" "i < heap_len h"
  shows "heap_inv (heap_sift_down i h) \<and> heap_entry (heap_sift_down i h) = heap_entry h"
  using assms
proof (induction i h rule: heap_sift_down.induct)
  case (1 i h)
  define l where "l = i * 2 + 1"
  define s where "s = (if l + 1 < heap_len h \<and> prio_at h (l + 1) < prio_at h l then l + 1 else l)"
  have unfold: "heap_sift_down i h = (if heap_len h \<le> l then h
      else if prio_at h i \<le> prio_at h s then h else heap_sift_down s (heap_swap i s h))"
    by (subst heap_sift_down.simps) (simp only: Let_def l_def [symmetric] s_def [symmetric])
  have kid: "(j - 1) div 2 = i \<longleftrightarrow> j = l \<or> j = l + 1" if "0 < j" for j
    using child_iff [OF that, of i] by (simp add: l_def)
  have edges: "edge_ok (prios h) j" if "0 < j" "j < heap_len h" "(j - 1) div 2 \<noteq> i" for j
    using 1(3) that by (simp add: down_ok_def heap_len_def)
  show ?case
  proof (cases "heap_len h \<le> l")
    case True
    then have "heap_sift_down i h = h" by (simp add: unfold)
    moreover have "heap_ordered (prios h)" unfolding heap_ordered_def
    proof (intro allI impI)
      fix j assume j: "0 < j" "j < length (prios h)"
      then have "(j - 1) div 2 \<noteq> i" using True kid [OF j(1)] by (auto simp: heap_len_def)
      then show "edge_ok (prios h) j" using edges j by (simp add: heap_len_def)
    qed
    ultimately show ?thesis using 1(2) by (simp add: heap_inv_def)
  next
    case False
    then have s: "0 < s" "s < heap_len h" "(s - 1) div 2 = i"
      using kid [of s] by (auto simp: s_def l_def)
    have least: "prios h ! s \<le> prios h ! j" if "0 < j" "j < length (prios h)" "(j - 1) div 2 = i" for j
    proof -
      have j: "j < heap_len h" using that(2) by (simp add: heap_len_def)
      have l: "l < heap_len h" using False by simp
      have "prio_at h s \<le> prio_at h j"
        using kid [OF that(1)] that(3) j by (auto simp: s_def)
      then show ?thesis using prio_at_prios [OF s(2)] prio_at_prios [OF j] by simp
    qed
    show ?thesis
    proof (cases "prio_at h i \<le> prio_at h s")
      case True
      then have "heap_sift_down i h = h"
        by (simp add: unfold)
      moreover have "heap_ordered (prios h)" unfolding heap_ordered_def
      proof (intro allI impI)
        fix j assume j: "0 < j" "j < length (prios h)"
        show "edge_ok (prios h) j"
        proof (cases "(j - 1) div 2 = i")
          case kid: True
          have "prios h ! i \<le> prios h ! s"
            using True prio_at_prios [OF s(2)] prio_at_prios [OF 1(4)] by simp
          also have "\<dots> \<le> prios h ! j" by (rule least [OF j kid])
          finally show ?thesis unfolding edge_ok_def kid .
        next
          case False
          then show ?thesis using edges j by (simp add: heap_len_def)
        qed
      qed
      ultimately show ?thesis using 1(2) by (simp add: heap_inv_def)
    next
      case less: False
      note sw = swap_facts [OF 1(2,4) s(2)]
      have e: "heap_sift_down i h = heap_sift_down s (heap_swap i s h)"
        using False less by (simp add: unfold)
      have "down_ok (prios (heap_swap i s h)) s"
        unfolding sw(2)
        by (rule down_ok_step [OF 1(3) s(1) _ s(3) _ least])
          (use less s(2) prio_at_prios [OF s(2)] prio_at_prios [OF 1(4)] in \<open>simp_all add: heap_len_def\<close>)
      then show ?thesis
        using 1(1) [OF refl refl, folded l_def, OF False refl, folded s_def, OF less sw(1)] sw(3) s(2)
        unfolding e by simp
    qed
  qed
qed

subsection \<open>The heap implements the contract\<close>

lemma repair_law:
  assumes "indexed h" "hole_ok (prios h) i" "i < heap_len h"
  shows "heap_inv (heap_repair_at i h) \<and> heap_entry (heap_repair_at i h) = heap_entry h"
proof -
  have p: "(i - 1) div 2 < heap_len h" using assms(3) by simp
  note at = prio_at_prios [OF assms(3)] prio_at_prios [OF p]
  show ?thesis
  proof (cases "0 < i \<and> prio_at h i < prio_at h ((i - 1) div 2)")
    case True
    then have "up_ok (prios h) i" using at by (intro hole_ok_up [OF assms(2)]) simp_all
    with sift_up_law [OF assms(1) _ assms(3)] True show ?thesis by (simp add: heap_repair_at_def)
  next
    case False
    then have "down_ok (prios h) i" using at by (intro hole_ok_down [OF assms(2)]) simp
    moreover have "heap_repair_at i h = heap_sift_down i h" using False by (auto simp: heap_repair_at_def)
    ultimately show ?thesis using sift_down_law [OF assms(1) _ assms(3)] by simp
  qed
qed

lemma map_of_replace:
  "distinct (map fst es) \<Longrightarrow> i < length es \<Longrightarrow>
     map_of (es[i := (fst (es ! i), p)]) = (map_of es)(fst (es ! i) \<mapsto> p)"
proof (induction es arbitrary: i)
  case (Cons e es)
  show ?case
  proof (cases i)
    case 0
    then show ?thesis by (cases e) (auto simp: fun_eq_iff)
  next
    case (Suc j)
    have "fst (es ! j) \<in> fst ` set es" using Cons.prems(2) Suc by simp
    moreover have "fst e \<notin> fst ` set es" using Cons.prems(1) by simp
    ultimately have "fst e \<noteq> fst (es ! j)" by metis
    then show ?thesis using Cons Suc by (cases e) (auto simp: fun_eq_iff)
  qed
qed simp

lemma map_of_drop:
  assumes "distinct (map fst es)" "distinct (map fst es')" "e \<in> set es" "set es' = set es - {e}"
  shows "map_of es' = (map_of es)(fst e := None)"
proof
  fix k
  show "map_of es' k = ((map_of es)(fst e := None)) k"
  proof (cases "k = fst e")
    case True
    have "k \<notin> fst ` set es'"
    proof
      assume "k \<in> fst ` set es'"
      then obtain e' where "e' \<in> set es'" "k = fst e'" by (rule imageE)
      with assms(4) True have "e' \<in> set es" "e' \<noteq> e" "fst e' = fst e" by auto
      with assms(1,3) show False by (metis distinct_map inj_onD)
    qed
    then show ?thesis using True by (simp add: map_of_eq_None_iff)
  next
    case False
    have "map_of es' k = Some v \<longleftrightarrow> map_of es k = Some v" for v
    proof -
      have "(k, v) \<noteq> e" using False by auto
      then show ?thesis
        unfolding map_of_eq_Some_iff [OF assms(1)] map_of_eq_Some_iff [OF assms(2)] assms(4) by simp
    qed
    then have "map_of es' k = map_of es k" by (metis not_Some_eq)
    then show ?thesis using False by simp
  qed
qed

lemma heap_entry_dom: "dom (heap_entry h) = fst ` set (hp_entries h)"
  by (simp add: heap_entry_def dom_map_of_conv_image_fst)

lemma indexed_dom:
  assumes "indexed h"
  shows "hp_indices h k \<noteq> None \<longleftrightarrow> k \<in> dom (heap_entry h)"
proof
  assume "hp_indices h k \<noteq> None"
  then obtain i where "hp_indices h k = Some i" by blast
  from indexedD(3,4) [OF assms this] have "k \<in> fst ` set (hp_entries h)" by (metis image_eqI nth_mem)
  then show "k \<in> dom (heap_entry h)" by (simp only: heap_entry_dom)
next
  assume "k \<in> dom (heap_entry h)"
  then have "k \<in> fst ` set (hp_entries h)" by (simp only: heap_entry_dom)
  then obtain i where "i < length (hp_entries h)" "fst (hp_entries h ! i) = k"
    by (metis imageE in_set_conv_nth)
  with indexedD(2) [OF assms, of i] show "hp_indices h k \<noteq> None" by simp
qed

lemma insert_known:
  assumes "heap_inv h" "hp_indices h k = Some i"
  shows "fst (heap_insert k p h) = Replaced \<and> heap_inv (snd (heap_insert k p h)) \<and>
    heap_entry (snd (heap_insert k p h)) = (heap_entry h)(k \<mapsto> p)"
proof -
  have ix: "indexed h" and ord: "heap_ordered (prios h)" using assms(1) by (simp_all add: heap_inv_def)
  have i: "i < length (hp_entries h)" "fst (hp_entries h ! i) = k" using indexedD(3,4) [OF ix assms(2)] .
  define h2 where "h2 = h\<lparr>hp_entries := (hp_entries h)[i := (k, p)]\<rparr>"
  have ins: "heap_insert k p h = (Replaced, heap_repair_at i h2)"
    using assms(2) i by (simp add: heap_insert_def heap_expect_True heap_len_def h2_def)
  have keys: "fst (hp_entries h2 ! j) = fst (hp_entries h ! j)" if "j < length (hp_entries h)" for j
    using i that by (auto simp: h2_def nth_list_update)
  have ix2: "indexed h2"
  proof (rule indexedI)
    show "\<not> hp_panicked h2" using indexedD(1) [OF ix] by (simp add: h2_def)
    show "hp_indices h2 (fst (hp_entries h2 ! j)) = Some j" if "j < length (hp_entries h2)" for j
    proof -
      have "j < length (hp_entries h)" using that by (simp add: h2_def)
      from keys [OF this] indexedD(2) [OF ix this] show ?thesis by (simp add: h2_def)
    qed
    show "j < length (hp_entries h2) \<and> fst (hp_entries h2 ! j) = k'" if "hp_indices h2 k' = Some j" for k' j
    proof -
      have "hp_indices h k' = Some j" using that by (simp add: h2_def)
      from indexedD(3,4) [OF ix this] keys show ?thesis by (simp add: h2_def)
    qed
  qed
  have "prios h2 = (prios h)[i := p]" by (simp add: h2_def map_update)
  then have "hole_ok (prios h2) i" using hole_ok_update [OF ord] by simp
  with repair_law [OF ix2] i have "heap_inv (heap_repair_at i h2)" "heap_entry (heap_repair_at i h2) = heap_entry h2"
    by (simp_all add: h2_def heap_len_def)
  moreover have "heap_entry h2 = (heap_entry h)(k \<mapsto> p)"
    using map_of_replace [OF indexed_distinct [OF ix] i(1), of p] i(2) by (simp add: h2_def heap_entry_def)
  ultimately show ?thesis by (simp add: ins)
qed

lemma insert_new:
  assumes "heap_inv h" "hp_indices h k = None"
  shows "fst (heap_insert k p h) = Inserted \<and> heap_inv (snd (heap_insert k p h)) \<and>
    heap_entry (snd (heap_insert k p h)) = (heap_entry h)(k \<mapsto> p)"
proof -
  have ix: "indexed h" and ord: "heap_ordered (prios h)" using assms(1) by (simp_all add: heap_inv_def)
  let ?n = "length (hp_entries h)"
  define h2 where "h2 = h\<lparr>hp_entries := hp_entries h @ [(k, p)], hp_indices := (hp_indices h)(k \<mapsto> ?n)\<rparr>"
  have ins: "heap_insert k p h = (Inserted, heap_sift_up ?n h2)"
    using assms(2) by (simp add: heap_insert_def heap_expect_True heap_len_def h2_def Let_def)
  have fresh: "fst (hp_entries h ! j) \<noteq> k" if "j < ?n" for j
    using indexedD(2) [OF ix that] assms(2) by auto
  have ix2: "indexed h2"
  proof (rule indexedI)
    show "\<not> hp_panicked h2" using indexedD(1) [OF ix] by (simp add: h2_def)
    show "hp_indices h2 (fst (hp_entries h2 ! j)) = Some j" if "j < length (hp_entries h2)" for j
      using that indexedD(2) [OF ix, of j] fresh [of j] by (auto simp: h2_def nth_append less_Suc_eq)
    show "j < length (hp_entries h2) \<and> fst (hp_entries h2 ! j) = k'" if "hp_indices h2 k' = Some j" for k' j
      using that indexedD(3,4) [OF ix, of k' j] by (auto simp: h2_def nth_append split: if_splits)
  qed
  have "prios h2 = prios h @ [p]" by (simp add: h2_def)
  then have "up_ok (prios h2) ?n" using heap_ordered_snoc [OF ord, of p] by simp
  with sift_up_law [OF ix2] have "heap_inv (heap_sift_up ?n h2)" "heap_entry (heap_sift_up ?n h2) = heap_entry h2"
    by (simp_all add: h2_def heap_len_def)
  moreover have "k \<notin> dom (heap_entry h)" using indexed_dom [OF ix, of k] assms(2) by simp
  then have "heap_entry h2 = (heap_entry h)(k \<mapsto> p)"
    by (auto simp: h2_def heap_entry_def map_add_def fun_eq_iff split: option.splits)
  ultimately show ?thesis by (simp add: ins)
qed

lemma butlast_swap_list:
  assumes "i < length xs - 1"
  shows "butlast (swap_list i (length xs - 1) xs) = (butlast xs)[i := last xs]"
    "swap_list i (length xs - 1) xs ! (length xs - 1) = xs ! i"
proof -
  have l: "i < length xs" "length xs - 1 < length xs" "xs \<noteq> []" using assms by auto
  show "swap_list i (length xs - 1) xs ! (length xs - 1) = xs ! i" using l by (simp add: nth_swap_list)
  show "butlast (swap_list i (length xs - 1) xs) = (butlast xs)[i := last xs]"
    using assms l by (intro nth_equalityI) (auto simp: nth_butlast nth_swap_list nth_list_update last_conv_nth)
qed

lemma remove_at_law:
  assumes "heap_inv h" "i < length (hp_entries h)" "k = fst (hp_entries h ! i)"
    and "heap_remove_at i (h\<lparr>hp_indices := (hp_indices h)(k := None)\<rparr>) = (e, h')"
  shows "e = hp_entries h ! i \<and> heap_inv h' \<and> heap_entry h' = (heap_entry h)(k := None)"
proof -
  have ix: "indexed h" and ord: "heap_ordered (prios h)" using assms(1) by (simp_all add: heap_inv_def)
  let ?es = "hp_entries h"
  define n where "n = length ?es - 1"
  have n: "n < length ?es" "?es \<noteq> []" "length ?es = Suc n" using assms(2) by (auto simp: n_def)
  have el: "?es ! i \<in> set ?es" using assms(2) by simp
  have drop: "heap_entry h1 = (heap_entry h)(k := None)"
    if "indexed h1" "mset ?es = add_mset (?es ! i) (mset (hp_entries h1))" for h1 :: "('a, 'b) min_heap"
  proof -
    have "mset ?es = mset (?es ! i # hp_entries h1)" using that(2) by simp
    moreover have "distinct ?es" using indexed_distinct [OF ix] by (simp only: distinct_map)
    ultimately have "distinct (?es ! i # hp_entries h1)" "set ?es = set (?es ! i # hp_entries h1)"
      by (metis mset_eq_imp_distinct_iff, metis mset_eq_setD)
    then have "set (hp_entries h1) = set ?es - {?es ! i}" by (metis Diff_insert_absorb distinct.simps(2) list.set(2))
    then show ?thesis unfolding heap_entry_def assms(3)
      by (rule map_of_drop [OF indexed_distinct [OF ix] indexed_distinct [OF that(1)] el])
  qed
  show ?thesis
  proof (cases "i = n")
    case True
    define h1 where "h1 = h\<lparr>hp_indices := (hp_indices h)(k := None), hp_entries := butlast ?es\<rparr>"
    have e: "e = ?es ! i" "h' = h1"
      using assms(4) True n by (auto simp: heap_remove_at_def heap_len_def heap_expect_True h1_def Let_def)
    have ix1: "indexed h1"
    proof (rule indexedI)
      show "\<not> hp_panicked h1" using indexedD(1) [OF ix] by (simp add: h1_def)
      show "hp_indices h1 (fst (hp_entries h1 ! j)) = Some j" if "j < length (hp_entries h1)" for j
      proof -
        have j: "j < length ?es" "j \<noteq> i" "hp_entries h1 ! j = ?es ! j"
          using that True n by (simp_all add: h1_def nth_butlast)
        then have "fst (?es ! j) \<noteq> k" using indexed_inj [OF ix j(1) assms(2)] assms(3) by auto
        then show ?thesis using indexedD(2) [OF ix j(1)] j(3) by (simp add: h1_def)
      qed
      show "j < length (hp_entries h1) \<and> fst (hp_entries h1 ! j) = k'" if "hp_indices h1 k' = Some j" for k' j
      proof -
        from that have j: "hp_indices h k' = Some j" "k' \<noteq> k" by (auto simp: h1_def split: if_splits)
        note d = indexedD(3,4) [OF ix j(1)]
        have "j \<noteq> i" using d(2) j(2) assms(3) by auto
        then have "j < length (butlast ?es)" using d(1) True n by simp
        then show ?thesis using d(2) by (simp add: h1_def nth_butlast)
      qed
    qed
    have "butlast ?es @ [?es ! i] = ?es"
      using n True append_butlast_last_id [OF n(2)] last_conv_nth [OF n(2)] by simp
    then have "mset ?es = mset (butlast ?es @ [?es ! i])" by (simp only:)
    then have "mset ?es = add_mset (?es ! i) (mset (hp_entries h1))" by (simp add: h1_def)
    moreover have "heap_ordered (prios h1)"
      using heap_ordered_butlast [OF ord] by (simp add: h1_def map_butlast)
    ultimately show ?thesis using drop [OF ix1] ix1 e by (simp add: heap_inv_def)
  next
    case False
    with assms(2) n have i: "i < length ?es - 1" by simp
    note bs = butlast_swap_list [OF i]
    define es1 where "es1 = (butlast ?es)[i := last ?es]"
    define m where "m = fst (last ?es)"
    define h3 where "h3 = h\<lparr>hp_entries := es1, hp_indices := (hp_indices h)(k := None, m \<mapsto> i)\<rparr>"
    have last: "last ?es = ?es ! n" using last_conv_nth [OF n(2)] by (simp add: n_def)
    have mn: "hp_indices h m = Some n" unfolding m_def last by (rule indexedD(2) [OF ix n(1)])
    have mk: "m \<noteq> k" using indexed_inj [OF ix n(1) assms(2)] False unfolding m_def last assms(3) by auto
    have mi: "es1 ! i = last ?es" "length es1 = n" using i n by (simp_all add: es1_def)
    have other: "es1 ! j = ?es ! j" if "j < n" "j \<noteq> i" for j
      using that n by (simp add: es1_def nth_butlast)
    have sw: "butlast (swap_list i n ?es) = es1" "swap_list i n ?es ! n = ?es ! i"
      using bs by (simp_all add: es1_def n_def)
    have mk': "fst (es1 ! i) = m" by (simp only: mi(1) m_def)
    have mn': "((hp_indices h)(k := None)) m \<noteq> None" using mn mk by simp
    have "heap_remove_at i (h\<lparr>hp_indices := (hp_indices h)(k := None)\<rparr>) = (?es ! i, heap_repair_at i h3)"
      using False assms(2) mn' n(3)
      by (simp add: heap_remove_at_def heap_len_def heap_expect_True Let_def sw mk' h3_def)
    with assms(4) have e: "e = ?es ! i" "h' = heap_repair_at i h3" by simp_all
    have ix3: "indexed h3"
    proof (rule indexedI)
      show "\<not> hp_panicked h3" using indexedD(1) [OF ix] by (simp add: h3_def)
      show "hp_indices h3 (fst (hp_entries h3 ! j)) = Some j" if "j < length (hp_entries h3)" for j
      proof (cases "j = i")
        case True
        then show ?thesis using mi by (simp add: h3_def m_def)
      next
        case ji: False
        have j: "j < n" using that mi by (simp add: h3_def)
        then have jl: "j < length ?es" "j \<noteq> n" using n by simp_all
        have "fst (?es ! j) \<noteq> k" using indexed_inj [OF ix jl(1) assms(2)] assms(3) ji by auto
        moreover have "fst (?es ! j) \<noteq> m" using indexed_inj [OF ix jl(1) n(1)] jl(2) unfolding m_def last by auto
        ultimately show ?thesis using indexedD(2) [OF ix jl(1)] other [OF j ji] by (simp add: h3_def)
      qed
      show "j < length (hp_entries h3) \<and> fst (hp_entries h3 ! j) = k'" if "hp_indices h3 k' = Some j" for k' j
      proof (cases "k' = m")
        case True
        then have "j = i" using that by (simp add: h3_def)
        then show ?thesis using True mi i n by (simp add: h3_def m_def)
      next
        case km: False
        from that km have j: "hp_indices h k' = Some j" "k' \<noteq> k" by (auto simp: h3_def split: if_splits)
        note d = indexedD(3,4) [OF ix j(1)]
        have "j \<noteq> i" using d(2) j(2) assms(3) by auto
        moreover have "j \<noteq> n" using d(2) km unfolding m_def last by auto
        ultimately show ?thesis using d other [of j] mi n by (simp add: h3_def)
      qed
    qed
    have "prios h3 = (butlast (prios h))[i := snd (last ?es)]"
      by (simp add: h3_def es1_def map_update map_butlast)
    then have "hole_ok (prios h3) i" using hole_ok_update [OF heap_ordered_butlast [OF ord]] by simp
    moreover have "i < heap_len h3" using mi i n by (simp add: h3_def heap_len_def)
    ultimately have r: "heap_inv h'" "heap_entry h' = heap_entry h3"
      using repair_law [OF ix3] e(2) by simp_all
    have sl: "i < length ?es" "length ?es - 1 < length ?es" using assms(2) n by simp_all
    have "swap_list i (length ?es - 1) ?es \<noteq> []" using n(3) by (metis length_swap_list list.size(3) nat.distinct(1))
    from append_butlast_last_id [OF this] last_conv_nth [OF this]
    have "es1 @ [?es ! i] = swap_list i (length ?es - 1) ?es" using bs by (simp add: es1_def)
    then have "mset (es1 @ [?es ! i]) = mset ?es" using mset_swap_list [OF sl] by simp
    then have "mset ?es = add_mset (?es ! i) (mset (hp_entries h3))" by (simp add: h3_def)
    then show ?thesis using drop [OF ix3] r e(1) by simp
  qed
qed

lemma heap_pop_law:
  assumes "heap_inv h" "heap_pop h = (r, h')"
  shows "r = heap_peek h \<and> heap_inv h' \<and>
    heap_entry h' = (case r of None \<Rightarrow> heap_entry h | Some (k, _) \<Rightarrow> (heap_entry h)(k := None))"
proof (cases "hp_entries h = []")
  case True
  with assms show ?thesis by (simp add: heap_pop_def heap_peek_def)
next
  case False
  have ix: "indexed h" using assms(1) by (simp add: heap_inv_def)
  define k where "k = fst (hp_entries h ! 0)"
  have k: "hp_indices h k = Some 0" unfolding k_def by (rule indexedD(2) [OF ix]) (use False in simp)
  obtain e h2 where rm: "heap_remove_at 0 (h\<lparr>hp_indices := (hp_indices h)(k := None)\<rparr>) = (e, h2)" by (rule prod.exhaust)
  have r: "r = Some e" "h' = h2"
    using assms(2) False k rm by (auto simp: heap_pop_def heap_expect_True k_def Let_def)
  have "e = hp_entries h ! 0 \<and> heap_inv h2 \<and> heap_entry h2 = (heap_entry h)(k := None)"
    by (rule remove_at_law [OF assms(1) _ k_def rm]) (use False in simp)
  then show ?thesis using r False k_def by (cases "hp_entries h") (auto simp: heap_peek_def split: prod.splits)
qed

lemma heap_remove_law:
  assumes "heap_inv h" "heap_remove k h = (r, h')"
  shows "r = map_option (Pair k) (heap_entry h k) \<and> heap_inv h' \<and> heap_entry h' = (heap_entry h)(k := None)"
proof -
  have ix: "indexed h" using assms(1) by (simp add: heap_inv_def)
  show ?thesis
  proof (cases "hp_indices h k")
    case None
    then have "heap_entry h k = None" using indexed_dom [OF ix, of k] by (auto simp: domIff)
    with assms None show ?thesis by (auto simp: heap_remove_def)
  next
    case (Some i)
    note i = indexedD(3,4) [OF ix Some]
    obtain e h1 where rm: "heap_remove_at i (h\<lparr>hp_indices := (hp_indices h)(k := None)\<rparr>) = (e, h1)" by (rule prod.exhaust)
    have e: "e = hp_entries h ! i" "heap_inv h1" "heap_entry h1 = (heap_entry h)(k := None)"
      using remove_at_law [OF assms(1) i(1) _ rm] i(2) by simp_all
    then have r: "r = Some e" "h' = h1"
      using assms(2) Some rm i(2) by (auto simp: heap_remove_def heap_expect_True)
    have "(k, snd e) \<in> set (hp_entries h)" using i e(1) by (metis nth_mem prod.collapse)
    then have "heap_entry h k = Some (snd e)"
      unfolding heap_entry_def map_of_eq_Some_iff [OF indexed_distinct [OF ix]] .
    moreover have "e = (k, snd e)" using i(2) e(1) by (metis prod.collapse)
    ultimately show ?thesis using r e(2,3) by simp
  qed
qed

lemma heap_peek_least:
  assumes "heap_inv h" "heap_peek h = Some (k, p)"
  shows "heap_entry h k = Some p \<and> (\<forall>p' \<in> ran (heap_entry h). p \<le> p')"
proof -
  have ix: "indexed h" and ord: "heap_ordered (prios h)" using assms(1) by (simp_all add: heap_inv_def)
  from assms(2) obtain es where es: "hp_entries h = (k, p) # es"
    by (auto simp: heap_peek_def split: list.splits)
  have "p \<le> p'" if "p' \<in> ran (heap_entry h)" for p'
  proof -
    from that have "p' \<in> set (prios h)"
      unfolding heap_entry_def by (auto simp: ran_def dest!: map_of_SomeD) (metis image_eqI snd_conv)
    then obtain j where "j < length (prios h)" "prios h ! j = p'" by (metis in_set_conv_nth)
    with heap_ordered_least [OF ord] have "prios h ! 0 \<le> p'" by blast
    then show ?thesis by (simp add: es)
  qed
  then show ?thesis by (simp add: heap_entry_def es)
qed

interpretation hq: keyed_min_queue heap_inv heap_entry heap_new heap_insert heap_pop heap_remove
    heap_peek heap_contains_key heap_len
proof (unfold_locales, goal_cases)
  case 1
  show ?case by (simp add: heap_inv_def indexed_def heap_new_def heap_ordered_def)
next
  case 2
  show ?case by (simp add: heap_entry_def heap_new_def)
next
  case (3 q)
  show ?case by (simp add: heap_entry_dom)
next
  case (4 q)
  then have d: "distinct (map fst (hp_entries q))" by (simp add: heap_inv_def indexed_distinct)
  show ?case unfolding heap_entry_dom heap_len_def using distinct_card [OF d] by simp
next
  case (5 q k)
  then show ?case using indexed_dom [of q k] by (simp add: heap_contains_key_def heap_inv_def)
next
  case (6 q k p r q')
  have ix: "indexed q" using 6(1) by (simp add: heap_inv_def)
  show ?case
    using insert_new [OF 6(1), of k p] insert_known [OF 6(1), of k _ p] indexed_dom [OF ix, of k] 6(2)
    by (cases "hp_indices q k") auto
next
  case (7 q)
  show ?case
    by (cases "hp_entries q") (auto simp: heap_peek_def heap_entry_def fun_eq_iff)
next
  case (8 q k p)
  then show ?case by (rule heap_peek_least)
next
  case (9 q r q')
  then show ?case by (rule heap_pop_law)
next
  case (10 q k r q')
  then show ?case by (rule heap_remove_law)
qed

subsection \<open>Histories of a heap\<close>

datatype ('k, 'p) heap_op = HInsert 'k 'p | HPop | HRemove 'k | HClear

datatype ('k, 'p) heap_answer = HOutcome insert_outcome | HEntry "('k \<times> 'p) option" | HDone

fun exec_heap :: "('k, 'p) heap_op \<Rightarrow> ('k, 'p :: linorder) min_heap \<Rightarrow> ('k, 'p) heap_answer \<times> ('k, 'p) min_heap" where
  "exec_heap (HInsert k p) h = map_prod HOutcome id (heap_insert k p h)"
| "exec_heap HPop h = map_prod HEntry id (heap_pop h)"
| "exec_heap (HRemove k) h = map_prod HEntry id (heap_remove k h)"
| "exec_heap HClear h = (HDone, heap_clear h)"

text \<open>What the calls promise, in terms of a finite map from keys to priorities.\<close>

fun queue_spec :: "('k, 'p) heap_op \<Rightarrow> ('k \<Rightarrow> 'p :: linorder option) \<Rightarrow> ('k, 'p) heap_answer \<Rightarrow> ('k \<Rightarrow> 'p option) \<Rightarrow> bool" where
  "queue_spec (HInsert k p) m r m' \<longleftrightarrow>
     r = HOutcome (if m k = None then Inserted else Replaced) \<and> m' = m(k \<mapsto> p)"
| "queue_spec HPop m r m' \<longleftrightarrow>
     (if m = Map.empty then r = HEntry None \<and> m' = m
      else \<exists>k p. r = HEntry (Some (k, p)) \<and> m k = Some p \<and> (\<forall>p' \<in> ran m. p \<le> p') \<and> m' = m(k := None))"
| "queue_spec (HRemove k) m r m' \<longleftrightarrow> r = HEntry (map_option (Pair k) (m k)) \<and> m' = m(k := None)"
| "queue_spec HClear m r m' \<longleftrightarrow> r = HDone \<and> m' = Map.empty"

inductive heap_reach :: "('k, 'p :: linorder) min_heap \<Rightarrow> bool" where
  heap_start: "heap_reach heap_new"
| heap_step: "heap_reach h \<Longrightarrow> exec_heap c h = (r, h') \<Longrightarrow> heap_reach h'"

lemma heap_clear_inv: "heap_inv h \<Longrightarrow> heap_inv (heap_clear h) \<and> heap_entry (heap_clear h) = Map.empty"
  using indexedD(1) [of h] by (simp add: heap_inv_def indexed_def heap_clear_def heap_ordered_def heap_entry_def)

lemma exec_heap_law:
  assumes "heap_inv h" "exec_heap c h = (r, h')"
  shows "heap_inv h' \<and> queue_spec c (heap_entry h) r (heap_entry h')"
proof (cases c)
  case (HInsert k p)
  with assms(2) obtain o' where i: "heap_insert k p h = (o', h')" "r = HOutcome o'"
    by (auto simp: map_prod_def split: prod.splits)
  from hq.insert [OF assms(1) i(1)] HInsert i(2) show ?thesis by (simp add: domIff)
next
  case HPop
  with assms(2) obtain e where e: "heap_pop h = (e, h')" "r = HEntry e"
    by (auto simp: map_prod_def split: prod.splits)
  note l = hq.pop [OF assms(1) e(1)]
  show ?thesis
  proof (cases e)
    case None
    with l e HPop hq.peek_None [OF assms(1)] show ?thesis by simp
  next
    case (Some kp)
    obtain k p where kp: "kp = (k, p)" by (rule prod.exhaust)
    with Some e have pop: "heap_pop h = (Some (k, p), h')" by simp
    note m = hq.pop_min [OF assms(1) pop]
    have "heap_entry h \<noteq> Map.empty" using m(1) by auto
    then show ?thesis using m e(2) HPop Some kp by auto
  qed
next
  case (HRemove k)
  with assms(2) obtain e where "heap_remove k h = (e, h')" "r = HEntry e"
    by (auto simp: map_prod_def split: prod.splits)
  with hq.remove [OF assms(1)] HRemove show ?thesis by simp
next
  case HClear
  with assms heap_clear_inv show ?thesis by auto
qed

interpretation heap: step_system exec_heap heap_inv
  by unfold_locales (metis exec_heap_law prod.collapse)

lemma heap_reach_inv: "heap_reach h \<Longrightarrow> heap_inv h"
  by (induction rule: heap_reach.induct) (auto intro: hq.empty dest: exec_heap_law)

lemma heap_inv_consistent:
  assumes "heap_inv h"
  shows "\<not> hp_panicked h \<and> heap_consistent h"
proof -
  have ix: "indexed h" and ord: "heap_ordered (prios h)" using assms by (simp_all add: heap_inv_def)
  have "dom (hp_indices h) = dom (heap_entry h)" using indexed_dom [OF ix] by auto
  then have "length (hp_entries h) = card (dom (hp_indices h))"
    using hq.size_of [OF assms] by (simp add: heap_len_def)
  moreover have "prio_at h ((i - 1) div 2) \<le> prio_at h i" if "0 < i" "i < length (hp_entries h)" for i
    using ord that parent_less [OF that(1)] by (simp add: heap_ordered_def edge_ok_def prio_at_def)
  ultimately show ?thesis using indexedD(1,2) [OF ix] by (simp add: heap_consistent_def)
qed

lemma heap_reach_run: "heap_reach h \<Longrightarrow> run_ops exec_heap cs h = (rs, h') \<Longrightarrow> heap_reach h'"
proof (induction cs arbitrary: h rs)
  case (Cons c cs)
  from Cons.prems(2) obtain r h1 rs' where "exec_heap c h = (r, h1)" "run_ops exec_heap cs h1 = (rs', h')"
    by (rule run_ops_Cons)
  with Cons show ?case by (blast intro: heap_step)
qed simp

text \<open>
  C22. The heap with its position index refines a finite map from keys to priorities: in every
  reachable state, inserting a key adds it or replaces its priority and says which, popping takes
  an entry of least priority out (and only an empty heap has none), removing a key returns its
  entry, and clearing empties the map.
\<close>

theorem heap_refines_queue:
  assumes "heap_reach h" "exec_heap c h = (r, h')"
  shows "queue_spec c (heap_entry h) r (heap_entry h')"
  using exec_heap_law [OF heap_reach_inv [OF assms(1)] assms(2)] by blast

definition demo_heap :: "(nat, nat) min_heap" where
  "demo_heap = snd (run_ops exec_heap [HInsert 1 50, HInsert 2 30, HInsert 3 40, HInsert 1 10, HRemove 3] heap_new)"

lemma demo_heap_reach: "heap_reach demo_heap"
  unfolding demo_heap_def by (rule heap_reach_run [OF heap_start]) (rule prod.collapse [symmetric])

lemma demo_heap_pop: "fst (exec_heap HPop demo_heap) = HEntry (Some (1, 10))"
  by code_simp

theorem heap_refines_queue_witness:
  "queue_spec HPop (heap_entry demo_heap) (HEntry (Some (1, 10))) (heap_entry (snd (exec_heap HPop demo_heap)))"
  by (rule heap_refines_queue [OF demo_heap_reach]) (metis demo_heap_pop prod.collapse)

text \<open>
  None of the \<^verbatim>\<open>expect\<close>, \<^verbatim>\<open>assert\<close> and index operations of the heap can fail, whatever the
  calls, and \<^verbatim>\<open>assert_consistent\<close> holds after every call: the index map has the position of every
  entry and nothing else, and no entry is smaller than its parent.
\<close>

theorem heap_never_panics:
  assumes "heap_reach h"
  shows "\<not> hp_panicked h \<and> heap_consistent h"
  by (rule heap_inv_consistent [OF heap_reach_inv [OF assms]])

end
