(* ===== verification/Node_Local_Scheduler.thy ===== *)
theory Node_Local_Scheduler
  imports Indexed_Min_Heap
begin

section \<open>The processor-local scheduler\<close>

text \<open>
  \<^verbatim>\<open>NodeLocalScheduler\<close> of \<^verbatim>\<open>crates/engine/src/node_local_scheduler.rs\<close>: retained payloads that are to
  come back to their processor at a deadline, and keyed wakeups without payload. It is a client of
  the keyed minimum queue of the previous theory.

  The retained payloads sit in a \<^verbatim>\<open>BinaryHeap\<close> of the standard library, of which the source uses
  \<^verbatim>\<open>push\<close>, \<^verbatim>\<open>peek\<close> and \<^verbatim>\<open>pop\<close>; it is modelled by the list of its elements in the order in which
  they are popped. Elements that compare equal (which takes two equal sequence numbers, after the
  counter has saturated) are popped in the order in which they were pushed. \<^verbatim>\<open>Instant\<close>s are
  numbers, and the clock reading inside \<^verbatim>\<open>next_expiry\<close> is an argument. Metric counters are
  numbers, reset by reporting them.
\<close>

subsection \<open>Types\<close>

datatype wakeup_error = WakeUnsupported | WakeShuttingDown | WakeCapacity

datatype wakeup_set_outcome = WakeInserted nat | WakeReplaced nat

fun outcome_revision :: "wakeup_set_outcome \<Rightarrow> nat" where
  "outcome_revision (WakeInserted revision) = revision"
| "outcome_revision (WakeReplaced revision) = revision"

datatype wakeup_slot = WakeupSlot "128 word"

datatype 'p local_control_msg =
    Wakeup wakeup_slot instant nat
  | ResumeData instant 'p

record wakeup_metrics =
  wm_set_inserted :: nat
  wm_set_replaced :: nat
  wm_set_error_capacity :: nat
  wm_set_error_shutdown :: nat
  wm_cancel_removed :: nat
  wm_cancel_missed :: nat
  wm_cancel_ignored_shutdown :: nat
  wm_pop_due :: nat
  wm_shutdown_cleared :: nat
  wm_live :: nat
  wm_capacity :: nat

record 'p scheduled_resume =
  sr_when :: instant
  sr_sequence :: nat
  sr_data :: 'p

definition resume_key :: "'p scheduled_resume \<Rightarrow> instant \<times> nat" where
  "resume_key r = (sr_when r, sr_sequence r)"

definition resume_cmp_ge :: "'p scheduled_resume \<Rightarrow> 'p scheduled_resume \<Rightarrow> bool" where
  \<comment> \<open>\<^verbatim>\<open>a.cmp(b) != Less\<close>: the comparison is reversed, so the earlier one is the greater\<close>
  "resume_cmp_ge a b \<longleftrightarrow> sr_when a < sr_when b \<or> (sr_when a = sr_when b \<and> sr_sequence a \<le> sr_sequence b)"

datatype wakeup_priority = WakeupPriority (wp_when: instant) (wp_revision: nat)

definition wakeup_priority_le :: "wakeup_priority \<Rightarrow> wakeup_priority \<Rightarrow> bool" where
  "wakeup_priority_le a b \<longleftrightarrow>
     wp_when a < wp_when b \<or> (wp_when a = wp_when b \<and> wp_revision a \<le> wp_revision b)"

instantiation wakeup_priority :: linorder
begin

definition less_eq_wakeup_priority :: "wakeup_priority \<Rightarrow> wakeup_priority \<Rightarrow> bool" where
  "less_eq_wakeup_priority = wakeup_priority_le"

definition less_wakeup_priority :: "wakeup_priority \<Rightarrow> wakeup_priority \<Rightarrow> bool" where
  "less_wakeup_priority a b \<longleftrightarrow> \<not> wakeup_priority_le b a"

instance
  by intro_classes (auto simp: less_eq_wakeup_priority_def less_wakeup_priority_def wakeup_priority_le_def
      intro: wakeup_priority.expand)

end

lemma wakeup_priority_less_eq: "a \<le> b \<longleftrightarrow> wakeup_priority_le a b"
  by (simp add: less_eq_wakeup_priority_def)

subsection \<open>The standard library's heap of retained payloads\<close>

fun resume_push :: "'p scheduled_resume \<Rightarrow> 'p scheduled_resume list \<Rightarrow> 'p scheduled_resume list" where
  "resume_push r [] = [r]"
| "resume_push r (x # xs) = (if resume_cmp_ge x r then x # resume_push r xs else r # x # xs)"

definition resume_peek :: "'p scheduled_resume list \<Rightarrow> 'p scheduled_resume option" where
  "resume_peek rs = (case rs of [] \<Rightarrow> None | r # _ \<Rightarrow> Some r)"

definition resume_pop :: "'p scheduled_resume list \<Rightarrow> 'p scheduled_resume option \<times> 'p scheduled_resume list" where
  "resume_pop rs = (case rs of [] \<Rightarrow> (None, []) | r # rs' \<Rightarrow> (Some r, rs'))"

subsection \<open>The scheduler\<close>

record 'p scheduler =
  sc_delayed_resume_capacity :: nat
  sc_wakeup_capacity :: nat
  sc_next_sequence :: nat
  sc_next_revision :: nat
  sc_delayed_resumes :: "'p scheduled_resume list"
  sc_due_now :: "'p local_control_msg list"
  sc_heap :: "(wakeup_slot, wakeup_priority) min_heap"
  sc_shutting_down :: bool
  sc_metrics :: "wakeup_metrics option"

definition new_scheduler :: "nat \<Rightarrow> nat \<Rightarrow> wakeup_metrics option \<Rightarrow> 'p scheduler" where
  "new_scheduler delayed_resume_capacity wakeup_capacity metrics =
     \<lparr>sc_delayed_resume_capacity = delayed_resume_capacity, sc_wakeup_capacity = wakeup_capacity,
      sc_next_sequence = 0, sc_next_revision = 0, sc_delayed_resumes = [], sc_due_now = [],
      sc_heap = heap_new, sc_shutting_down = False, sc_metrics = metrics\<rparr>"

definition next_sequence :: "'p scheduler \<Rightarrow> nat \<times> 'p scheduler" where
  "next_sequence s = (sc_next_sequence s, s\<lparr>sc_next_sequence := sat_add (sc_next_sequence s) 1\<rparr>)"

definition next_revision :: "'p scheduler \<Rightarrow> nat \<times> 'p scheduler" where
  "next_revision s = (sc_next_revision s, s\<lparr>sc_next_revision := sat_add (sc_next_revision s) 1\<rparr>)"

definition on_metrics :: "(wakeup_metrics \<Rightarrow> wakeup_metrics) \<Rightarrow> 'p scheduler \<Rightarrow> 'p scheduler" where
  \<comment> \<open>\<^verbatim>\<open>if let Some(metrics) = &mut self.metrics { ... }\<close>\<close>
  "on_metrics f s = s\<lparr>sc_metrics := map_option f (sc_metrics s)\<rparr>"

definition refresh_gauges :: "'p scheduler \<Rightarrow> 'p scheduler" where
  "refresh_gauges s =
     on_metrics (\<lambda>m. m\<lparr>wm_live := heap_len (sc_heap s), wm_capacity := sc_wakeup_capacity s\<rparr>) s"

definition requeue_later :: "instant \<Rightarrow> 'p \<Rightarrow> 'p scheduler \<Rightarrow> ('p + unit) \<times> 'p scheduler" where
  "requeue_later w data s =
     (if sc_shutting_down s \<or> length (sc_delayed_resumes s) \<ge> sc_delayed_resume_capacity s
      then (Inl data, s)
      else
        let (sequence, s1) = next_sequence s
        in (Inr (), s1\<lparr>sc_delayed_resumes :=
              resume_push \<lparr>sr_when = w, sr_sequence = sequence, sr_data = data\<rparr> (sc_delayed_resumes s1)\<rparr>))"

definition set_wakeup ::
  "wakeup_slot \<Rightarrow> instant \<Rightarrow> 'p scheduler \<Rightarrow> (wakeup_error + wakeup_set_outcome) \<times> 'p scheduler" where
  "set_wakeup slot w s =
     (if sc_wakeup_capacity s = 0 then (Inl WakeUnsupported, s)
      else if sc_shutting_down s then
        (Inl WakeShuttingDown, on_metrics (\<lambda>m. m\<lparr>wm_set_error_shutdown := wm_set_error_shutdown m + 1\<rparr>) s)
      else if heap_contains_key slot (sc_heap s) then
        let (revision, s1) = next_revision s;
            (_, h) = heap_insert slot (WakeupPriority w revision) (sc_heap s1);
            s2 = on_metrics (\<lambda>m. m\<lparr>wm_set_replaced := wm_set_replaced m + 1\<rparr>) (s1\<lparr>sc_heap := h\<rparr>)
        in (Inr (WakeReplaced revision), refresh_gauges s2)
      else if heap_len (sc_heap s) \<ge> sc_wakeup_capacity s then
        (Inl WakeCapacity, on_metrics (\<lambda>m. m\<lparr>wm_set_error_capacity := wm_set_error_capacity m + 1\<rparr>) s)
      else
        let (revision, s1) = next_revision s;
            (_, h) = heap_insert slot (WakeupPriority w revision) (sc_heap s1);
            s2 = on_metrics (\<lambda>m. m\<lparr>wm_set_inserted := wm_set_inserted m + 1\<rparr>) (s1\<lparr>sc_heap := h\<rparr>)
        in (Inr (WakeInserted revision), refresh_gauges s2))"

definition cancel_wakeup :: "wakeup_slot \<Rightarrow> 'p scheduler \<Rightarrow> bool \<times> 'p scheduler" where
  "cancel_wakeup slot s =
     (if sc_shutting_down s then
        (False, on_metrics (\<lambda>m. m\<lparr>wm_cancel_ignored_shutdown := wm_cancel_ignored_shutdown m + 1\<rparr>) s)
      else
        let (entry, h) = heap_remove slot (sc_heap s); removed = (entry \<noteq> None);
            s1 = on_metrics (\<lambda>m. if removed then m\<lparr>wm_cancel_removed := wm_cancel_removed m + 1\<rparr>
                                 else m\<lparr>wm_cancel_missed := wm_cancel_missed m + 1\<rparr>) (s\<lparr>sc_heap := h\<rparr>)
        in (removed, refresh_gauges s1))"

definition next_expiry :: "instant \<Rightarrow> 'p scheduler \<Rightarrow> instant option" where
  "next_expiry now s =
     (if sc_due_now s \<noteq> [] then Some now
      else case (map_option sr_when (resume_peek (sc_delayed_resumes s)),
                 map_option (\<lambda>(_, priority). wp_when priority) (heap_peek (sc_heap s))) of
             (Some a, Some b) \<Rightarrow> Some (min a b)
           | (Some a, None) \<Rightarrow> Some a
           | (None, Some b) \<Rightarrow> Some b
           | (None, None) \<Rightarrow> None)"

definition pop_wakeup :: "'p scheduler \<Rightarrow> (wakeup_slot \<times> instant \<times> nat) option \<times> 'p scheduler" where
  \<comment> \<open>\<^verbatim>\<open>pop_next\<close>; its body is also the last part of \<^verbatim>\<open>pop_due\<close>\<close>
  "pop_wakeup s =
     (case heap_pop (sc_heap s) of
        (None, h) \<Rightarrow> (None, s\<lparr>sc_heap := h\<rparr>)
      | (Some (slot, priority), h) \<Rightarrow>
          let s1 = on_metrics (\<lambda>m. m\<lparr>wm_pop_due := wm_pop_due m + 1\<rparr>) (s\<lparr>sc_heap := h\<rparr>)
          in (Some (slot, wp_when priority, wp_revision priority), refresh_gauges s1))"

definition pop_due :: "instant \<Rightarrow> 'p scheduler \<Rightarrow> 'p local_control_msg option \<times> 'p scheduler" where
  "pop_due now s =
     (case sc_due_now s of
        msg # rest \<Rightarrow> (Some msg, s\<lparr>sc_due_now := rest\<rparr>)
      | [] \<Rightarrow>
          let next_resume = map_option sr_when (resume_peek (sc_delayed_resumes s));
              next_wakeup = map_option (\<lambda>(_, priority). wp_when priority) (heap_peek (sc_heap s));
              take_resume = (case (next_resume, next_wakeup) of
                  (Some resume_when, Some wakeup_when) \<Rightarrow>
                    resume_when \<le> now \<and> (wakeup_when > now \<or> resume_when \<le> wakeup_when)
                | (Some resume_when, None) \<Rightarrow> resume_when \<le> now
                | (None, _) \<Rightarrow> False)
          in if take_resume then
               (case resume_pop (sc_delayed_resumes s) of
                  (Some resume, rest) \<Rightarrow>
                    (Some (ResumeData (sr_when resume) (sr_data resume)), s\<lparr>sc_delayed_resumes := rest\<rparr>)
                | (None, rest) \<Rightarrow> (None, s))
             else
               (case next_wakeup of
                  None \<Rightarrow> (None, s)
                | Some next_due \<Rightarrow>
                    if next_due > now then (None, s)
                    else case pop_wakeup s of
                      (Some (slot, w, revision), s') \<Rightarrow> (Some (Wakeup slot w revision), s')
                    | (None, s') \<Rightarrow> (None, s')))"

definition begin_shutdown :: "instant \<Rightarrow> 'p scheduler \<Rightarrow> 'p scheduler" where
  "begin_shutdown now s =
     (if sc_shutting_down s then s
      else
        let s1 = s\<lparr>sc_shutting_down := True,
                   sc_due_now := sc_due_now s @ map (\<lambda>r. ResumeData now (sr_data r)) (sc_delayed_resumes s),
                   sc_delayed_resumes := []\<rparr>;
            cleared = heap_len (sc_heap s1);
            s2 = on_metrics (\<lambda>m. m\<lparr>wm_shutdown_cleared := wm_shutdown_cleared m + cleared\<rparr>) s1
        in refresh_gauges (s2\<lparr>sc_heap := heap_clear (sc_heap s2)\<rparr>))"

definition is_drained :: "'p scheduler \<Rightarrow> bool" where
  "is_drained s \<longleftrightarrow> sc_due_now s = [] \<and> sc_delayed_resumes s = [] \<and> heap_is_empty (sc_heap s)"

subsection \<open>The shared handle\<close>

text \<open>
  \<^verbatim>\<open>NodeLocalSchedulerHandle\<close> runs each operation under a mutex and then notifies the inbox loop that
  waits in \<^verbatim>\<open>wait_for_change\<close>; an operation here returns which notification it sends. A panic inside
  the lock is ignored by later calls (\<^verbatim>\<open>into_inner\<close> on poisoning), so locking has no other outcome.
\<close>

datatype notification = NotifyNone | NotifyOne | NotifyWaiters

definition handle_requeue_later ::
  "instant \<Rightarrow> 'p \<Rightarrow> 'p scheduler \<Rightarrow> ('p + unit) \<times> notification \<times> 'p scheduler" where
  "handle_requeue_later w data s =
     (let (r, s') = requeue_later w data s
      in (r, if r = Inr () then NotifyOne else NotifyNone, s'))"

definition handle_set_wakeup ::
  "wakeup_slot \<Rightarrow> instant \<Rightarrow> 'p scheduler \<Rightarrow>
     (wakeup_error + wakeup_set_outcome) \<times> notification \<times> 'p scheduler" where
  "handle_set_wakeup slot w s =
     (let (r, s') = set_wakeup slot w s
      in (r, case r of Inr _ \<Rightarrow> NotifyOne | Inl _ \<Rightarrow> NotifyNone, s'))"

definition handle_cancel_wakeup :: "wakeup_slot \<Rightarrow> 'p scheduler \<Rightarrow> bool \<times> notification \<times> 'p scheduler" where
  "handle_cancel_wakeup slot s =
     (let (changed, s') = cancel_wakeup slot s
      in (changed, if changed then NotifyOne else NotifyNone, s'))"

definition handle_begin_shutdown :: "instant \<Rightarrow> 'p scheduler \<Rightarrow> notification \<times> 'p scheduler" where
  "handle_begin_shutdown now s = (NotifyWaiters, begin_shutdown now s)"

subsection \<open>The invariant\<close>

lemma metrics_simps [simp]:
  "sc_delayed_resume_capacity (on_metrics f s) = sc_delayed_resume_capacity s"
  "sc_wakeup_capacity (on_metrics f s) = sc_wakeup_capacity s"
  "sc_next_sequence (on_metrics f s) = sc_next_sequence s"
  "sc_next_revision (on_metrics f s) = sc_next_revision s"
  "sc_delayed_resumes (on_metrics f s) = sc_delayed_resumes s"
  "sc_due_now (on_metrics f s) = sc_due_now s"
  "sc_heap (on_metrics f s) = sc_heap s"
  "sc_shutting_down (on_metrics f s) = sc_shutting_down s"
  by (simp_all add: on_metrics_def)

lemma gauges_simps [simp]:
  "sc_delayed_resume_capacity (refresh_gauges s) = sc_delayed_resume_capacity s"
  "sc_wakeup_capacity (refresh_gauges s) = sc_wakeup_capacity s"
  "sc_next_sequence (refresh_gauges s) = sc_next_sequence s"
  "sc_next_revision (refresh_gauges s) = sc_next_revision s"
  "sc_delayed_resumes (refresh_gauges s) = sc_delayed_resumes s"
  "sc_due_now (refresh_gauges s) = sc_due_now s"
  "sc_heap (refresh_gauges s) = sc_heap s"
  "sc_shutting_down (refresh_gauges s) = sc_shutting_down s"
  by (simp_all add: refresh_gauges_def)

abbreviation wakeups :: "'p scheduler \<Rightarrow> wakeup_slot \<Rightarrow> wakeup_priority option" where
  "wakeups s \<equiv> heap_entry (sc_heap s)"

fun is_resume :: "'p local_control_msg \<Rightarrow> bool" where
  "is_resume (ResumeData w d) \<longleftrightarrow> True"
| "is_resume (Wakeup slot w revision) \<longleftrightarrow> False"

definition sched_inv :: "'p scheduler \<Rightarrow> bool" where
  "sched_inv s \<longleftrightarrow> heap_inv (sc_heap s) \<and> sorted_wrt resume_cmp_ge (sc_delayed_resumes s) \<and>
     length (sc_delayed_resumes s) \<le> sc_delayed_resume_capacity s \<and>
     card (dom (wakeups s)) \<le> sc_wakeup_capacity s \<and>
     list_all is_resume (sc_due_now s) \<and>
     (\<not> sc_shutting_down s \<longrightarrow> sc_due_now s = []) \<and>
     (sc_shutting_down s \<longrightarrow> sc_delayed_resumes s = [] \<and> wakeups s = Map.empty)"

lemma set_resume_push [simp]: "set (resume_push r rs) = insert r (set rs)"
  by (induction rs) auto

lemma length_resume_push [simp]: "length (resume_push r rs) = Suc (length rs)"
  by (induction rs) auto

lemma mset_resume_push [simp]: "mset (resume_push r rs) = add_mset r (mset rs)"
  by (induction rs) auto

lemma resume_cmp_total: "resume_cmp_ge a b \<or> resume_cmp_ge b a"
  by (auto simp: resume_cmp_ge_def)

lemma resume_cmp_trans: "resume_cmp_ge a b \<Longrightarrow> resume_cmp_ge b c \<Longrightarrow> resume_cmp_ge a c"
  by (auto simp: resume_cmp_ge_def)

lemma sorted_resume_push: "sorted_wrt resume_cmp_ge rs \<Longrightarrow> sorted_wrt resume_cmp_ge (resume_push r rs)"
proof (induction rs)
  case (Cons x xs)
  show ?case
  proof (cases "resume_cmp_ge x r")
    case True
    with Cons show ?thesis by auto
  next
    case False
    then have "resume_cmp_ge r x" using resume_cmp_total by blast
    then have "resume_cmp_ge r y" if "y \<in> set xs" for y
      using Cons.prems that by (auto intro: resume_cmp_trans)
    with \<open>resume_cmp_ge r x\<close> False Cons.prems show ?thesis by auto
  qed
qed simp

lemma new_scheduler_inv: "sched_inv (new_scheduler c w m)"
  by (simp add: sched_inv_def new_scheduler_def hq.empty)

lemma requeue_form:
  assumes "requeue_later w d s = (r, s')"
  obtains (rejected) "sc_shutting_down s \<or> sc_delayed_resume_capacity s \<le> length (sc_delayed_resumes s)"
      "r = Inl d" "s' = s"
  | (accepted) "\<not> sc_shutting_down s" "length (sc_delayed_resumes s) < sc_delayed_resume_capacity s" "r = Inr ()"
      "s' = s\<lparr>sc_next_sequence := sat_add (sc_next_sequence s) 1, sc_delayed_resumes :=
         resume_push \<lparr>sr_when = w, sr_sequence = sc_next_sequence s, sr_data = d\<rparr> (sc_delayed_resumes s)\<rparr>"
  using assms by (fastforce simp: requeue_later_def next_sequence_def split: if_splits)

lemma set_wakeup_form:
  assumes "heap_inv (sc_heap s)" "set_wakeup slot w s = (r, s')"
  obtains (rejected) e where "r = Inl e" "sc_heap s' = sc_heap s" "sc_next_revision s' = sc_next_revision s"
      "e = WakeUnsupported \<and> sc_wakeup_capacity s = 0 \<or>
       e = WakeShuttingDown \<and> sc_wakeup_capacity s \<noteq> 0 \<and> sc_shutting_down s \<or>
       e = WakeCapacity \<and> \<not> sc_shutting_down s \<and> wakeups s slot = None \<and>
         sc_wakeup_capacity s \<le> card (dom (wakeups s))"
      "sc_delayed_resumes s' = sc_delayed_resumes s" "sc_due_now s' = sc_due_now s"
      "sc_shutting_down s' = sc_shutting_down s" "sc_wakeup_capacity s' = sc_wakeup_capacity s"
      "sc_delayed_resume_capacity s' = sc_delayed_resume_capacity s" "sc_next_sequence s' = sc_next_sequence s"
  | (accepted) "\<not> sc_shutting_down s" "wakeups s slot \<noteq> None \<or> card (dom (wakeups s)) < sc_wakeup_capacity s"
      "r = Inr (if wakeups s slot = None then WakeInserted (sc_next_revision s) else WakeReplaced (sc_next_revision s))"
      "heap_inv (sc_heap s')" "wakeups s' = (wakeups s)(slot \<mapsto> WakeupPriority w (sc_next_revision s))"
      "sc_next_revision s' = sat_add (sc_next_revision s) 1"
      "sc_delayed_resumes s' = sc_delayed_resumes s" "sc_due_now s' = sc_due_now s"
      "sc_shutting_down s' = sc_shutting_down s" "sc_wakeup_capacity s' = sc_wakeup_capacity s"
      "sc_delayed_resume_capacity s' = sc_delayed_resume_capacity s" "sc_next_sequence s' = sc_next_sequence s"
proof -
  obtain out h where ins: "heap_insert slot (WakeupPriority w (sc_next_revision s)) (sc_heap s) = (out, h)"
    by (rule prod.exhaust)
  note l = hq.insert [OF assms(1) ins]
  have has: "heap_contains_key slot (sc_heap s) \<longleftrightarrow> wakeups s slot \<noteq> None"
    using hq.contains [OF assms(1)] by (simp add: domIff)
  have len: "heap_len (sc_heap s) = card (dom (wakeups s))" using hq.size_of [OF assms(1)] .
  note e = assms(2) [unfolded set_wakeup_def next_revision_def, simplified Let_def ins, simplified]
  show thesis
  proof (cases "sc_wakeup_capacity s = 0 \<or> sc_shutting_down s \<or>
      (wakeups s slot = None \<and> sc_wakeup_capacity s \<le> card (dom (wakeups s)))")
    case True
    then show thesis using e has len
      by (intro rejected [of "if sc_wakeup_capacity s = 0 then WakeUnsupported
          else if sc_shutting_down s then WakeShuttingDown else WakeCapacity"])
        (auto split: if_splits)
  next
    case False
    then show thesis using e has len l ins by (intro accepted) (auto split: if_splits)
  qed
qed

lemma cancel_form:
  assumes "heap_inv (sc_heap s)" "cancel_wakeup slot s = (b, s')"
  shows "heap_inv (sc_heap s')" "b \<longleftrightarrow> \<not> sc_shutting_down s \<and> wakeups s slot \<noteq> None"
    "wakeups s' = (if sc_shutting_down s then wakeups s else (wakeups s)(slot := None))"
    "sc_delayed_resumes s' = sc_delayed_resumes s" "sc_due_now s' = sc_due_now s"
    "sc_shutting_down s' = sc_shutting_down s" "sc_wakeup_capacity s' = sc_wakeup_capacity s"
    "sc_delayed_resume_capacity s' = sc_delayed_resume_capacity s" "sc_next_revision s' = sc_next_revision s"
    "sc_next_sequence s' = sc_next_sequence s"
proof -
  obtain e h where rm: "heap_remove slot (sc_heap s) = (e, h)" by (rule prod.exhaust)
  note l = hq.remove [OF assms(1) rm]
  note c = assms(2) [unfolded cancel_wakeup_def, simplified Let_def rm, simplified]
  show "heap_inv (sc_heap s')" "b \<longleftrightarrow> \<not> sc_shutting_down s \<and> wakeups s slot \<noteq> None"
    "wakeups s' = (if sc_shutting_down s then wakeups s else (wakeups s)(slot := None))"
    "sc_delayed_resumes s' = sc_delayed_resumes s" "sc_due_now s' = sc_due_now s"
    "sc_shutting_down s' = sc_shutting_down s" "sc_wakeup_capacity s' = sc_wakeup_capacity s"
    "sc_delayed_resume_capacity s' = sc_delayed_resume_capacity s" "sc_next_revision s' = sc_next_revision s"
    "sc_next_sequence s' = sc_next_sequence s"
    using c l assms(1) by (auto split: if_splits)
qed

lemma priority_when: "p \<le> q \<Longrightarrow> wp_when p \<le> wp_when q"
  by (auto simp: wakeup_priority_less_eq wakeup_priority_le_def)

lemma pop_due_form:
  assumes inv: "sched_inv s" and pop: "pop_due now s = (r, s')"
  obtains (due_now) msg rest where "sc_due_now s = msg # rest" "r = Some msg" "s' = s\<lparr>sc_due_now := rest\<rparr>"
  | (resume) x xs where "sc_due_now s = []" "sc_delayed_resumes s = x # xs" "sr_when x \<le> now"
      "\<forall>p \<in> ran (wakeups s). sr_when x \<le> wp_when p" "r = Some (ResumeData (sr_when x) (sr_data x))"
      "s' = s\<lparr>sc_delayed_resumes := xs\<rparr>"
  | (wakeup) slot p where "sc_due_now s = []" "wakeups s slot = Some p" "wp_when p \<le> now"
      "\<forall>q \<in> ran (wakeups s). p \<le> q" "\<forall>x \<in> set (sc_delayed_resumes s). wp_when p < sr_when x"
      "r = Some (Wakeup slot (wp_when p) (wp_revision p))" "heap_inv (sc_heap s')"
      "wakeups s' = (wakeups s)(slot := None)" "sc_delayed_resumes s' = sc_delayed_resumes s" "sc_due_now s' = []"
      "sc_shutting_down s' = sc_shutting_down s" "sc_wakeup_capacity s' = sc_wakeup_capacity s"
      "sc_delayed_resume_capacity s' = sc_delayed_resume_capacity s" "sc_next_revision s' = sc_next_revision s"
      "sc_next_sequence s' = sc_next_sequence s"
  | (idle) "sc_due_now s = []" "r = None" "s' = s" "\<forall>x \<in> set (sc_delayed_resumes s). now < sr_when x"
      "\<forall>p \<in> ran (wakeups s). now < wp_when p"
proof (cases "sc_due_now s")
  case (Cons msg rest)
  then show thesis using pop by (intro due_now) (auto simp: pop_due_def)
next
  case Nil
  have hinv: "heap_inv (sc_heap s)" and srt: "sorted_wrt resume_cmp_ge (sc_delayed_resumes s)"
    using inv by (simp_all add: sched_inv_def)
  have first: "sr_when x \<le> sr_when y" if "sc_delayed_resumes s = x # xs" "y \<in> set (sc_delayed_resumes s)" for x xs y
    using srt that by (auto simp: resume_cmp_ge_def)
  obtain e h where hp: "heap_pop (sc_heap s) = (e, h)" by (rule prod.exhaust)
  have pk: "e = heap_peek (sc_heap s)" using hq.pop [OF hinv hp] by simp
  show thesis
  proof (cases e)
    case None
    with hq.peek_None [OF hinv] pk have none: "wakeups s = Map.empty" by simp
    show thesis
    proof (cases "sc_delayed_resumes s")
      case Nil2: Nil
      with pop Nil None pk have "r = None" "s' = s" by (auto simp: pop_due_def resume_peek_def)
      then show thesis using idle Nil Nil2 none by simp
    next
      case (Cons x xs)
      show thesis
      proof (cases "sr_when x \<le> now")
        case True
        with pop Nil Cons None pk have "r = Some (ResumeData (sr_when x) (sr_data x))"
          "s' = s\<lparr>sc_delayed_resumes := xs\<rparr>" by (auto simp: pop_due_def resume_peek_def resume_pop_def)
        then show thesis using resume Nil Cons True none by simp
      next
        case False
        with pop Nil Cons None pk have "r = None" "s' = s" by (auto simp: pop_due_def resume_peek_def)
        moreover have "\<forall>y \<in> set (sc_delayed_resumes s). now < sr_when y"
          using first [OF Cons] False by (metis le_less_trans not_le order_trans)
        ultimately show thesis using idle Nil none by simp
      qed
    qed
  next
    case (Some kp)
    obtain slot p where kp: "kp = (slot, p)" by (rule prod.exhaust)
    have hp': "heap_pop (sc_heap s) = (Some (slot, p), h)" using hp Some kp by simp
    have pk': "heap_peek (sc_heap s) = Some (slot, p)" using pk Some kp by simp
    note m = hq.pop_min [OF hinv hp']
    have mw: "wp_when p \<le> wp_when q" if "q \<in> ran (wakeups s)" for q using m(2) that priority_when by blast
    have pr: "p \<in> ran (wakeups s)" using m(1) by (rule ranI)
    show thesis
    proof (cases "\<exists>x xs. sc_delayed_resumes s = x # xs \<and> sr_when x \<le> now \<and>
        (now < wp_when p \<or> sr_when x \<le> wp_when p)")
      case True
      then obtain x xs where x: "sc_delayed_resumes s = x # xs" "sr_when x \<le> now"
        "now < wp_when p \<or> sr_when x \<le> wp_when p" by blast
      with pop Nil pk' have "r = Some (ResumeData (sr_when x) (sr_data x))"
          "s' = s\<lparr>sc_delayed_resumes := xs\<rparr>" by (auto simp: pop_due_def resume_peek_def resume_pop_def)
      moreover have "sr_when x \<le> wp_when p" using x by auto
      then have "\<forall>q \<in> ran (wakeups s). sr_when x \<le> wp_when q" using mw order_trans by blast
      ultimately show thesis using resume Nil x by simp
    next
      case False
      have nt: "\<not> (case (map_option sr_when (resume_peek (sc_delayed_resumes s)), Some (wp_when p)) of
          (Some a, Some b) \<Rightarrow> a \<le> now \<and> (b > now \<or> a \<le> b) | (Some a, None) \<Rightarrow> a \<le> now | (None, _) \<Rightarrow> False)"
        using False by (auto simp: resume_peek_def split: list.splits)
      show thesis
      proof (cases "now < wp_when p")
        case True
        have "r = None" "s' = s"
          using pop Nil pk' nt True by (auto simp: pop_due_def Let_def)
        moreover have "\<forall>q \<in> ran (wakeups s). now < wp_when q" using mw True less_le_trans by blast
        moreover have "\<forall>y \<in> set (sc_delayed_resumes s). now < sr_when y"
        proof (cases "sc_delayed_resumes s")
          case (Cons x xs)
          then have "now < sr_when x" using False True by auto
          with first [OF Cons] show ?thesis using less_le_trans by blast
        qed simp
        ultimately show thesis using idle Nil by simp
      next
        case due: False
        have "\<forall>y \<in> set (sc_delayed_resumes s). wp_when p < sr_when y"
        proof (cases "sc_delayed_resumes s")
          case (Cons x xs)
          then have "wp_when p < sr_when x" using False due by auto
          with first [OF Cons] show ?thesis using less_le_trans by blast
        qed simp
        moreover have "r = Some (Wakeup slot (wp_when p) (wp_revision p))"
          "s' = snd (pop_wakeup s)"
          using pop Nil pk' nt due hp' by (auto simp: pop_due_def pop_wakeup_def Let_def)
        moreover have "sc_heap (snd (pop_wakeup s)) = h" "sc_delayed_resumes (snd (pop_wakeup s)) = sc_delayed_resumes s"
          "sc_due_now (snd (pop_wakeup s)) = sc_due_now s" "sc_shutting_down (snd (pop_wakeup s)) = sc_shutting_down s"
          "sc_wakeup_capacity (snd (pop_wakeup s)) = sc_wakeup_capacity s"
          "sc_delayed_resume_capacity (snd (pop_wakeup s)) = sc_delayed_resume_capacity s"
          "sc_next_revision (snd (pop_wakeup s)) = sc_next_revision s"
          "sc_next_sequence (snd (pop_wakeup s)) = sc_next_sequence s"
          by (simp_all add: pop_wakeup_def hp' Let_def)
        ultimately show thesis
          using m due Nil by (intro wakeup [of slot p]) simp_all
      qed
    qed
  qed
qed

lemma begin_shutdown_form:
  assumes "heap_inv (sc_heap s)" "\<not> sc_shutting_down s"
  shows "sc_shutting_down (begin_shutdown now s)" "sc_delayed_resumes (begin_shutdown now s) = []"
    "sc_due_now (begin_shutdown now s) = sc_due_now s @ map (\<lambda>r. ResumeData now (sr_data r)) (sc_delayed_resumes s)"
    "heap_inv (sc_heap (begin_shutdown now s))" "wakeups (begin_shutdown now s) = Map.empty"
    "sc_wakeup_capacity (begin_shutdown now s) = sc_wakeup_capacity s"
    "sc_delayed_resume_capacity (begin_shutdown now s) = sc_delayed_resume_capacity s"
  using assms heap_clear_inv [OF assms(1)] by (simp_all add: begin_shutdown_def Let_def)

lemma begin_shutdown_idem: "sc_shutting_down s \<Longrightarrow> begin_shutdown now s = s"
  by (simp add: begin_shutdown_def)

subsection \<open>Histories\<close>

datatype 'p sched_op =
    SRequeue instant 'p
  | SSet wakeup_slot instant
  | SCancel wakeup_slot
  | SPop instant
  | SShutdown instant

datatype 'p sched_answer =
    RRequeue "'p + unit"
  | RSet "wakeup_error + wakeup_set_outcome"
  | RCancel bool
  | RPop "'p local_control_msg option"
  | RShutdown

fun exec_sched :: "'p sched_op \<Rightarrow> 'p scheduler \<Rightarrow> ('p sched_answer \<times> notification) \<times> 'p scheduler" where
  "exec_sched (SRequeue w d) s = (let (r, n, s') = handle_requeue_later w d s in ((RRequeue r, n), s'))"
| "exec_sched (SSet slot w) s = (let (r, n, s') = handle_set_wakeup slot w s in ((RSet r, n), s'))"
| "exec_sched (SCancel slot) s = (let (r, n, s') = handle_cancel_wakeup slot s in ((RCancel r, n), s'))"
| "exec_sched (SPop now) s = (let (r, s') = pop_due now s in ((RPop r, NotifyNone), s'))"
| "exec_sched (SShutdown now) s = (let (n, s') = handle_begin_shutdown now s in ((RShutdown, n), s'))"

inductive sched_reach :: "nat \<Rightarrow> nat \<Rightarrow> 'p scheduler \<Rightarrow> bool" for resumes slots where
  sched_start: "sched_reach resumes slots (new_scheduler resumes slots m)"
| sched_step: "sched_reach resumes slots s \<Longrightarrow> exec_sched c s = (r, s') \<Longrightarrow> sched_reach resumes slots s'"

fun payload :: "'p local_control_msg \<Rightarrow> 'p multiset" where
  "payload (ResumeData w d) = {#d#}"
| "payload (Wakeup slot w revision) = {#}"

definition retained :: "'p scheduler \<Rightarrow> 'p multiset" where
  "retained s = image_mset sr_data (mset (sc_delayed_resumes s)) + sum_list (map payload (sc_due_now s))"

fun accepted_payload :: "'p sched_op \<Rightarrow> 'p sched_answer \<times> notification \<Rightarrow> 'p multiset" where
  "accepted_payload (SRequeue w d) (RRequeue (Inr u), n) = {#d#}"
| "accepted_payload _ _ = {#}"

fun delivered_payload :: "'p sched_answer \<times> notification \<Rightarrow> 'p multiset" where
  "delivered_payload (RPop (Some msg), n) = payload msg"
| "delivered_payload _ = {#}"

lemma sum_payload_resumes:
  "sum_list (map payload (map (\<lambda>r. ResumeData now (sr_data r)) rs)) = image_mset sr_data (mset rs)"
  by (induction rs) simp_all

lemma finite_wakeups: "sched_inv s \<Longrightarrow> finite (dom (wakeups s))"
  using hq.finite_entries by (auto simp: sched_inv_def)

lemma exec_sched_law:
  assumes inv: "sched_inv s" and ex: "exec_sched c s = (r, s')"
  shows "sched_inv s' \<and> retained s + accepted_payload c r = delivered_payload r + retained s' \<and>
    sc_wakeup_capacity s' = sc_wakeup_capacity s \<and>
    sc_delayed_resume_capacity s' = sc_delayed_resume_capacity s"
proof -
  have hinv: "heap_inv (sc_heap s)" using inv by (simp add: sched_inv_def)
  note fin = finite_wakeups [OF inv]
  show ?thesis
  proof (cases c)
    case (SRequeue w d)
    obtain a s1 where rq: "requeue_later w d s = (a, s1)" by (rule prod.exhaust)
    with ex SRequeue have r: "r = (RRequeue a, if a = Inr () then NotifyOne else NotifyNone)" "s' = s1"
      by (auto simp: handle_requeue_later_def)
    from rq show ?thesis
    proof (cases rule: requeue_form)
      case rejected
      then show ?thesis using r inv SRequeue by simp
    next
      case accepted
      have "sched_inv s1"
        using inv accepted sorted_resume_push by (auto simp: sched_inv_def)
      then show ?thesis using r accepted SRequeue by (simp add: retained_def)
    qed
  next
    case (SSet slot w)
    obtain a s1 where sw: "set_wakeup slot w s = (a, s1)" by (rule prod.exhaust)
    with ex SSet have r: "r = (RSet a, case a of Inr _ \<Rightarrow> NotifyOne | Inl _ \<Rightarrow> NotifyNone)" "s' = s1"
      by (auto simp: handle_set_wakeup_def)
    from hinv sw show ?thesis
    proof (cases rule: set_wakeup_form)
      case (rejected e)
      then have "sched_inv s1" using inv by (simp add: sched_inv_def)
      then show ?thesis using r rejected SSet by (simp add: retained_def)
    next
      case accepted
      have "card (insert slot (dom (wakeups s))) \<le> sc_wakeup_capacity s"
        using accepted(2) inv fin by (cases "slot \<in> dom (wakeups s)") (auto simp: sched_inv_def insert_absorb domIff)
      then have "sched_inv s1" using inv accepted by (simp add: sched_inv_def)
      then show ?thesis using r accepted SSet by (simp add: retained_def)
    qed
  next
    case (SCancel slot)
    obtain b s1 where cw: "cancel_wakeup slot s = (b, s1)" by (rule prod.exhaust)
    with ex SCancel have r: "r = (RCancel b, if b then NotifyOne else NotifyNone)" "s' = s1"
      by (auto simp: handle_cancel_wakeup_def)
    note f = cancel_form [OF hinv cw]
    have "card (dom ((wakeups s)(slot := None))) \<le> sc_wakeup_capacity s"
      using inv fin card_mono [of "dom (wakeups s)" "dom (wakeups s) - {slot}"] by (auto simp: sched_inv_def)
    then have "sched_inv s1" using inv f by (auto simp: sched_inv_def split: if_splits)
    then show ?thesis using r f SCancel by (simp add: retained_def)
  next
    case (SPop now)
    obtain a s1 where pd: "pop_due now s = (a, s1)" by (rule prod.exhaust)
    with ex SPop have r: "r = (RPop a, NotifyNone)" "s' = s1" by auto
    from inv pd show ?thesis
    proof (cases rule: pop_due_form)
      case (due_now msg rest)
      then have "sched_inv s1" using inv by (auto simp: sched_inv_def)
      then show ?thesis using r due_now SPop by (simp add: retained_def)
    next
      case (resume x xs)
      then have "sched_inv s1" using inv by (auto simp: sched_inv_def)
      then show ?thesis using r resume SPop by (simp add: retained_def)
    next
      case (wakeup slot p)
      have "card (dom ((wakeups s)(slot := None))) \<le> sc_wakeup_capacity s"
        using inv fin card_mono [of "dom (wakeups s)" "dom (wakeups s) - {slot}"] by (auto simp: sched_inv_def)
      then have "sched_inv s1" using inv wakeup by (auto simp: sched_inv_def)
      then show ?thesis using r wakeup SPop by (simp add: retained_def)
    next
      case idle
      then show ?thesis using r inv SPop by simp
    qed
  next
    case (SShutdown now)
    with ex have r: "r = (RShutdown, NotifyWaiters)" "s' = begin_shutdown now s"
      by (auto simp: handle_begin_shutdown_def)
    show ?thesis
    proof (cases "sc_shutting_down s")
      case True
      then show ?thesis using r inv SShutdown by (simp add: begin_shutdown_idem)
    next
      case False
      note f = begin_shutdown_form [OF hinv False, of now]
      have "sched_inv s'" using inv False f r by (simp add: sched_inv_def list_all_iff)
      then show ?thesis using r f SShutdown False by (simp add: retained_def sum_payload_resumes [simplified])
    qed
  qed
qed

interpretation sched: step_system exec_sched sched_inv
  by unfold_locales (metis exec_sched_law prod.collapse)

interpretation sched_count: counting_system exec_sched sched_inv retained accepted_payload delivered_payload
  by unfold_locales (use exec_sched_law in blast)

lemma sched_reach_inv: "sched_reach resumes slots s \<Longrightarrow> sched_inv s"
proof (induction rule: sched_reach.induct)
  case (sched_start m)
  show ?case by (rule new_scheduler_inv)
next
  case (sched_step s c r s')
  then show ?case using exec_sched_law by blast
qed

lemma sched_reach_run:
  "sched_reach resumes slots s \<Longrightarrow> run_ops exec_sched cs s = (rs, s') \<Longrightarrow> sched_reach resumes slots s'"
proof (induction cs arbitrary: s rs)
  case (Cons c cs)
  from Cons.prems(2) obtain r s1 rs' where "exec_sched c s = (r, s1)" "run_ops exec_sched cs s1 = (rs', s')"
    by (rule run_ops_Cons)
  with Cons show ?case by (blast intro: sched_step)
qed simp

lemma sched_reach_new: "sched_reach resumes slots (snd (run_ops exec_sched cs (new_scheduler resumes slots m)))"
  by (rule sched_reach_run [OF sched_start]) (rule prod.collapse [symmetric])

subsection \<open>Properties of the scheduler\<close>

lemma sched_reach_capacity:
  "sched_reach resumes slots s \<Longrightarrow> sc_delayed_resume_capacity s = resumes \<and> sc_wakeup_capacity s = slots"
proof (induction rule: sched_reach.induct)
  case (sched_start m)
  show ?case by (simp add: new_scheduler_def)
next
  case (sched_step s c r s')
  with exec_sched_law [OF sched_reach_inv [OF sched_step(1)] sched_step(2)] show ?case by simp
qed

definition demo_sched :: "string scheduler" where
  "demo_sched = snd (run_ops exec_sched
     [SRequeue 50 ''b'', SRequeue 20 ''a'', SSet (WakeupSlot 1) 30, SSet (WakeupSlot 2) 20, SSet (WakeupSlot 1) 40]
     (new_scheduler 4 2 None))"

lemma demo_sched_reach: "sched_reach 4 2 demo_sched"
  unfolding demo_sched_def by (rule sched_reach_new)

lemmas sched_eval = handle_requeue_later_def handle_set_wakeup_def requeue_later_def set_wakeup_def
  next_sequence_def next_revision_def new_scheduler_def on_metrics_def refresh_gauges_def
  resume_cmp_ge_def sat_add_def u64_max_def heap_insert_def heap_new_def heap_contains_key_def
  heap_expect_def heap_len_def heap_sift_up.simps heap_sift_down.simps heap_repair_at_def prio_at_def
  heap_swap_def swap_list_def less_eq_wakeup_priority_def less_wakeup_priority_def
  wakeup_priority_le_def Let_def

lemma demo_sched_facts:
  "sc_due_now demo_sched = []" "sc_shutting_down demo_sched = False"
  "sc_delayed_resumes demo_sched = [\<lparr>sr_when = 20, sr_sequence = 1, sr_data = ''a''\<rparr>,
     \<lparr>sr_when = 50, sr_sequence = 0, sr_data = ''b''\<rparr>]"
  "hp_entries (sc_heap demo_sched) = [(WakeupSlot 2, WakeupPriority 20 1), (WakeupSlot 1, WakeupPriority 40 2)]"
  by (simp_all add: demo_sched_def sched_eval)

text \<open>
  C19. A retained payload is never lost or duplicated, not even by shutdown: over any history, the
  payloads whose requeue was accepted are those delivered as \<^verbatim>\<open>ResumeData\<close> together with those still
  retained.
\<close>

theorem scheduler_conserves_payloads:
  assumes "run_ops exec_sched cs (new_scheduler resumes slots m) = (rs, s)"
  shows "sum_list (map2 accepted_payload cs rs) = sum_list (map delivered_payload rs) + retained s"
  using sched_count.run_conserve [OF new_scheduler_inv assms]
  by (simp add: retained_def new_scheduler_def)

definition demo_sched_ops :: "string sched_op list" where
  "demo_sched_ops = [SRequeue 50 ''b'', SRequeue 20 ''a'', SPop 25, SShutdown 30]"

theorem scheduler_conserves_payloads_witness:
  "sum_list (map2 accepted_payload demo_sched_ops (fst (run_ops exec_sched demo_sched_ops (new_scheduler 4 2 None)))) =
   sum_list (map delivered_payload (fst (run_ops exec_sched demo_sched_ops (new_scheduler 4 2 None)))) +
   retained (snd (run_ops exec_sched demo_sched_ops (new_scheduler 4 2 None)))"
  by (rule scheduler_conserves_payloads) simp

fun msg_when :: "'p local_control_msg \<Rightarrow> instant" where
  "msg_when (ResumeData w d) = w"
| "msg_when (Wakeup slot w revision) = w"

definition deadlines :: "'p scheduler \<Rightarrow> instant set" where
  "deadlines s = sr_when ` set (sc_delayed_resumes s) \<union> wp_when ` ran (heap_entry (sc_heap s))"

text \<open>
  C20. The due stream is ordered. Unless shutdown has put payloads up for immediate delivery,
  \<^verbatim>\<open>pop_due\<close> returns a message whose deadline has come and is the earliest of all, a retained payload
  before a wakeup of the same deadline; it returns nothing only if nothing is due.
\<close>

theorem pop_due_earliest:
  assumes "sched_reach resumes slots s" "sc_due_now s = []" "pop_due now s = (r, s')"
  shows "case r of
      None \<Rightarrow> s' = s \<and> (\<forall>t \<in> deadlines s. now < t)
    | Some msg \<Rightarrow> msg_when msg \<in> deadlines s \<and> msg_when msg \<le> now \<and> (\<forall>t \<in> deadlines s. msg_when msg \<le> t) \<and>
        (is_resume msg \<or> msg_when msg \<notin> sr_when ` set (sc_delayed_resumes s))"
proof -
  have inv: "sched_inv s" by (rule sched_reach_inv [OF assms(1)])
  from inv assms(3) show ?thesis
  proof (cases rule: pop_due_form)
    case (due_now msg rest)
    then show ?thesis using assms(2) by simp
  next
    case (resume x xs)
    have "sr_when x \<le> sr_when y" if "y \<in> set (sc_delayed_resumes s)" for y
      using inv resume(2) that by (auto simp: sched_inv_def resume_cmp_ge_def)
    then show ?thesis using resume by (auto simp: deadlines_def)
  next
    case (wakeup slot p)
    have "p \<in> ran (wakeups s)" using wakeup(2) by (rule ranI)
    moreover have "\<forall>q \<in> ran (wakeups s). wp_when p \<le> wp_when q" using wakeup(4) priority_when by blast
    ultimately show ?thesis using wakeup(3,5,6) by (auto simp: deadlines_def intro: less_imp_le)
  next
    case idle
    then show ?thesis by (auto simp: deadlines_def)
  qed
qed

theorem pop_due_earliest_witness:
  "fst (pop_due 25 demo_sched) = Some (ResumeData 20 ''a'') \<and> deadlines demo_sched \<subseteq> {20..}"
proof -
  have e: "fst (pop_due 25 demo_sched) = Some (ResumeData 20 ''a'')"
    by (simp add: pop_due_def demo_sched_facts resume_peek_def heap_peek_def resume_pop_def)
  then obtain s' where "pop_due 25 demo_sched = (Some (ResumeData 20 ''a''), s')" by (metis prod.collapse)
  from pop_due_earliest [OF demo_sched_reach demo_sched_facts(1) this] e show ?thesis by auto
qed

text \<open>
  Sleeping until \<^verbatim>\<open>next_expiry\<close> is exact: at any moment there is a message to pop if and only if
  the reported expiry has come, and none is reported only when everything has drained.
\<close>

theorem next_expiry_exact:
  assumes "sched_reach resumes slots s"
  shows "(fst (pop_due now s) \<noteq> None \<longleftrightarrow> (\<exists>t. next_expiry now s = Some t \<and> t \<le> now)) \<and>
    (next_expiry now s = None \<longleftrightarrow> is_drained s)"
proof -
  have inv: "sched_inv s" by (rule sched_reach_inv [OF assms])
  have hinv: "heap_inv (sc_heap s)" using inv by (simp add: sched_inv_def)
  have drained: "heap_is_empty (sc_heap s) \<longleftrightarrow> heap_peek (sc_heap s) = None"
    by (auto simp: heap_is_empty_def heap_peek_def split: list.splits)
  have peek: "heap_peek (sc_heap s) = None \<longleftrightarrow> wakeups s = Map.empty" by (rule hq.peek_None [OF hinv])
  obtain r s' where pop: "pop_due now s = (r, s')" by (rule prod.exhaust)
  have srt: "sr_when x \<le> sr_when y" if "sc_delayed_resumes s = x # xs" "y \<in> set (sc_delayed_resumes s)" for x xs y
    using inv that by (auto simp: sched_inv_def resume_cmp_ge_def)
  have "r \<noteq> None \<longleftrightarrow> (\<exists>t. next_expiry now s = Some t \<and> t \<le> now)"
    using inv pop
  proof (cases rule: pop_due_form)
    case (due_now msg rest)
    then show ?thesis by (simp add: next_expiry_def)
  next
    case (resume x xs)
    then show ?thesis by (cases "heap_peek (sc_heap s)") (auto simp: next_expiry_def resume_peek_def min_def)
  next
    case (wakeup slot p)
    then obtain k q where q: "heap_peek (sc_heap s) = Some (k, q)" using peek by (cases "heap_peek (sc_heap s)") auto
    have "q \<le> p" using hq.peek_Some [OF hinv q] wakeup(2) by (blast intro: ranI)
    then have "wp_when q \<le> now" using wakeup(3) priority_when order_trans by blast
    then show ?thesis using wakeup(1,6) q
      by (cases "sc_delayed_resumes s") (auto simp: next_expiry_def resume_peek_def min_def)
  next
    case idle
    have "now < wp_when q" if "heap_peek (sc_heap s) = Some (k, q)" for k q
      using idle(5) hq.peek_Some [OF hinv that] by (blast intro: ranI)
    then show ?thesis using idle
      by (cases "sc_delayed_resumes s"; cases "heap_peek (sc_heap s)")
        (auto simp: next_expiry_def resume_peek_def min_def not_le)
  qed
  moreover have "next_expiry now s = None \<longleftrightarrow> is_drained s"
    by (cases "sc_delayed_resumes s"; cases "heap_peek (sc_heap s)")
      (auto simp: next_expiry_def resume_peek_def is_drained_def drained)
  ultimately show ?thesis using pop by simp
qed

lemma peek_priority_eq:
  assumes "heap_inv h" "heap_inv h'" "heap_entry h = heap_entry h'"
  shows "map_option snd (heap_peek h) = map_option snd (heap_peek h')"
proof (cases "heap_peek h")
  case None
  then have "heap_peek h' = None" using hq.peek_None [OF assms(1)] hq.peek_None [OF assms(2)] assms(3) by simp
  then show ?thesis using None by simp
next
  case (Some kp)
  then have "heap_peek h' \<noteq> None" using hq.peek_None [OF assms(1)] hq.peek_None [OF assms(2)] assms(3) by simp
  then obtain jq where Some': "heap_peek h' = Some jq" by blast
  obtain k p j q where kp: "kp = (k, p)" "jq = (j, q)" by (metis prod.exhaust)
  have P: "heap_entry h' k = Some p" "\<forall>x \<in> ran (heap_entry h'). p \<le> x"
    using hq.peek_Some [OF assms(1)] Some kp assms(3) by simp_all
  have Q: "heap_entry h' j = Some q" "\<forall>x \<in> ran (heap_entry h'). q \<le> x"
    using hq.peek_Some [OF assms(2)] Some' kp by simp_all
  from Q(1) have "q \<in> ran (heap_entry h')" by (rule ranI)
  with P(2) have "p \<le> q" by blast
  moreover from P(1) have "p \<in> ran (heap_entry h')" by (rule ranI)
  with Q(2) have "q \<le> p" by blast
  ultimately show ?thesis using Some Some' kp by simp
qed

text \<open>
  No change goes unnoticed: a call other than popping that changes the next expiry notifies the
  inbox loop, which may be asleep until the old one.
\<close>

theorem handle_notifies_changes:
  assumes "sched_reach resumes slots s" "exec_sched c s = ((a, n), s')" "\<And>t. c \<noteq> SPop t"
    and "next_expiry now s' \<noteq> next_expiry now s"
  shows "n \<noteq> NotifyNone"
proof
  assume n: "n = NotifyNone"
  have inv: "sched_inv s" by (rule sched_reach_inv [OF assms(1)])
  have hinv: "heap_inv (sc_heap s)" using inv by (simp add: sched_inv_def)
  have same: "next_expiry now s' = next_expiry now s"
    if "sc_due_now s' = sc_due_now s" "sc_delayed_resumes s' = sc_delayed_resumes s" "sc_heap s' = sc_heap s"
    using that by (simp add: next_expiry_def)
  show False
  proof (cases c)
    case (SRequeue w d)
    obtain r s1 where rq: "requeue_later w d s = (r, s1)" by (rule prod.exhaust)
    with assms(2) SRequeue n have "r \<noteq> Inr ()" "s' = s1" by (auto simp: handle_requeue_later_def split: if_splits)
    with rq have "s' = s" by (cases rule: requeue_form) auto
    then show False using assms(4) by simp
  next
    case (SSet slot w)
    obtain r s1 where sw: "set_wakeup slot w s = (r, s1)" by (rule prod.exhaust)
    with assms(2) SSet n have r: "isl r" "s' = s1" by (auto simp: handle_set_wakeup_def split: sum.splits)
    from hinv sw show False
    proof (cases rule: set_wakeup_form)
      case (rejected e)
      then show False using same r assms(4) by simp
    qed (use r in simp)
  next
    case (SCancel slot)
    obtain b s1 where cw: "cancel_wakeup slot s = (b, s1)" by (rule prod.exhaust)
    with assms(2) SCancel n have r: "\<not> b" "s' = s1" by (auto simp: handle_cancel_wakeup_def split: if_splits)
    note f = cancel_form [OF hinv cw]
    have w: "wakeups s1 = wakeups s" using f(2,3) r(1) by auto
    from peek_priority_eq [OF f(1) hinv this]
    have "map_option wp_when (map_option snd (heap_peek (sc_heap s1))) =
        map_option wp_when (map_option snd (heap_peek (sc_heap s)))" by simp
    then have "next_expiry now s1 = next_expiry now s"
      using f(4,5) by (simp add: next_expiry_def option.map_comp comp_def case_prod_beta')
    then show False using assms(4) r by simp
  next
    case (SPop t)
    then show False using assms(3) by blast
  next
    case (SShutdown t)
    then show False using assms(2) n by (auto simp: handle_begin_shutdown_def)
  qed
qed

lemma pop_due_now:
  "sc_due_now s = ms \<Longrightarrow> length nows = length ms \<Longrightarrow>
     run_ops exec_sched (map SPop nows) s =
       (map (\<lambda>m. (RPop (Some m), NotifyNone)) ms, s\<lparr>sc_due_now := []\<rparr>)"
proof (induction ms arbitrary: s nows)
  case Nil
  then show ?case by (cases s) simp
next
  case (Cons m ms)
  then obtain t ts where nows: "nows = t # ts" by (cases nows) auto
  have "pop_due t s = (Some m, s\<lparr>sc_due_now := ms\<rparr>)" using Cons.prems(1) by (simp add: pop_due_def)
  then show ?case using Cons.IH [of "s\<lparr>sc_due_now := ms\<rparr>" ts] Cons.prems(2) by (simp add: nows)
qed

text \<open>
  Shutdown drains. Once shutdown is latched, popping hands out every retained payload, in the
  order of the deadlines they had and whatever the clock says, and after as many calls as there were
  payloads everything has drained; all wakeups are dropped and nothing new is accepted.
\<close>

theorem shutdown_drains_payloads:
  assumes "sched_reach resumes slots s" "\<not> sc_shutting_down s" "length nows = length (sc_delayed_resumes s)"
  shows "\<exists>s'. run_ops exec_sched (map SPop nows) (begin_shutdown now s) =
      (map (\<lambda>r. (RPop (Some (ResumeData now (sr_data r))), NotifyNone)) (sc_delayed_resumes s), s') \<and>
    is_drained s' \<and> sorted (map sr_when (sc_delayed_resumes s)) \<and>
    fst (requeue_later w d s') = Inl d \<and> (\<exists>e. fst (set_wakeup slot w s') = Inl e)"
proof -
  have inv: "sched_inv s" by (rule sched_reach_inv [OF assms(1)])
  then have hinv: "heap_inv (sc_heap s)" and due: "sc_due_now s = []"
    and srt: "sorted_wrt resume_cmp_ge (sc_delayed_resumes s)" using assms(2) by (simp_all add: sched_inv_def)
  note f = begin_shutdown_form [OF hinv assms(2), of now]
  define s' where "s' = (begin_shutdown now s)\<lparr>sc_due_now := []\<rparr>"
  have "run_ops exec_sched (map SPop nows) (begin_shutdown now s) =
      (map (\<lambda>r. (RPop (Some (ResumeData now (sr_data r))), NotifyNone)) (sc_delayed_resumes s), s')"
    using pop_due_now [OF f(3)] due assms(3) by (simp add: s'_def o_def)
  moreover have "heap_peek (sc_heap (begin_shutdown now s)) = None" using hq.peek_None [OF f(4)] f(5) by simp
  then have "is_drained s'"
    using f(2) by (auto simp: is_drained_def s'_def heap_is_empty_def heap_peek_def split: list.splits)
  moreover have "sorted (map sr_when (sc_delayed_resumes s))"
    using srt by (simp add: sorted_wrt_map) (rule sorted_wrt_mono_rel [rotated], assumption, auto simp: resume_cmp_ge_def)
  moreover have "sc_shutting_down s'" using f(1) by (simp add: s'_def)
  ultimately show ?thesis by (auto simp: requeue_later_def set_wakeup_def)
qed

text \<open>
  C21. The scheduler stays within the capacities it was created with, and the index heap inside it
  never panics: its \<^verbatim>\<open>assert_consistent\<close>, which debug builds run on every poll, always holds.
\<close>

theorem scheduler_bounded:
  assumes "sched_reach resumes slots s"
  shows "length (sc_delayed_resumes s) \<le> resumes \<and> heap_len (sc_heap s) \<le> slots \<and>
    \<not> hp_panicked (sc_heap s) \<and> heap_consistent (sc_heap s)"
proof -
  have inv: "sched_inv s" by (rule sched_reach_inv [OF assms])
  then have hinv: "heap_inv (sc_heap s)" by (simp add: sched_inv_def)
  from heap_inv_consistent [OF hinv] hq.size_of [OF hinv] sched_reach_capacity [OF assms] inv
  show ?thesis by (simp add: sched_inv_def)
qed

theorem scheduler_bounded_witness: "heap_len (sc_heap demo_sched) \<le> 2"
  using scheduler_bounded [OF demo_sched_reach] by blast

end
