(* ===== verification/Pipeline_Events.thy ===== *)
theory Pipeline_Events
  imports Prelude
begin

section \<open>Observed events of the engine\<close>

text \<open>
  The vocabulary of \<^verbatim>\<open>telemetry/src/event.rs\<close> and the pipeline keys of
  \<^verbatim>\<open>config/src/lib.rs\<close>: request, success and error events, the engine event that carries
  one of them for a deployed pipeline, and the constructors the engine and the controller
  use. \<^verbatim>\<open>SystemTime::now()\<close> is the first argument of each constructor. Core numbers and
  deployment generations are only compared, and are natural numbers. The record of a log
  event is opaque: the state store only forwards it to the console.
\<close>

type_synonym system_time = nat
type_synonym core_id = nat
type_synonym generation = nat

subsection \<open>Keys\<close>

record pipeline_key =
  pk_pipeline_group_id :: string
  pk_pipeline_id :: string

definition new_pipeline_key :: "string \<Rightarrow> string \<Rightarrow> pipeline_key" where
  "new_pipeline_key g p = \<lparr>pk_pipeline_group_id = g, pk_pipeline_id = p\<rparr>"

definition pipeline_key_as_string :: "pipeline_key \<Rightarrow> string" where
  "pipeline_key_as_string k = pk_pipeline_group_id k @ '':'' @ pk_pipeline_id k"

record deployed_pipeline_key =
  dk_pipeline_group_id :: string
  dk_pipeline_id :: string
  dk_core_id :: core_id
  dk_deployment_generation :: generation

datatype node_kind = NodeReceiver | NodeProcessor | NodeExporter

subsection \<open>Event types\<close>

datatype request_event =
    ReqStartRequested
  | ReqShutdownRequested
  | ReqDeleteRequested
  | ReqForceDeleteRequested

datatype success_event =
    OkAdmitted
  | OkReady
  | OkUpdateAdmitted
  | OkUpdateApplied
  | OkRollbackComplete
  | OkIngressDrainStarted
  | OkReceiversDrained
  | OkDownstreamShutdownStarted
  | OkDrained
  | OkDeleted

text \<open>
  \<open>SummaryPipeline error_kind message source\<close> and
  \<open>SummaryNode node node_kind error_kind message source\<close>.
\<close>

datatype error_summary =
    SummaryPipeline string string "string option"
  | SummaryNode string node_kind string string "string option"

datatype error_event =
    ErrAdmissionError error_summary
  | ErrConfigRejected error_summary
  | ErrUpdateFailed error_summary
  | ErrRollbackFailed error_summary
  | ErrDrainError error_summary
  | ErrDrainDeadlineReached
  | ErrRuntimeError error_summary
  | ErrDeleteError error_summary

datatype event_type =
    EvRequest request_event
  | EvSuccess success_event
  | EvError error_event

record engine_event =
  ev_key :: deployed_pipeline_key
  ev_node_id :: "string option"
  ev_node_kind :: "node_kind option"
  ev_time :: system_time
  ev_type :: event_type
  ev_message :: "string option"

typedecl log_record

record log_event =
  log_time :: system_time
  log_record :: log_record

datatype observed_event =
    ObsEngine engine_event
  | ObsLog log_event

fun error_event_kind :: "error_event \<Rightarrow> string" where
  "error_event_kind (ErrAdmissionError _) = ''admission_error''"
| "error_event_kind (ErrConfigRejected _) = ''config_rejected''"
| "error_event_kind (ErrUpdateFailed _) = ''update_failed''"
| "error_event_kind (ErrRollbackFailed _) = ''rollback_failed''"
| "error_event_kind (ErrDrainError _) = ''drain_error''"
| "error_event_kind ErrDrainDeadlineReached = ''drain_deadline_reached''"
| "error_event_kind (ErrRuntimeError _) = ''runtime_error''"
| "error_event_kind (ErrDeleteError _) = ''delete_error''"

fun error_event_summary :: "error_event \<Rightarrow> error_summary option" where
  "error_event_summary (ErrAdmissionError e) = Some e"
| "error_event_summary (ErrConfigRejected e) = Some e"
| "error_event_summary (ErrUpdateFailed e) = Some e"
| "error_event_summary (ErrRollbackFailed e) = Some e"
| "error_event_summary (ErrDrainError e) = Some e"
| "error_event_summary (ErrRuntimeError e) = Some e"
| "error_event_summary (ErrDeleteError e) = Some e"
| "error_event_summary ErrDrainDeadlineReached = None"

fun summary_error_kind :: "error_summary \<Rightarrow> string" where
  "summary_error_kind (SummaryPipeline k _ _) = k"
| "summary_error_kind (SummaryNode _ _ k _ _) = k"

fun error_summary_message :: "error_summary \<Rightarrow> string" where
  "error_summary_message (SummaryPipeline _ m _) = m"
| "error_summary_message (SummaryNode _ _ _ m _) = m"

fun summary_source :: "error_summary \<Rightarrow> string option" where
  "summary_source (SummaryPipeline _ _ src) = src"
| "summary_source (SummaryNode _ _ _ _ src) = src"

fun summary_node :: "error_summary \<Rightarrow> (string \<times> node_kind) option" where
  "summary_node (SummaryPipeline _ _ _) = None"
| "summary_node (SummaryNode n k _ _ _) = Some (n, k)"

subsection \<open>Constructors of engine events\<close>

definition admitted :: "system_time \<Rightarrow> deployed_pipeline_key \<Rightarrow> string option \<Rightarrow> engine_event" where
  "admitted now key message =
     \<lparr>ev_key = key, ev_node_id = None, ev_node_kind = None, ev_time = now,
       ev_type = EvSuccess OkAdmitted, ev_message = message\<rparr>"

definition ready :: "system_time \<Rightarrow> deployed_pipeline_key \<Rightarrow> string option \<Rightarrow> engine_event" where
  "ready now key message =
     \<lparr>ev_key = key, ev_node_id = None, ev_node_kind = None, ev_time = now,
       ev_type = EvSuccess OkReady, ev_message = message\<rparr>"

definition update_admitted :: "system_time \<Rightarrow> deployed_pipeline_key \<Rightarrow> string option \<Rightarrow> engine_event" where
  "update_admitted now key message =
     \<lparr>ev_key = key, ev_node_id = None, ev_node_kind = None, ev_time = now,
       ev_type = EvSuccess OkUpdateAdmitted, ev_message = message\<rparr>"

definition update_applied :: "system_time \<Rightarrow> deployed_pipeline_key \<Rightarrow> string option \<Rightarrow> engine_event" where
  "update_applied now key message =
     \<lparr>ev_key = key, ev_node_id = None, ev_node_kind = None, ev_time = now,
       ev_type = EvSuccess OkUpdateApplied, ev_message = message\<rparr>"

definition rollback_complete :: "system_time \<Rightarrow> deployed_pipeline_key \<Rightarrow> string option \<Rightarrow> engine_event" where
  "rollback_complete now key message =
     \<lparr>ev_key = key, ev_node_id = None, ev_node_kind = None, ev_time = now,
       ev_type = EvSuccess OkRollbackComplete, ev_message = message\<rparr>"

definition ingress_drain_started :: "system_time \<Rightarrow> deployed_pipeline_key \<Rightarrow> string option \<Rightarrow> engine_event" where
  "ingress_drain_started now key message =
     \<lparr>ev_key = key, ev_node_id = None, ev_node_kind = None, ev_time = now,
       ev_type = EvSuccess OkIngressDrainStarted, ev_message = message\<rparr>"

definition receivers_drained :: "system_time \<Rightarrow> deployed_pipeline_key \<Rightarrow> string option \<Rightarrow> engine_event" where
  "receivers_drained now key message =
     \<lparr>ev_key = key, ev_node_id = None, ev_node_kind = None, ev_time = now,
       ev_type = EvSuccess OkReceiversDrained, ev_message = message\<rparr>"

definition downstream_shutdown_started :: "system_time \<Rightarrow> deployed_pipeline_key \<Rightarrow> string option \<Rightarrow> engine_event" where
  "downstream_shutdown_started now key message =
     \<lparr>ev_key = key, ev_node_id = None, ev_node_kind = None, ev_time = now,
       ev_type = EvSuccess OkDownstreamShutdownStarted, ev_message = message\<rparr>"

definition drained :: "system_time \<Rightarrow> deployed_pipeline_key \<Rightarrow> string option \<Rightarrow> engine_event" where
  "drained now key message =
     \<lparr>ev_key = key, ev_node_id = None, ev_node_kind = None, ev_time = now,
       ev_type = EvSuccess OkDrained, ev_message = message\<rparr>"

definition deleted :: "system_time \<Rightarrow> deployed_pipeline_key \<Rightarrow> string option \<Rightarrow> engine_event" where
  "deleted now key message =
     \<lparr>ev_key = key, ev_node_id = None, ev_node_kind = None, ev_time = now,
       ev_type = EvSuccess OkDeleted, ev_message = message\<rparr>"

definition admission_error ::
  "system_time \<Rightarrow> deployed_pipeline_key \<Rightarrow> string option \<Rightarrow> error_summary \<Rightarrow> engine_event" where
  "admission_error now key message error =
     \<lparr>ev_key = key, ev_node_id = None, ev_node_kind = None, ev_time = now,
       ev_type = EvError (ErrAdmissionError error), ev_message = message\<rparr>"

definition config_rejected ::
  "system_time \<Rightarrow> deployed_pipeline_key \<Rightarrow> string option \<Rightarrow> error_summary \<Rightarrow> engine_event" where
  "config_rejected now key message error =
     \<lparr>ev_key = key, ev_node_id = None, ev_node_kind = None, ev_time = now,
       ev_type = EvError (ErrConfigRejected error), ev_message = message\<rparr>"

definition update_failed ::
  "system_time \<Rightarrow> deployed_pipeline_key \<Rightarrow> string option \<Rightarrow> error_summary \<Rightarrow> engine_event" where
  "update_failed now key message error =
     \<lparr>ev_key = key, ev_node_id = None, ev_node_kind = None, ev_time = now,
       ev_type = EvError (ErrUpdateFailed error), ev_message = message\<rparr>"

definition rollback_failed ::
  "system_time \<Rightarrow> deployed_pipeline_key \<Rightarrow> string option \<Rightarrow> error_summary \<Rightarrow> engine_event" where
  "rollback_failed now key message error =
     \<lparr>ev_key = key, ev_node_id = None, ev_node_kind = None, ev_time = now,
       ev_type = EvError (ErrRollbackFailed error), ev_message = message\<rparr>"

definition drain_error ::
  "system_time \<Rightarrow> deployed_pipeline_key \<Rightarrow> string option \<Rightarrow> error_summary \<Rightarrow> engine_event" where
  "drain_error now key message error =
     \<lparr>ev_key = key, ev_node_id = None, ev_node_kind = None, ev_time = now,
       ev_type = EvError (ErrDrainError error), ev_message = message\<rparr>"

definition drain_deadline_reached :: "system_time \<Rightarrow> deployed_pipeline_key \<Rightarrow> string option \<Rightarrow> engine_event" where
  "drain_deadline_reached now key message =
     \<lparr>ev_key = key, ev_node_id = None, ev_node_kind = None, ev_time = now,
       ev_type = EvError ErrDrainDeadlineReached, ev_message = message\<rparr>"

definition delete_error ::
  "system_time \<Rightarrow> deployed_pipeline_key \<Rightarrow> string option \<Rightarrow> error_summary \<Rightarrow> engine_event" where
  "delete_error now key message error =
     \<lparr>ev_key = key, ev_node_id = None, ev_node_kind = None, ev_time = now,
       ev_type = EvError (ErrDeleteError error), ev_message = message\<rparr>"

definition pipeline_runtime_error ::
  "system_time \<Rightarrow> deployed_pipeline_key \<Rightarrow> string \<Rightarrow> error_summary \<Rightarrow> engine_event" where
  "pipeline_runtime_error now key message error =
     \<lparr>ev_key = key, ev_node_id = None, ev_node_kind = None, ev_time = now,
       ev_type = EvError (ErrRuntimeError error), ev_message = Some message\<rparr>"

definition node_runtime_error ::
  "system_time \<Rightarrow> deployed_pipeline_key \<Rightarrow> string \<Rightarrow> node_kind \<Rightarrow> string option \<Rightarrow> error_summary \<Rightarrow>
   engine_event" where
  "node_runtime_error now key nid kind message error =
     \<lparr>ev_key = key, ev_node_id = Some nid, ev_node_kind = Some kind, ev_time = now,
       ev_type = EvError (ErrRuntimeError error), ev_message = message\<rparr>"

definition start_requested :: "system_time \<Rightarrow> deployed_pipeline_key \<Rightarrow> string option \<Rightarrow> engine_event" where
  "start_requested now key message =
     \<lparr>ev_key = key, ev_node_id = None, ev_node_kind = None, ev_time = now,
       ev_type = EvRequest ReqStartRequested, ev_message = message\<rparr>"

definition shutdown_requested :: "system_time \<Rightarrow> deployed_pipeline_key \<Rightarrow> string option \<Rightarrow> engine_event" where
  "shutdown_requested now key message =
     \<lparr>ev_key = key, ev_node_id = None, ev_node_kind = None, ev_time = now,
       ev_type = EvRequest ReqShutdownRequested, ev_message = message\<rparr>"

definition delete_requested :: "system_time \<Rightarrow> deployed_pipeline_key \<Rightarrow> string option \<Rightarrow> engine_event" where
  "delete_requested now key message =
     \<lparr>ev_key = key, ev_node_id = None, ev_node_kind = None, ev_time = now,
       ev_type = EvRequest ReqDeleteRequested, ev_message = message\<rparr>"

definition force_delete_requested :: "system_time \<Rightarrow> deployed_pipeline_key \<Rightarrow> string option \<Rightarrow> engine_event" where
  "force_delete_requested now key message =
     \<lparr>ev_key = key, ev_node_id = None, ev_node_kind = None, ev_time = now,
       ev_type = EvRequest ReqForceDeleteRequested, ev_message = message\<rparr>"

lemmas event_constructors =
  admitted_def ready_def update_admitted_def update_applied_def rollback_complete_def ingress_drain_started_def receivers_drained_def downstream_shutdown_started_def drained_def deleted_def admission_error_def config_rejected_def update_failed_def rollback_failed_def drain_error_def delete_error_def drain_deadline_reached_def pipeline_runtime_error_def node_runtime_error_def start_requested_def shutdown_requested_def delete_requested_def force_delete_requested_def

subsection \<open>Facts\<close>

lemma pipeline_key_eqI:
  "pk_pipeline_group_id k = pk_pipeline_group_id k' \<Longrightarrow> pk_pipeline_id k = pk_pipeline_id k' \<Longrightarrow> k = (k' :: pipeline_key)"
  by simp

lemma colon_split:
  assumes "CHR '':'' \<notin> set a" "CHR '':'' \<notin> set b" "a @ CHR '':'' # x = b @ CHR '':'' # y"
  shows "a = b \<and> x = y"
  using assms
proof (induction a arbitrary: b)
  case Nil
  then show ?case by (cases b) auto
next
  case (Cons c a)
  then show ?case by (cases b) auto
qed

text \<open>The error kinds are distinct tags: equal tags mean the same kind of error.\<close>

lemma error_event_kind_tag:
  "error_event_kind e = ''drain_deadline_reached'' \<longleftrightarrow> error_event_summary e = None"
  by (cases e) simp_all

end
