(* ===== verification/Pipeline_Phase.thy ===== *)
theory Pipeline_Phase
  imports Pipeline_Events
begin

section \<open>Phases, conditions and health policy\<close>

text \<open>
  The data of \<^verbatim>\<open>state/src/phase.rs\<close>, \<^verbatim>\<open>state/src/conditions.rs\<close>, \<^verbatim>\<open>state/src/error.rs\<close>,
  \<^verbatim>\<open>config/src/health.rs\<close> and the ring buffer of \<^verbatim>\<open>state/src/lib.rs\<close>, with their operations.
\<close>

subsection \<open>Phases\<close>

datatype fail_reason =
    FailAdmissionError
  | FailConfigRejected
  | FailRuntimeError
  | FailDrainError
  | FailRollbackFailed
  | FailDeleteError

datatype reject_reason = RejectAdmissionError | RejectConfigRejected

datatype deletion_mode = Graceful | Forced

datatype pipeline_phase =
    PhasePending
  | PhaseStarting
  | PhaseRunning
  | PhaseDraining
  | PhaseStopped
  | PhaseFailed fail_reason
  | PhaseRejected reject_reason
  | PhaseUpdating
  | PhaseRollingBack
  | PhaseDeleting deletion_mode
  | PhaseDeleted

datatype phase_kind =
    KindPending
  | KindStarting
  | KindRunning
  | KindUpdating
  | KindRollingBack
  | KindDraining
  | KindStopped
  | KindRejected
  | KindFailed
  | KindDeleting
  | KindDeleted

fun kind_of :: "pipeline_phase \<Rightarrow> phase_kind" where
  "kind_of PhasePending = KindPending"
| "kind_of PhaseStarting = KindStarting"
| "kind_of PhaseRunning = KindRunning"
| "kind_of PhaseUpdating = KindUpdating"
| "kind_of PhaseRollingBack = KindRollingBack"
| "kind_of PhaseDraining = KindDraining"
| "kind_of PhaseStopped = KindStopped"
| "kind_of (PhaseFailed _) = KindFailed"
| "kind_of (PhaseDeleting _) = KindDeleting"
| "kind_of PhaseDeleted = KindDeleted"
| "kind_of (PhaseRejected _) = KindRejected"

fun phase_label :: "pipeline_phase \<Rightarrow> string" where
  "phase_label PhasePending = ''Pending''"
| "phase_label PhaseRunning = ''Running''"
| "phase_label PhaseDraining = ''Draining''"
| "phase_label PhaseStopped = ''Stopped''"
| "phase_label (PhaseFailed _) = ''Failed''"
| "phase_label (PhaseRejected _) = ''Rejected''"
| "phase_label PhaseStarting = ''Starting''"
| "phase_label PhaseUpdating = ''Updating''"
| "phase_label PhaseRollingBack = ''RollingBack''"
| "phase_label (PhaseDeleting _) = ''Deleting''"
| "phase_label PhaseDeleted = ''Deleted''"

fun is_terminal :: "pipeline_phase \<Rightarrow> bool" where
  "is_terminal PhaseStopped = True"
| "is_terminal PhaseDeleted = True"
| "is_terminal (PhaseFailed _) = True"
| "is_terminal (PhaseRejected _) = True"
| "is_terminal PhasePending = False"
| "is_terminal PhaseStarting = False"
| "is_terminal PhaseRunning = False"
| "is_terminal PhaseDraining = False"
| "is_terminal PhaseUpdating = False"
| "is_terminal PhaseRollingBack = False"
| "is_terminal (PhaseDeleting _) = False"

subsection \<open>Health policy\<close>

datatype quorum = AtLeast nat | Percent nat

record health_policy =
  hp_live_if :: "phase_kind list"
  hp_ready_if :: "phase_kind list"
  hp_live_quorum :: quorum
  hp_ready_quorum :: quorum

definition default_live_if :: "phase_kind list" where
  "default_live_if =
     [KindPending, KindStarting, KindRunning, KindUpdating, KindRollingBack, KindDraining,
      KindStopped, KindRejected, KindFailed, KindDeleting]"

definition default_ready_if :: "phase_kind list" where
  "default_ready_if = [KindRunning, KindUpdating]"

definition default_live_quorum :: quorum where
  "default_live_quorum = AtLeast 1"

definition default_ready_quorum :: quorum where
  "default_ready_quorum = Percent 100"

definition default_health_policy :: health_policy where
  "default_health_policy =
     \<lparr>hp_live_if = default_live_if, hp_ready_if = default_ready_if,
      hp_live_quorum = default_live_quorum, hp_ready_quorum = default_ready_quorum\<rparr>"

definition is_live :: "health_policy \<Rightarrow> phase_kind \<Rightarrow> bool" where
  "is_live p k = (k \<in> set (hp_live_if p))"

definition is_ready :: "health_policy \<Rightarrow> phase_kind \<Rightarrow> bool" where
  "is_ready p k = (k \<in> set (hp_ready_if p))"

subsection \<open>Conditions\<close>

datatype condition_status = StatusTrue | StatusFalse | StatusUnknown

fun condition_status_as_str :: "condition_status \<Rightarrow> string" where
  "condition_status_as_str StatusTrue = ''True''"
| "condition_status_as_str StatusFalse = ''False''"
| "condition_status_as_str StatusUnknown = ''Unknown''"

datatype condition_kind = CondAccepted | CondReady | CondCoresAccepted

fun condition_kind_as_str :: "condition_kind \<Rightarrow> string" where
  "condition_kind_as_str CondAccepted = ''Accepted''"
| "condition_kind_as_str CondReady = ''Ready''"
| "condition_kind_as_str CondCoresAccepted = ''CoresAccepted''"

datatype condition_reason =
    RsnPending
  | RsnStartRequested
  | RsnShutdownRequested
  | RsnDeleteRequested
  | RsnForceDeleteRequested
  | RsnConfigValid
  | RsnRunning
  | RsnUpdateApplied
  | RsnUpdating
  | RsnRollingBack
  | RsnDraining
  | RsnDrained
  | RsnStopped
  | RsnDeleting
  | RsnForceDeleting
  | RsnDeleted
  | RsnInitializing
  | RsnAdmissionError
  | RsnConfigRejected
  | RsnRuntimeError
  | RsnDrainError
  | RsnRollbackFailed
  | RsnDeleteError
  | RsnUpdateFailed
  | RsnQuorumMet
  | RsnQuorumNotMet
  | RsnNoActiveCores
  | RsnNoPipelineRuntime
  | RsnNotAccepted
  | RsnUnknown string

fun condition_reason_as_str :: "condition_reason \<Rightarrow> string" where
  "condition_reason_as_str RsnPending = ''Pending''"
| "condition_reason_as_str RsnStartRequested = ''StartRequested''"
| "condition_reason_as_str RsnShutdownRequested = ''ShutdownRequested''"
| "condition_reason_as_str RsnDeleteRequested = ''DeleteRequested''"
| "condition_reason_as_str RsnForceDeleteRequested = ''ForceDeleteRequested''"
| "condition_reason_as_str RsnConfigValid = ''ConfigValid''"
| "condition_reason_as_str RsnRunning = ''Running''"
| "condition_reason_as_str RsnUpdateApplied = ''UpdateApplied''"
| "condition_reason_as_str RsnUpdating = ''Updating''"
| "condition_reason_as_str RsnRollingBack = ''RollingBack''"
| "condition_reason_as_str RsnDraining = ''Draining''"
| "condition_reason_as_str RsnDrained = ''Drained''"
| "condition_reason_as_str RsnStopped = ''Stopped''"
| "condition_reason_as_str RsnDeleting = ''Deleting''"
| "condition_reason_as_str RsnForceDeleting = ''ForceDeleting''"
| "condition_reason_as_str RsnDeleted = ''Deleted''"
| "condition_reason_as_str RsnInitializing = ''Initializing''"
| "condition_reason_as_str RsnAdmissionError = ''AdmissionError''"
| "condition_reason_as_str RsnConfigRejected = ''ConfigRejected''"
| "condition_reason_as_str RsnRuntimeError = ''RuntimeError''"
| "condition_reason_as_str RsnDrainError = ''DrainError''"
| "condition_reason_as_str RsnRollbackFailed = ''RollbackFailed''"
| "condition_reason_as_str RsnDeleteError = ''DeleteError''"
| "condition_reason_as_str RsnUpdateFailed = ''UpdateFailed''"
| "condition_reason_as_str RsnQuorumMet = ''QuorumMet''"
| "condition_reason_as_str RsnQuorumNotMet = ''QuorumNotMet''"
| "condition_reason_as_str RsnNoActiveCores = ''NoActiveCores''"
| "condition_reason_as_str RsnNoPipelineRuntime = ''NoPipelineRuntime''"
| "condition_reason_as_str RsnNotAccepted = ''NotAccepted''"
| "condition_reason_as_str (RsnUnknown v) = v"

definition unknown_reason :: "string \<Rightarrow> condition_reason" where
  "unknown_reason v = RsnUnknown v"

record condition_state =
  cn_status :: condition_status
  cn_reason :: "condition_reason option"
  cn_message :: "string option"
  cn_last_transition_time :: "system_time option"

definition new_condition_state ::
  "condition_status \<Rightarrow> condition_reason option \<Rightarrow> string option \<Rightarrow> system_time option \<Rightarrow> condition_state" where
  "new_condition_state st r m t =
     \<lparr>cn_status = st, cn_reason = r, cn_message = m, cn_last_transition_time = t\<rparr>"

definition update_condition ::
  "condition_status \<Rightarrow> condition_reason option \<Rightarrow> string option \<Rightarrow> system_time \<Rightarrow> condition_state \<Rightarrow>
   bool \<times> condition_state" where
  "update_condition st r m t c =
     (if cn_status c = st \<and> cn_reason c = r \<and> cn_message c = m then (False, c)
      else (True, c\<lparr>cn_status := st, cn_reason := r, cn_message := m,
                     cn_last_transition_time := Some t\<rparr>))"

definition default_condition_state :: condition_state where
  "default_condition_state =
     \<lparr>cn_status = StatusUnknown, cn_reason = None, cn_message = None, cn_last_transition_time = None\<rparr>"

record pipeline_condition =
  pc_kind :: condition_kind
  pc_status :: condition_status
  pc_reason :: "condition_reason option"
  pc_message :: "string option"
  pc_last_transition_time :: "system_time option"

definition condition_from_state :: "condition_kind \<Rightarrow> condition_state \<Rightarrow> pipeline_condition" where
  "condition_from_state k c =
     \<lparr>pc_kind = k, pc_status = cn_status c, pc_reason = cn_reason c, pc_message = cn_message c,
      pc_last_transition_time = cn_last_transition_time c\<rparr>"

subsection \<open>Errors\<close>

datatype state_error =
    ChannelClosed observed_event
  | ChannelTimeout observed_event
  | InvalidTransition pipeline_phase event_type string

subsection \<open>The ring buffer of recent events\<close>

record ring_buffer =
  rb_buf :: "observed_event list"
  rb_cap :: nat

definition new_ring_buffer :: "nat \<Rightarrow> ring_buffer" where
  "new_ring_buffer c = \<lparr>rb_buf = [], rb_cap = c\<rparr>"

definition ring_push :: "observed_event \<Rightarrow> ring_buffer \<Rightarrow> ring_buffer" where
  "ring_push e b =
     b\<lparr>rb_buf := (if length (rb_buf b) = rb_cap b then tl (rb_buf b) else rb_buf b) @ [e]\<rparr>"

definition ring_is_empty :: "ring_buffer \<Rightarrow> bool" where
  "ring_is_empty b = (rb_buf b = [])"

definition ring_serialize :: "ring_buffer \<Rightarrow> observed_event list" where
  "ring_serialize b = rev (rb_buf b)"

subsection \<open>Facts\<close>

lemma kind_deleted [simp]: "kind_of p = KindDeleted \<longleftrightarrow> p = PhaseDeleted"
  by (cases p) simp_all

lemma kind_rejected [simp]: "kind_of p = KindRejected \<longleftrightarrow> (\<exists>r. p = PhaseRejected r)"
  by (cases p) simp_all

lemma new_condition_simps [simp]:
  "cn_status (new_condition_state st r m t) = st"
  "cn_last_transition_time (new_condition_state st r m t) = t"
  by (simp_all add: new_condition_state_def)

text \<open>After an update the condition has the new contents, and it is stamped exactly if they changed.\<close>

lemma update_condition_contents [simp]:
  "cn_status (snd (update_condition st r m t c)) = st"
  "cn_reason (snd (update_condition st r m t c)) = r"
  "cn_message (snd (update_condition st r m t c)) = m"
  by (auto simp: update_condition_def)

lemma update_condition_stamp:
  "cn_last_transition_time (snd (update_condition st r m t c)) =
     (if fst (update_condition st r m t c) then Some t else cn_last_transition_time c)"
  by (simp add: update_condition_def)

lemma update_condition_idempotent:
  "update_condition st r m t' (snd (update_condition st r m t c)) =
     (False, snd (update_condition st r m t c))"
  by (subst update_condition_def) simp

definition last_n :: "nat \<Rightarrow> 'a list \<Rightarrow> 'a list" where
  "last_n n xs = drop (length xs - n) xs"

lemma last_n_length: "length (last_n n xs) = min n (length xs)"
  by (simp add: last_n_def min_def)

lemma last_n_snoc:
  assumes "0 < n"
  shows "last_n n (xs @ [x]) =
           (if length (last_n n xs) = n then tl (last_n n xs) else last_n n xs) @ [x]"
proof (cases "n \<le> length xs")
  case True
  then show ?thesis using assms
    by (simp add: last_n_def tl_drop drop_Suc [symmetric] Suc_diff_le)
next
  case False
  then show ?thesis by (simp add: last_n_def)
qed

text \<open>A ring buffer of positive capacity holds the last events pushed, oldest first.\<close>

lemma ring_push_last:
  assumes "0 < rb_cap b" "rb_buf b = last_n (rb_cap b) xs"
  shows "rb_buf (ring_push x b) = last_n (rb_cap (ring_push x b)) (xs @ [x])"
  using assms by (simp add: ring_push_def last_n_snoc)

lemma ring_push_cap [simp]: "rb_cap (ring_push x b) = rb_cap b"
  by (simp add: ring_push_def)

end
