(* ===== verification/Pipeline_Runtime.thy ===== *)
theory Pipeline_Runtime
  imports Pipeline_Phase
begin

section \<open>The status of one pipeline runtime\<close>

text \<open>
  \<^verbatim>\<open>state/src/pipeline_rt_status.rs\<close>: the per-core lifecycle state machine. \<^verbatim>\<open>apply\<close> matches on the
  pair of phase and event; the model has one function per phase, which answers \<open>None\<close> where no
  arm of the match fits, and \<open>apply_phase\<close> puts them together with the arms that ignore an
  event and the arm that rejects it.
\<close>

subsection \<open>State\<close>

record pipeline_runtime_status =
  rt_phase :: pipeline_phase
  rt_last_heartbeat_time :: system_time
  rt_recent_events :: ring_buffer
  rt_delete_pending :: bool
  rt_accepted_condition :: condition_state
  rt_ready_condition :: condition_state

datatype apply_outcome =
    NoChange
  | Transition pipeline_phase pipeline_phase
  | FlagChange string bool

definition default_runtime_status :: "system_time \<Rightarrow> pipeline_runtime_status" where
  "default_runtime_status now =
     \<lparr>rt_phase = PhasePending,
      rt_last_heartbeat_time = now,
      rt_recent_events = new_ring_buffer 5,
      rt_delete_pending = False,
      rt_accepted_condition = new_condition_state StatusFalse (Some RsnPending)
        (Some ''Pipeline runtime (core) is awaiting configuration validation.'') None,
      rt_ready_condition = new_condition_state StatusFalse (Some RsnPending)
        (Some ''Pipeline runtime (core) is not ready to process data.'') None\<rparr>"

subsection \<open>Phase transitions\<close>

definition goto :: "pipeline_phase \<Rightarrow> pipeline_runtime_status \<Rightarrow> apply_outcome \<times> pipeline_runtime_status" where
  "goto to s =
     (if to \<noteq> rt_phase s then
        (case (rt_phase s, to) of
           (PhaseFailed r, PhaseFailed r') \<Rightarrow>
             if r \<noteq> r' then FlagChange ''fail_reason'' True else NoChange
         | (PhaseDeleting m, PhaseDeleting m') \<Rightarrow>
             if m \<noteq> m' then FlagChange ''deletion_mode'' True else NoChange
         | (p, p') \<Rightarrow> Transition p p',
         s\<lparr>rt_phase := to\<rparr>)
      else (NoChange, s))"

definition go_to_deleting :: "deletion_mode \<Rightarrow> pipeline_runtime_status \<Rightarrow> apply_outcome \<times> pipeline_runtime_status" where
  "go_to_deleting m s = goto (PhaseDeleting m) (s\<lparr>rt_delete_pending := False\<rparr>)"

type_synonym arm = "(apply_outcome \<times> pipeline_runtime_status) option"

definition apply_pending :: "event_type \<Rightarrow> pipeline_runtime_status \<Rightarrow> arm" where
  "apply_pending ev s =
     (case ev of
        EvSuccess OkAdmitted \<Rightarrow> Some (goto PhaseStarting s)
      | EvError (ErrAdmissionError _) \<Rightarrow> Some (goto (PhaseFailed FailAdmissionError) s)
      | EvRequest ReqDeleteRequested \<Rightarrow> Some (go_to_deleting Graceful s)
      | EvRequest ReqForceDeleteRequested \<Rightarrow> Some (go_to_deleting Forced s)
      | EvRequest ReqStartRequested \<Rightarrow> Some (NoChange, s)
      | _ \<Rightarrow> None)"

definition apply_starting :: "event_type \<Rightarrow> pipeline_runtime_status \<Rightarrow> arm" where
  "apply_starting ev s =
     (case ev of
        EvSuccess OkReady \<Rightarrow> Some (goto PhaseRunning s)
      | EvError (ErrConfigRejected _) \<Rightarrow> Some (goto (PhaseFailed FailConfigRejected) s)
      | EvRequest ReqDeleteRequested \<Rightarrow> Some (go_to_deleting Graceful s)
      | EvRequest ReqForceDeleteRequested \<Rightarrow> Some (go_to_deleting Forced s)
      | _ \<Rightarrow> None)"

definition apply_running :: "event_type \<Rightarrow> pipeline_runtime_status \<Rightarrow> arm" where
  "apply_running ev s =
     (case ev of
        EvSuccess OkUpdateAdmitted \<Rightarrow> Some (goto PhaseUpdating s)
      | EvRequest ReqShutdownRequested \<Rightarrow> Some (goto PhaseDraining s)
      | EvError (ErrRuntimeError _) \<Rightarrow> Some (goto (PhaseFailed FailRuntimeError) s)
      | EvRequest ReqDeleteRequested \<Rightarrow> Some (goto PhaseDraining (s\<lparr>rt_delete_pending := True\<rparr>))
      | EvRequest ReqForceDeleteRequested \<Rightarrow> Some (go_to_deleting Forced s)
      | _ \<Rightarrow> None)"

definition apply_updating :: "event_type \<Rightarrow> pipeline_runtime_status \<Rightarrow> arm" where
  "apply_updating ev s =
     (case ev of
        EvSuccess OkUpdateApplied \<Rightarrow> Some (goto PhaseRunning s)
      | EvError (ErrUpdateFailed _) \<Rightarrow> Some (goto PhaseRollingBack s)
      | EvRequest ReqDeleteRequested \<Rightarrow> Some (goto PhaseDraining (s\<lparr>rt_delete_pending := True\<rparr>))
      | EvRequest ReqForceDeleteRequested \<Rightarrow> Some (go_to_deleting Forced s)
      | _ \<Rightarrow> None)"

definition apply_rolling_back :: "event_type \<Rightarrow> pipeline_runtime_status \<Rightarrow> arm" where
  "apply_rolling_back ev s =
     (case ev of
        EvSuccess OkRollbackComplete \<Rightarrow> Some (goto PhaseRunning s)
      | EvError (ErrRollbackFailed _) \<Rightarrow> Some (goto (PhaseFailed FailRollbackFailed) s)
      | EvRequest ReqDeleteRequested \<Rightarrow> Some (goto PhaseDraining (s\<lparr>rt_delete_pending := True\<rparr>))
      | EvRequest ReqForceDeleteRequested \<Rightarrow> Some (go_to_deleting Forced s)
      | _ \<Rightarrow> None)"

definition apply_draining :: "event_type \<Rightarrow> pipeline_runtime_status \<Rightarrow> arm" where
  "apply_draining ev s =
     (case ev of
        EvSuccess OkDrained \<Rightarrow>
          Some (if rt_delete_pending s
                then goto (PhaseDeleting Graceful) (s\<lparr>rt_delete_pending := False\<rparr>)
                else goto PhaseStopped s)
      | EvError (ErrDrainError _) \<Rightarrow> Some (goto (PhaseFailed FailDrainError) s)
      | EvError (ErrRuntimeError _) \<Rightarrow> Some (goto (PhaseFailed FailRuntimeError) s)
      | EvRequest ReqDeleteRequested \<Rightarrow>
          Some (if \<not> rt_delete_pending s
                then (FlagChange ''delete_pending'' True, s\<lparr>rt_delete_pending := True\<rparr>)
                else (NoChange, s))
      | EvRequest ReqForceDeleteRequested \<Rightarrow> Some (go_to_deleting Forced s)
      | _ \<Rightarrow> None)"

definition apply_stopped :: "event_type \<Rightarrow> pipeline_runtime_status \<Rightarrow> arm" where
  "apply_stopped ev s =
     (case ev of
        EvRequest ReqStartRequested \<Rightarrow> Some (goto PhasePending s)
      | EvRequest ReqDeleteRequested \<Rightarrow> Some (go_to_deleting Graceful s)
      | EvRequest ReqForceDeleteRequested \<Rightarrow> Some (go_to_deleting Forced s)
      | _ \<Rightarrow> None)"

definition apply_rejected :: "event_type \<Rightarrow> pipeline_runtime_status \<Rightarrow> arm" where
  "apply_rejected ev s =
     (case ev of
        EvRequest ReqStartRequested \<Rightarrow> Some (goto PhasePending s)
      | EvRequest ReqDeleteRequested \<Rightarrow> Some (go_to_deleting Graceful s)
      | EvRequest ReqForceDeleteRequested \<Rightarrow> Some (go_to_deleting Forced s)
      | _ \<Rightarrow> None)"

definition apply_failed :: "event_type \<Rightarrow> pipeline_runtime_status \<Rightarrow> arm" where
  "apply_failed ev s =
     (case ev of
        EvRequest ReqStartRequested \<Rightarrow> Some (goto PhasePending s)
      | EvRequest ReqDeleteRequested \<Rightarrow> Some (go_to_deleting Graceful s)
      | EvRequest ReqForceDeleteRequested \<Rightarrow> Some (go_to_deleting Forced s)
      | _ \<Rightarrow> None)"

definition apply_deleting :: "event_type \<Rightarrow> pipeline_runtime_status \<Rightarrow> arm" where
  "apply_deleting ev s =
     (case ev of
        EvSuccess OkDeleted \<Rightarrow> Some (goto PhaseDeleted s)
      | EvError (ErrDeleteError _) \<Rightarrow> Some (goto (PhaseFailed FailDeleteError) s)
      | EvRequest ReqDeleteRequested \<Rightarrow> Some (NoChange, s)
      | EvRequest ReqForceDeleteRequested \<Rightarrow> Some (NoChange, s)
      | _ \<Rightarrow> None)"

definition apply_deleted :: "event_type \<Rightarrow> pipeline_runtime_status \<Rightarrow> arm" where
  "apply_deleted ev s = Some (NoChange, s)"

definition benign_no_op :: "pipeline_phase \<Rightarrow> event_type \<Rightarrow> bool" where
  "benign_no_op p ev =
     (case p of
        PhaseStarting \<Rightarrow>
          (case ev of EvSuccess OkAdmitted \<Rightarrow> True | EvSuccess OkIngressDrainStarted \<Rightarrow> True | _ \<Rightarrow> False)
      | PhaseRunning \<Rightarrow>
          (case ev of EvSuccess OkReady \<Rightarrow> True | EvSuccess OkIngressDrainStarted \<Rightarrow> True | _ \<Rightarrow> False)
      | PhaseUpdating \<Rightarrow>
          (case ev of EvSuccess OkUpdateAdmitted \<Rightarrow> True | EvSuccess OkIngressDrainStarted \<Rightarrow> True
           | _ \<Rightarrow> False)
      | PhaseRollingBack \<Rightarrow>
          (case ev of EvError (ErrUpdateFailed _) \<Rightarrow> True | EvSuccess OkIngressDrainStarted \<Rightarrow> True
           | _ \<Rightarrow> False)
      | PhaseDraining \<Rightarrow>
          (case ev of
             EvSuccess OkIngressDrainStarted \<Rightarrow> True
           | EvSuccess OkReceiversDrained \<Rightarrow> True
           | EvSuccess OkDownstreamShutdownStarted \<Rightarrow> True
           | EvError ErrDrainDeadlineReached \<Rightarrow> True
           | EvRequest ReqShutdownRequested \<Rightarrow> True
           | _ \<Rightarrow> False)
      | PhaseStopped \<Rightarrow> (case ev of EvSuccess OkDrained \<Rightarrow> True | _ \<Rightarrow> False)
      | _ \<Rightarrow> False)"

definition apply_arm :: "event_type \<Rightarrow> pipeline_runtime_status \<Rightarrow> arm" where
  "apply_arm ev s =
     (case rt_phase s of
        PhasePending \<Rightarrow> apply_pending ev s
      | PhaseStarting \<Rightarrow> apply_starting ev s
      | PhaseRunning \<Rightarrow> apply_running ev s
      | PhaseUpdating \<Rightarrow> apply_updating ev s
      | PhaseRollingBack \<Rightarrow> apply_rolling_back ev s
      | PhaseDraining \<Rightarrow> apply_draining ev s
      | PhaseStopped \<Rightarrow> apply_stopped ev s
      | PhaseRejected _ \<Rightarrow> apply_rejected ev s
      | PhaseFailed _ \<Rightarrow> apply_failed ev s
      | PhaseDeleting _ \<Rightarrow> apply_deleting ev s
      | PhaseDeleted \<Rightarrow> apply_deleted ev s)"

definition apply_phase ::
  "event_type \<Rightarrow> pipeline_runtime_status \<Rightarrow> (state_error + apply_outcome) \<times> pipeline_runtime_status" where
  "apply_phase ev s =
     (case apply_arm ev s of
        Some (out, s') \<Rightarrow> (Inr out, s')
      | None \<Rightarrow>
          if benign_no_op (rt_phase s) ev then (Inr NoChange, s)
          else (Inl (InvalidTransition (rt_phase s) ev ''event not valid for current phase''), s))"

fun apply_many ::
  "event_type list \<Rightarrow> pipeline_runtime_status \<Rightarrow> (state_error + unit) \<times> pipeline_runtime_status" where
  "apply_many [] s = (Inr (), s)"
| "apply_many (ev # evs) s =
     (case apply_phase ev s of
        (Inl e, s') \<Rightarrow> (Inl e, s')
      | (Inr _, s') \<Rightarrow> apply_many evs s')"

subsection \<open>Conditions\<close>

definition set_accepted ::
  "condition_status \<Rightarrow> condition_reason \<Rightarrow> string option \<Rightarrow> system_time \<Rightarrow> pipeline_runtime_status \<Rightarrow>
   pipeline_runtime_status" where
  "set_accepted st r m t s =
     s\<lparr>rt_accepted_condition := snd (update_condition st (Some r) m t (rt_accepted_condition s))\<rparr>"

definition set_ready ::
  "condition_status \<Rightarrow> condition_reason \<Rightarrow> string option \<Rightarrow> system_time \<Rightarrow> pipeline_runtime_status \<Rightarrow>
   pipeline_runtime_status" where
  "set_ready st r m t s =
     s\<lparr>rt_ready_condition := snd (update_condition st (Some r) m t (rt_ready_condition s))\<rparr>"

definition or_message :: "string option \<Rightarrow> string \<Rightarrow> string option" where
  \<comment> \<open>\<^verbatim>\<open>event.message.clone().or_else(|| Some(default))\<close>\<close>
  "or_message m d = (case m of Some x \<Rightarrow> Some x | None \<Rightarrow> Some d)"

definition summary_message :: "error_summary \<Rightarrow> string option" where
  "summary_message e = (case e of SummaryPipeline _ m _ \<Rightarrow> Some m | SummaryNode _ _ _ m _ \<Rightarrow> Some m)"

fun error_reason :: "error_event \<Rightarrow> condition_reason" where
  "error_reason (ErrAdmissionError _) = RsnAdmissionError"
| "error_reason (ErrConfigRejected _) = RsnConfigRejected"
| "error_reason (ErrUpdateFailed _) = RsnUpdateFailed"
| "error_reason (ErrRollbackFailed _) = RsnRollbackFailed"
| "error_reason (ErrDrainError _) = RsnDrainError"
| "error_reason ErrDrainDeadlineReached = RsnDrainError"
| "error_reason (ErrRuntimeError _) = RsnRuntimeError"
| "error_reason (ErrDeleteError _) = RsnDeleteError"

definition error_reason_and_message :: "error_event \<Rightarrow> engine_event \<Rightarrow> condition_reason \<times> string option" where
  "error_reason_and_message err e =
     (error_reason err,
      case ev_message e of
        Some m \<Rightarrow> Some m
      | None \<Rightarrow>
          (case err of
             ErrAdmissionError x \<Rightarrow> summary_message x
           | ErrConfigRejected x \<Rightarrow> summary_message x
           | ErrUpdateFailed x \<Rightarrow> summary_message x
           | ErrRollbackFailed x \<Rightarrow> summary_message x
           | ErrDrainError x \<Rightarrow> summary_message x
           | ErrRuntimeError x \<Rightarrow> summary_message x
           | ErrDeleteError x \<Rightarrow> summary_message x
           | ErrDrainDeadlineReached \<Rightarrow>
               or_message (ev_message e) ''Drain deadline reached before natural completion.''))"

definition refresh_success :: "success_event \<Rightarrow> engine_event \<Rightarrow> pipeline_runtime_status \<Rightarrow> pipeline_runtime_status" where
  "refresh_success ok e s =
     (let t = ev_time e; msg = or_message (ev_message e) in
      case ok of
        OkAdmitted \<Rightarrow>
          set_accepted StatusTrue RsnConfigValid
            (msg ''Pipeline runtime (core) configuration validated and accepted.'') t s
      | OkReady \<Rightarrow>
          set_ready StatusTrue RsnRunning
            (msg ''Pipeline runtime (core) is running and ready to process data.'') t s
      | OkUpdateApplied \<Rightarrow>
          set_ready StatusTrue RsnUpdateApplied
            (msg ''Pipeline update applied; core is serving traffic.'') t s
      | OkRollbackComplete \<Rightarrow>
          set_ready StatusTrue RsnRunning
            (msg ''Rollback complete; core restored to last known good.'') t s
      | OkDrained \<Rightarrow>
          set_ready StatusFalse RsnDrained
            (msg ''Pipeline runtime (core) drained; waiting for shutdown or deletion.'') t s
      | OkDeleted \<Rightarrow>
          set_ready StatusFalse RsnDeleted (msg ''Pipeline runtime (core) resources deleted.'') t
            (set_accepted StatusFalse RsnDeleted (msg ''Pipeline runtime (core) resources deleted.'') t s)
      | OkUpdateAdmitted \<Rightarrow>
          if cn_status (rt_ready_condition s) \<noteq> StatusTrue then
            set_ready StatusTrue RsnUpdating
              (msg ''Pipeline runtime (core) update admitted and will begin applying.'') t s
          else s
      | OkIngressDrainStarted \<Rightarrow> s
      | OkReceiversDrained \<Rightarrow> s
      | OkDownstreamShutdownStarted \<Rightarrow> s)"

definition refresh_error :: "error_event \<Rightarrow> engine_event \<Rightarrow> pipeline_runtime_status \<Rightarrow> pipeline_runtime_status" where
  "refresh_error err e s =
     (let (r, m) = error_reason_and_message err e;
          s1 = set_ready StatusFalse r m (ev_time e) s in
      case err of
        ErrAdmissionError _ \<Rightarrow> set_accepted StatusFalse r m (ev_time e) s1
      | ErrConfigRejected _ \<Rightarrow> set_accepted StatusFalse r m (ev_time e) s1
      | _ \<Rightarrow> s1)"

definition refresh_request :: "request_event \<Rightarrow> engine_event \<Rightarrow> pipeline_runtime_status \<Rightarrow> pipeline_runtime_status" where
  "refresh_request req e s =
     (let t = ev_time e; msg = or_message (ev_message e) in
      case req of
        ReqStartRequested \<Rightarrow>
          set_accepted StatusFalse RsnStartRequested (msg ''Start requested; awaiting admission.'') t s
      | ReqShutdownRequested \<Rightarrow>
          set_ready StatusFalse RsnShutdownRequested (msg ''Shutdown requested; core will drain.'') t s
      | ReqDeleteRequested \<Rightarrow>
          set_ready StatusFalse RsnDeleteRequested (msg ''Delete requested; core entering draining.'') t s
      | ReqForceDeleteRequested \<Rightarrow>
          set_ready StatusFalse RsnForceDeleteRequested
            (msg ''Force delete requested; pipeline runtime (core) will terminate immediately.'') t s)"

definition refresh_conditions :: "engine_event \<Rightarrow> pipeline_runtime_status \<Rightarrow> pipeline_runtime_status" where
  "refresh_conditions e s =
     (case ev_type e of
        EvSuccess ok \<Rightarrow> refresh_success ok e s
      | EvError ErrDrainDeadlineReached \<Rightarrow> s
      | EvError err \<Rightarrow> refresh_error err e s
      | EvRequest req \<Rightarrow> refresh_request req e s)"

definition runtime_conditions :: "pipeline_runtime_status \<Rightarrow> pipeline_condition list" where
  "runtime_conditions s =
     [condition_from_state CondAccepted (rt_accepted_condition s),
      condition_from_state CondReady (rt_ready_condition s)]"

subsection \<open>Applying an observed event\<close>

definition apply_event ::
  "engine_event \<Rightarrow> pipeline_runtime_status \<Rightarrow> (state_error + apply_outcome) \<times> pipeline_runtime_status" where
  "apply_event e s =
     (let (out, s1) = apply_phase (ev_type e) s;
          s2 = s1\<lparr>rt_last_heartbeat_time := ev_time e\<rparr>;
          s3 = (case out of Inr _ \<Rightarrow> refresh_conditions e s2 | Inl _ \<Rightarrow> s2) in
      (out, s3\<lparr>rt_recent_events := ring_push (ObsEngine e) (rt_recent_events s3)\<rparr>))"

end
