(* ===== verification/Pipeline_Status.thy ===== *)
theory Pipeline_Status
  imports Pipeline_Runtime "HOL-Library.AList" "HOL-Library.Product_Lexorder"
begin

section \<open>The aggregated status of a logical pipeline\<close>

text \<open>
  \<^verbatim>\<open>state/src/pipeline_status.rs\<close>: which runtime instances represent a pipeline, and the
  conditions, liveness and readiness computed from them. A \<^verbatim>\<open>HashMap\<close> is an association list
  with distinct keys whose order is the iteration order of the map; laws that must not depend
  on that order say so. A \<^verbatim>\<open>HashSet\<close> that is only tested for membership is a set.
\<close>

subsection \<open>State\<close>

record runtime_instance_key =
  ri_core_id :: core_id
  ri_deployment_generation :: generation

datatype pipeline_rollout_state =
    RolloutPending
  | RolloutRunning
  | RolloutSucceeded
  | RolloutFailed
  | RolloutRollingBack
  | RolloutRollbackFailed

record pipeline_rollout_summary =
  rs_rollout_id :: string
  rs_state :: pipeline_rollout_state
  rs_target_generation :: generation
  rs_started_at :: string
  rs_updated_at :: string
  rs_failure_reason :: "string option"

record pipeline_status =
  ps_instances :: "(runtime_instance_key \<times> pipeline_runtime_status) list"
  ps_serving_generations :: "(core_id \<times> generation) list"
  ps_active_generation :: "generation option"
  ps_active_cores :: "core_id set"
  ps_rollout :: "pipeline_rollout_summary option"
  ps_health_policy :: health_policy

abbreviation instance_key :: "core_id \<Rightarrow> generation \<Rightarrow> runtime_instance_key" where
  "instance_key c g \<equiv> \<lparr>ri_core_id = c, ri_deployment_generation = g\<rparr>"

definition new_pipeline_status :: "health_policy \<Rightarrow> pipeline_status" where
  "new_pipeline_status hp =
     \<lparr>ps_instances = [], ps_serving_generations = [], ps_active_generation = None,
      ps_active_cores = {}, ps_rollout = None, ps_health_policy = hp\<rparr>"

definition instance_status :: "core_id \<Rightarrow> generation \<Rightarrow> pipeline_status \<Rightarrow> pipeline_runtime_status option" where
  "instance_status c g ps = map_of (ps_instances ps) (instance_key c g)"

definition set_active_generation :: "generation \<Rightarrow> pipeline_status \<Rightarrow> pipeline_status" where
  "set_active_generation g ps = ps\<lparr>ps_active_generation := Some g\<rparr>"

definition set_active_cores :: "core_id list \<Rightarrow> pipeline_status \<Rightarrow> pipeline_status" where
  "set_active_cores cs ps = ps\<lparr>ps_active_cores := set cs\<rparr>"

definition set_serving_generation :: "core_id \<Rightarrow> generation \<Rightarrow> pipeline_status \<Rightarrow> pipeline_status" where
  "set_serving_generation c g ps =
     ps\<lparr>ps_serving_generations := AList.update c g (ps_serving_generations ps)\<rparr>"

definition clear_serving_generation :: "core_id \<Rightarrow> pipeline_status \<Rightarrow> pipeline_status" where
  "clear_serving_generation c ps =
     ps\<lparr>ps_serving_generations := AList.delete c (ps_serving_generations ps)\<rparr>"

definition set_rollout_summary :: "pipeline_rollout_summary \<Rightarrow> pipeline_status \<Rightarrow> pipeline_status" where
  "set_rollout_summary r ps = ps\<lparr>ps_rollout := Some r\<rparr>"

definition clear_rollout_summary :: "pipeline_status \<Rightarrow> pipeline_status" where
  "clear_rollout_summary ps = ps\<lparr>ps_rollout := None\<rparr>"

subsection \<open>Selection of the serving instances\<close>

definition in_footprint :: "pipeline_status \<Rightarrow> core_id \<Rightarrow> bool" where
  "in_footprint ps c = (ps_active_cores ps = {} \<or> c \<in> ps_active_cores ps)"

definition select_active :: "pipeline_status \<Rightarrow> (core_id \<times> runtime_instance_key) list" where
  "select_active ps =
     (case ps_active_generation ps of
        None \<Rightarrow> []
      | Some g \<Rightarrow>
          fold (\<lambda>k m. AList.update (ri_core_id k) k m)
            (filter (\<lambda>k. ri_deployment_generation k = g \<and> in_footprint ps (ri_core_id k))
               (map fst (ps_instances ps))) [])"

definition pin_serving ::
  "runtime_instance_key list \<Rightarrow> core_id \<times> generation \<Rightarrow> (core_id \<times> runtime_instance_key) list \<Rightarrow>
   (core_id \<times> runtime_instance_key) list" where
  "pin_serving ks cg m =
     (let m1 = AList.delete (fst cg) m; k = instance_key (fst cg) (snd cg) in
      if k \<in> set ks then AList.update (fst cg) k m1 else m1)"

definition select_newest_step ::
  "pipeline_status \<Rightarrow> runtime_instance_key \<Rightarrow> (core_id \<times> runtime_instance_key) list \<Rightarrow>
   (core_id \<times> runtime_instance_key) list" where
  "select_newest_step ps k m =
     (if \<not> in_footprint ps (ri_core_id k) then m
      else
        let replace = (case map_of m (ri_core_id k) of
                         None \<Rightarrow> True
                       | Some old \<Rightarrow> ri_deployment_generation k > ri_deployment_generation old) in
        if replace then AList.update (ri_core_id k) k m else m)"

definition selected_runtime_keys :: "pipeline_status \<Rightarrow> runtime_instance_key list" where
  "selected_runtime_keys ps =
     (let ks = map fst (ps_instances ps);
          by_core = fold (pin_serving ks) (ps_serving_generations ps) (select_active ps) in
      if by_core \<noteq> [] then map snd by_core
      else map snd (fold (select_newest_step ps) ks []))"

definition selected_runtimes :: "pipeline_status \<Rightarrow> (runtime_instance_key \<times> pipeline_runtime_status) list" where
  "selected_runtimes ps =
     List.map_filter (\<lambda>k. map_option (Pair k) (map_of (ps_instances ps) k)) (selected_runtime_keys ps)"

definition compact_instances_to_selected :: "pipeline_status \<Rightarrow> pipeline_status" where
  "compact_instances_to_selected ps =
     (let retained = set (selected_runtime_keys ps) in
      ps\<lparr>ps_instances := filter (\<lambda>(k, _). k \<in> retained) (ps_instances ps)\<rparr>)"

definition selected_core_map :: "pipeline_status \<Rightarrow> (core_id \<times> pipeline_runtime_status) list" where
  "selected_core_map ps =
     fold (\<lambda>(k, rt) m. AList.update (ri_core_id k) rt m) (selected_runtimes ps) []"

definition view_order :: "(runtime_instance_key \<times> pipeline_runtime_status) \<Rightarrow> core_id \<times> generation" where
  "view_order e = (ri_core_id (fst e), ri_deployment_generation (fst e))"

definition retained_instance_views ::
  "pipeline_status \<Rightarrow> (runtime_instance_key \<times> pipeline_runtime_status) list" where
  "retained_instance_views ps = sort_key view_order (ps_instances ps)"

subsection \<open>Counting and quorums\<close>

definition total_cores :: "pipeline_status \<Rightarrow> nat" where
  "total_cores ps = length (selected_runtimes ps)"

definition running_cores :: "pipeline_status \<Rightarrow> nat" where
  "running_cores ps = length (filter (\<lambda>(_, rt). rt_phase rt = PhaseRunning) (selected_runtimes ps))"

definition is_terminated :: "pipeline_status \<Rightarrow> bool" where
  "is_terminated ps =
     (if ps_instances ps = [] then False
      else list_all (\<lambda>(_, rt). is_terminal (rt_phase rt)) (ps_instances ps))"

definition count_quorum_from ::
  "(runtime_instance_key \<times> pipeline_runtime_status) list \<Rightarrow> (pipeline_runtime_status \<Rightarrow> bool) \<Rightarrow> nat \<times> nat" where
  "count_quorum_from sel p =
     (let active = filter (\<lambda>(_, rt). kind_of (rt_phase rt) \<noteq> KindDeleted) sel in
      (length (filter (\<lambda>(_, rt). p rt) active), length active))"

definition quorum_satisfied :: "nat \<Rightarrow> nat \<Rightarrow> quorum \<Rightarrow> bool" where
  "quorum_satisfied numer denom q =
     (case q of
        AtLeast n \<Rightarrow> numer \<ge> n
      | Percent p \<Rightarrow> if denom = 0 then False else numer \<ge> div_ceil (denom * p) 100)"

definition required_ready_count :: "quorum \<Rightarrow> nat \<Rightarrow> nat" where
  "required_ready_count q denom =
     (case q of
        AtLeast n \<Rightarrow> min n denom
      | Percent p \<Rightarrow> if denom = 0 then 0 else div_ceil (denom * p) 100)"

definition describe_quorum :: "quorum \<Rightarrow> nat \<Rightarrow> string" where
  "describe_quorum q required =
     (case q of
        AtLeast n \<Rightarrow> ''at least '' @ decimal n @ '' cores ready''
      | Percent p \<Rightarrow> decimal p @ ''% of cores ready (>= '' @ decimal required @ '')'')"

definition ready_count :: "pipeline_status \<Rightarrow> nat \<times> nat" where
  "ready_count ps =
     count_quorum_from (selected_runtimes ps)
       (\<lambda>rt. kind_of (rt_phase rt) \<noteq> KindDeleted \<and> is_ready (ps_health_policy ps) (kind_of (rt_phase rt)))"

definition liveness :: "pipeline_status \<Rightarrow> bool" where
  "liveness ps =
     (let (numer, denom) = count_quorum_from (selected_runtimes ps)
            (\<lambda>rt. is_live (ps_health_policy ps) (kind_of (rt_phase rt))) in
      quorum_satisfied numer denom (hp_live_quorum (ps_health_policy ps)))"

definition readiness :: "pipeline_status \<Rightarrow> bool" where
  "readiness ps =
     (let (numer, denom) = ready_count ps in
      denom > 0 \<and> quorum_satisfied numer denom (hp_ready_quorum (ps_health_policy ps)))"

subsection \<open>Aggregated conditions\<close>

definition max_time :: "system_time option \<Rightarrow> system_time option \<Rightarrow> system_time option" where
  "max_time a b =
     (case (a, b) of
        (Some x, Some y) \<Rightarrow> Some (if x \<ge> y then x else y)
      | (Some x, None) \<Rightarrow> Some x
      | (None, Some y) \<Rightarrow> Some y
      | (None, None) \<Rightarrow> None)"

definition is_time_newer :: "system_time option \<Rightarrow> system_time option \<Rightarrow> bool" where
  "is_time_newer candidate current =
     (case (candidate, current) of
        (Some x, Some y) \<Rightarrow> x > y
      | (Some _, None) \<Rightarrow> True
      | _ \<Rightarrow> False)"

record scan =
  sn_latest_false :: "condition_state option"
  sn_latest_false_time :: "system_time option"
  sn_unknown :: "condition_state option"
  sn_latest_true_time :: "system_time option"

definition scan_step :: "condition_state \<Rightarrow> scan \<Rightarrow> scan" where
  "scan_step c a =
     (case cn_status c of
        StatusTrue \<Rightarrow>
          a\<lparr>sn_latest_true_time := max_time (sn_latest_true_time a) (cn_last_transition_time c)\<rparr>
      | StatusFalse \<Rightarrow>
          if sn_latest_false a = None \<or> is_time_newer (cn_last_transition_time c) (sn_latest_false_time a)
          then a\<lparr>sn_latest_false_time := cn_last_transition_time c, sn_latest_false := Some c\<rparr>
          else a
      | StatusUnknown \<Rightarrow>
          if sn_unknown a = None \<or>
             is_time_newer (cn_last_transition_time c)
               (Option.bind (sn_unknown a) cn_last_transition_time)
          then a\<lparr>sn_unknown := Some c\<rparr>
          else a)"

definition scan_start :: scan where
  "scan_start =
     \<lparr>sn_latest_false = None, sn_latest_false_time = None, sn_unknown = None, sn_latest_true_time = None\<rparr>"

definition scan_accepted :: "pipeline_status \<Rightarrow> scan" where
  "scan_accepted ps = fold (\<lambda>(_, rt). scan_step (rt_accepted_condition rt)) (selected_runtimes ps) scan_start"

definition scan_ready :: "pipeline_status \<Rightarrow> scan" where
  "scan_ready ps = fold (\<lambda>(_, rt). scan_step (rt_ready_condition rt)) (selected_runtimes ps) scan_start"

definition or_else :: "'a option \<Rightarrow> 'a option \<Rightarrow> 'a option" where
  "or_else a b = (case a of Some x \<Rightarrow> Some x | None \<Rightarrow> b)"

definition aggregate_accepted_condition :: "pipeline_status \<Rightarrow> pipeline_condition" where
  "aggregate_accepted_condition ps =
     (if selected_runtimes ps = [] then
        \<lparr>pc_kind = CondAccepted, pc_status = StatusUnknown, pc_reason = Some RsnNoPipelineRuntime,
         pc_message = Some ''No runtime (core) observed for this pipeline.'',
         pc_last_transition_time = None\<rparr>
      else case sn_latest_false (scan_accepted ps) of
        Some c \<Rightarrow>
          \<lparr>pc_kind = CondAccepted, pc_status = StatusFalse,
           pc_reason = or_else (cn_reason c) (Some RsnNotAccepted),
           pc_message = or_else (cn_message c)
             (Some ''One or more serving cores have not accepted the configuration.''),
           pc_last_transition_time = cn_last_transition_time c\<rparr>
      | None \<Rightarrow>
          (case sn_unknown (scan_accepted ps) of
             Some c \<Rightarrow>
               \<lparr>pc_kind = CondAccepted, pc_status = StatusUnknown,
                pc_reason = or_else (cn_reason c) (Some (unknown_reason ''Unknown'')),
                pc_message = or_else (cn_message c)
                  (Some ''Acceptance is unknown for one or more serving cores.''),
                pc_last_transition_time = cn_last_transition_time c\<rparr>
           | None \<Rightarrow>
               \<lparr>pc_kind = CondAccepted, pc_status = StatusTrue, pc_reason = Some RsnConfigValid,
                pc_message = Some (''Serving pipeline configuration validated and resource policy '' @
                  ''constraints are satisfied.''),
                pc_last_transition_time = sn_latest_true_time (scan_accepted ps)\<rparr>))"

definition not_ready_message :: "pipeline_status \<Rightarrow> nat \<Rightarrow> nat \<Rightarrow> nat \<Rightarrow> string" where
  "not_ready_message ps required numer denom =
     ''Pipeline is not ready; ready quorum '' @
     describe_quorum (hp_ready_quorum (ps_health_policy ps)) required @ '' not met ('' @
     decimal numer @ '' of '' @ decimal denom @ '' serving cores ready).''"

definition not_ready_condition :: "pipeline_status \<Rightarrow> nat \<Rightarrow> nat \<Rightarrow> nat \<Rightarrow> pipeline_condition" where
  "not_ready_condition ps required numer denom =
     (let sc = scan_ready ps in
      if denom = 0 then
        \<lparr>pc_kind = CondReady, pc_status = StatusFalse, pc_reason = Some RsnNoActiveCores,
         pc_message = Some ''No active serving cores are available to evaluate readiness.'',
         pc_last_transition_time =
           or_else (Option.bind (sn_latest_false sc) cn_last_transition_time)
             (Option.bind (sn_unknown sc) cn_last_transition_time)\<rparr>
      else case sn_latest_false sc of
        Some c \<Rightarrow>
          \<lparr>pc_kind = CondReady, pc_status = StatusFalse, pc_reason = Some RsnQuorumNotMet,
           pc_message = Some (not_ready_message ps required numer denom),
           pc_last_transition_time = cn_last_transition_time c\<rparr>
      | None \<Rightarrow>
          (case sn_unknown sc of
             Some c \<Rightarrow>
               \<lparr>pc_kind = CondReady, pc_status = StatusUnknown,
                pc_reason = or_else (cn_reason c) (Some (unknown_reason ''Unknown'')),
                pc_message = or_else (cn_message c)
                  (Some ''Readiness is unknown for one or more serving cores.''),
                pc_last_transition_time = cn_last_transition_time c\<rparr>
           | None \<Rightarrow>
               \<lparr>pc_kind = CondReady, pc_status = StatusFalse, pc_reason = Some RsnQuorumNotMet,
                pc_message = Some ''Pipeline is not ready; reason could not be determined.'',
                pc_last_transition_time = None\<rparr>))"

definition aggregate_ready_condition :: "pipeline_status \<Rightarrow> pipeline_condition" where
  "aggregate_ready_condition ps =
     (if selected_runtimes ps = [] then
        \<lparr>pc_kind = CondReady, pc_status = StatusUnknown, pc_reason = Some RsnNoPipelineRuntime,
         pc_message = Some ''No pipeline runtime (core) observed for this pipeline.'',
         pc_last_transition_time = None\<rparr>
      else
        let (numer, denom) = ready_count ps;
            required = required_ready_count (hp_ready_quorum (ps_health_policy ps)) denom in
        if denom > 0 \<and> numer \<ge> required then
          \<lparr>pc_kind = CondReady, pc_status = StatusTrue, pc_reason = Some RsnQuorumMet,
           pc_message = Some ''Pipeline is ready to receive and process data.'',
           pc_last_transition_time = sn_latest_true_time (scan_ready ps)\<rparr>
        else not_ready_condition ps required numer denom)"

definition pipeline_conditions :: "pipeline_status \<Rightarrow> pipeline_condition list" where
  "pipeline_conditions ps = [aggregate_accepted_condition ps, aggregate_ready_condition ps]"

end
