(* ===== verification/Pipeline_Runtime_Laws.thy ===== *)
theory Pipeline_Runtime_Laws
  imports Pipeline_Runtime
begin

section \<open>Laws of the runtime lifecycle\<close>

text \<open>
  An abstract lifecycle diagram that \<^const>\<open>apply_phase\<close> refines, the invariant that ties the
  Accepted and Ready conditions to the phase, and what deferred deletes, late events and
  rejected events do.
\<close>

subsection \<open>The lifecycle diagram\<close>

text \<open>
  The abstract lifecycle: pairs of a phase and the deferred-delete flag, and the events that
  move them. Idle phases have nothing to drain, busy ones do.
\<close>

type_synonym life = "pipeline_phase \<times> bool"

fun idle_phase :: "pipeline_phase \<Rightarrow> bool" where
  "idle_phase PhasePending = True"
| "idle_phase PhaseStarting = True"
| "idle_phase PhaseStopped = True"
| "idle_phase (PhaseFailed _) = True"
| "idle_phase (PhaseRejected _) = True"
| "idle_phase _ = False"

fun busy_phase :: "pipeline_phase \<Rightarrow> bool" where
  "busy_phase PhaseRunning = True"
| "busy_phase PhaseUpdating = True"
| "busy_phase PhaseRollingBack = True"
| "busy_phase PhaseDraining = True"
| "busy_phase _ = False"

fun restartable :: "pipeline_phase \<Rightarrow> bool" where
  "restartable PhaseStopped = True"
| "restartable (PhaseFailed _) = True"
| "restartable (PhaseRejected _) = True"
| "restartable _ = False"

fun carries_traffic :: "pipeline_phase \<Rightarrow> bool" where
  "carries_traffic PhaseStarting = True"
| "carries_traffic p = busy_phase p"

text \<open>
  Events that say nothing new about a phase: the announcement that led into it arriving again,
  the start of an ingress drain, which any phase with live nodes may observe, and the progress
  reports of a drain that is under way.
\<close>

inductive tolerated :: "pipeline_phase \<Rightarrow> event_type \<Rightarrow> bool" where
  admitted_again: "tolerated PhaseStarting (EvSuccess OkAdmitted)"
| ready_again: "tolerated PhaseRunning (EvSuccess OkReady)"
| update_admitted_again: "tolerated PhaseUpdating (EvSuccess OkUpdateAdmitted)"
| update_failed_again: "tolerated PhaseRollingBack (EvError (ErrUpdateFailed x))"
| shutdown_again: "tolerated PhaseDraining (EvRequest ReqShutdownRequested)"
| drained_again: "tolerated PhaseStopped (EvSuccess OkDrained)"
| ingress_drain: "carries_traffic p \<Longrightarrow> tolerated p (EvSuccess OkIngressDrainStarted)"
| receivers_done: "tolerated PhaseDraining (EvSuccess OkReceiversDrained)"
| downstream_stops: "tolerated PhaseDraining (EvSuccess OkDownstreamShutdownStarted)"
| deadline_passes: "tolerated PhaseDraining (EvError ErrDrainDeadlineReached)"

inductive life_step :: "life \<Rightarrow> event_type \<Rightarrow> life \<Rightarrow> bool" where
  admit: "life_step (PhasePending, d) (EvSuccess OkAdmitted) (PhaseStarting, d)"
| refuse: "life_step (PhasePending, d) (EvError (ErrAdmissionError x)) (PhaseFailed FailAdmissionError, d)"
| become_ready: "life_step (PhaseStarting, d) (EvSuccess OkReady) (PhaseRunning, d)"
| reject: "life_step (PhaseStarting, d) (EvError (ErrConfigRejected x)) (PhaseFailed FailConfigRejected, d)"
| begin_update: "life_step (PhaseRunning, d) (EvSuccess OkUpdateAdmitted) (PhaseUpdating, d)"
| end_update: "life_step (PhaseUpdating, d) (EvSuccess OkUpdateApplied) (PhaseRunning, d)"
| update_fails: "life_step (PhaseUpdating, d) (EvError (ErrUpdateFailed x)) (PhaseRollingBack, d)"
| rolled_back: "life_step (PhaseRollingBack, d) (EvSuccess OkRollbackComplete) (PhaseRunning, d)"
| rollback_fails:
    "life_step (PhaseRollingBack, d) (EvError (ErrRollbackFailed x)) (PhaseFailed FailRollbackFailed, d)"
| crash:
    "p = PhaseRunning \<or> p = PhaseDraining \<Longrightarrow>
       life_step (p, d) (EvError (ErrRuntimeError x)) (PhaseFailed FailRuntimeError, d)"
| drain: "life_step (PhaseRunning, d) (EvRequest ReqShutdownRequested) (PhaseDraining, d)"
| drained_stop: "life_step (PhaseDraining, False) (EvSuccess OkDrained) (PhaseStopped, False)"
| drained_delete: "life_step (PhaseDraining, True) (EvSuccess OkDrained) (PhaseDeleting Graceful, False)"
| drain_fails: "life_step (PhaseDraining, d) (EvError (ErrDrainError x)) (PhaseFailed FailDrainError, d)"
| restart: "restartable p \<Longrightarrow> life_step (p, d) (EvRequest ReqStartRequested) (PhasePending, d)"
| delete_idle:
    "idle_phase p \<Longrightarrow> life_step (p, d) (EvRequest ReqDeleteRequested) (PhaseDeleting Graceful, False)"
| delete_busy: "busy_phase p \<Longrightarrow> life_step (p, d) (EvRequest ReqDeleteRequested) (PhaseDraining, True)"
| delete_forced:
    "idle_phase p \<or> busy_phase p \<Longrightarrow>
       life_step (p, d) (EvRequest ReqForceDeleteRequested) (PhaseDeleting Forced, False)"
| delete_again:
    "req = ReqDeleteRequested \<or> req = ReqForceDeleteRequested \<Longrightarrow>
       life_step (PhaseDeleting m, d) (EvRequest req) (PhaseDeleting m, d)"
| removed: "life_step (PhaseDeleting m, d) (EvSuccess OkDeleted) (PhaseDeleted, d)"
| delete_fails: "life_step (PhaseDeleting m, d) (EvError (ErrDeleteError x)) (PhaseFailed FailDeleteError, d)"
| start_again: "life_step (PhasePending, d) (EvRequest ReqStartRequested) (PhasePending, d)"
| tolerate: "tolerated p ev \<Longrightarrow> life_step (p, d) ev (p, d)"
| gone: "life_step (PhaseDeleted, d) ev (PhaseDeleted, d)"

abbreviation life :: "pipeline_runtime_status \<Rightarrow> life" where
  "life s \<equiv> (rt_phase s, rt_delete_pending s)"

definition with_life :: "life \<Rightarrow> pipeline_runtime_status \<Rightarrow> pipeline_runtime_status" where
  "with_life l s = s\<lparr>rt_phase := fst l, rt_delete_pending := snd l\<rparr>"

lemma with_life_simps [simp]:
  "life (with_life l s) = l"
  "rt_last_heartbeat_time (with_life l s) = rt_last_heartbeat_time s"
  "rt_recent_events (with_life l s) = rt_recent_events s"
  "rt_accepted_condition (with_life l s) = rt_accepted_condition s"
  "rt_ready_condition (with_life l s) = rt_ready_condition s"
  by (simp_all add: with_life_def)

lemma with_life_self [simp]: "with_life (life s) s = s"
  by (simp add: with_life_def)

lemma with_life_phase:
  "rt_phase (with_life l s) = fst l" "rt_delete_pending (with_life l s) = snd l"
  by (simp_all add: with_life_def)

lemma with_life_inject [simp]: "with_life l s = with_life l' s \<longleftrightarrow> l = l'"
  by (metis with_life_simps(1))

lemma with_life_eq_self [simp]:
  "s = with_life l s \<longleftrightarrow> l = life s" "with_life l s = s \<longleftrightarrow> l = life s"
  by (metis with_life_simps(1) with_life_self)+

lemma with_life_flag [simp]: "with_life l (s\<lparr>rt_delete_pending := b\<rparr>) = with_life l s"
  by (simp add: with_life_def)

lemma with_life_twice [simp]: "with_life l (with_life l' s) = with_life l s"
  by (simp add: with_life_def)

text \<open>What a call of \<^const>\<open>goto\<close> reports: the change that was made.\<close>

definition outcome_of :: "life \<Rightarrow> life \<Rightarrow> apply_outcome" where
  "outcome_of l l' =
     (if fst l' \<noteq> fst l then Transition (fst l) (fst l')
      else if snd l' \<noteq> snd l then FlagChange ''delete_pending'' True
      else NoChange)"

lemma goto_move:
  "kind_of to \<noteq> kind_of (rt_phase s) \<Longrightarrow>
     goto to s = (Transition (rt_phase s) to, with_life (to, rt_delete_pending s) s)"
  by (auto simp: goto_def with_life_def split: pipeline_phase.splits)

lemma go_to_deleting_move:
  "kind_of (rt_phase s) \<noteq> KindDeleting \<Longrightarrow>
     go_to_deleting m s = (Transition (rt_phase s) (PhaseDeleting m), with_life (PhaseDeleting m, False) s)"
  by (simp add: go_to_deleting_def goto_move)

lemma set_flag_move: "s\<lparr>rt_delete_pending := b\<rparr> = with_life (rt_phase s, b) s"
  by (simp add: with_life_def)

lemmas arm_defs =
  apply_pending_def apply_starting_def apply_running_def apply_updating_def
  apply_rolling_back_def apply_draining_def apply_stopped_def apply_rejected_def
  apply_failed_def apply_deleting_def apply_deleted_def

lemmas arm_simps = apply_arm_def arm_defs goto_move go_to_deleting_move

text \<open>
  Each arm moves along the diagram, changes nothing but phase and flag, and reports the
  change it made.
\<close>

definition arm_moves :: "event_type \<Rightarrow> pipeline_runtime_status \<Rightarrow> arm \<Rightarrow> bool" where
  "arm_moves ev s a \<longleftrightarrow>
     (\<forall>r. a = Some r \<longrightarrow>
        (\<exists>l. r = (outcome_of (life s) l, with_life l s) \<and> life_step (life s) ev l))"

lemma arm_moves_None [simp]: "arm_moves ev s None"
  by (simp add: arm_moves_def)

lemma arm_moves_same [simp]: "arm_moves ev s (Some (NoChange, s)) \<longleftrightarrow> life_step (life s) ev (life s)"
  by (simp add: arm_moves_def outcome_of_def)

lemma arm_moves_to:
  "arm_moves ev s (Some (out, with_life l s)) \<longleftrightarrow>
     out = outcome_of (life s) l \<and> life_step (life s) ev l"
  by (cases l) (auto simp: arm_moves_def)

lemma arm_success: "arm_moves (EvSuccess ok) s (apply_arm (EvSuccess ok) s)"
  by (cases "rt_phase s"; cases ok)
    (simp_all add: arm_simps arm_moves_to outcome_of_def life_step.simps)

lemma arm_error: "arm_moves (EvError err) s (apply_arm (EvError err) s)"
  by (cases "rt_phase s"; cases err)
    (simp_all add: arm_simps arm_moves_to outcome_of_def life_step.simps)

lemma arm_request: "arm_moves (EvRequest req) s (apply_arm (EvRequest req) s)"
  by (cases "rt_phase s"; cases req)
    (simp_all add: arm_simps arm_moves_to outcome_of_def life_step.simps set_flag_move
      with_life_phase ex_bool_eq)

lemma arm_step: "arm_moves ev s (apply_arm ev s)"
  by (cases ev) (simp_all only: arm_success arm_error arm_request)

text \<open>The code's table of harmless events is exactly that of the diagram.\<close>

lemma benign_tolerated: "benign_no_op p ev \<longleftrightarrow> tolerated p ev"
proof
  assume "benign_no_op p ev"
  then show "tolerated p ev"
    by (auto simp: benign_no_op_def intro: tolerated.intros
        split: pipeline_phase.splits event_type.splits success_event.splits error_event.splits
          request_event.splits)
next
  assume "tolerated p ev"
  then show "benign_no_op p ev"
  proof (cases rule: tolerated.cases)
    case ingress_drain
    then show ?thesis by (cases p) (simp_all add: benign_no_op_def)
  qed (simp_all add: benign_no_op_def)
qed

lemma benign_no_arm: "benign_no_op (rt_phase s) ev \<Longrightarrow> apply_arm ev s = None"
  by (auto simp: apply_arm_def arm_defs benign_no_op_def
      split: pipeline_phase.splits event_type.splits success_event.splits error_event.splits
        request_event.splits)

lemma apply_phase_sound:
  assumes "apply_phase ev s = (Inr out, s')"
  shows "\<exists>l. s' = with_life l s \<and> life_step (life s) ev l \<and> out = outcome_of (life s) l"
proof (cases "apply_arm ev s")
  case None
  with assms have "s' = s" "out = NoChange" "benign_no_op (rt_phase s) ev"
    by (auto simp: apply_phase_def split: if_splits)
  then show ?thesis
    by (intro exI [of _ "life s"]) (simp add: outcome_of_def tolerate benign_tolerated)
next
  case (Some r)
  with assms have "r = (out, s')" by (cases r) (simp add: apply_phase_def)
  with Some show ?thesis using arm_step [of ev s] by (auto simp: arm_moves_def)
qed

lemma apply_phase_error:
  assumes "apply_phase ev s = (Inl err, s')"
  shows "s' = s" "err = InvalidTransition (rt_phase s) ev ''event not valid for current phase''"
  using assms by (auto simp: apply_phase_def split: option.splits if_splits)

lemmas phase_eval = apply_phase_def arm_simps outcome_of_def set_flag_move with_life_phase

lemma apply_phase_complete:
  "life_step l ev l' \<Longrightarrow> life s = l \<Longrightarrow> apply_phase ev s = (Inr (outcome_of l l'), with_life l' s)"
proof (induction rule: life_step.induct)
  case (crash p d x)
  then show ?case by (auto simp: phase_eval)
next
  case (restart p d)
  then show ?case by (cases p) (simp_all add: phase_eval)
next
  case (delete_idle p d)
  then show ?case by (cases p) (simp_all add: phase_eval)
next
  case (delete_busy p d)
  then show ?case by (cases p) (auto simp: phase_eval)
next
  case (delete_forced p d)
  then show ?case by (cases p) (simp_all add: phase_eval)
next
  case (delete_again req m d)
  then show ?case by (auto simp: phase_eval)
next
  case (tolerate p ev d)
  then have "benign_no_op (rt_phase s) ev" by (simp add: benign_tolerated)
  with tolerate show ?case using benign_no_arm [of s ev] by (auto simp: apply_phase_def outcome_of_def)
qed (auto simp: phase_eval)

subsection \<open>Conditions follow the events\<close>

abbreviation accepted_status :: "pipeline_runtime_status \<Rightarrow> condition_status" where
  "accepted_status s \<equiv> cn_status (rt_accepted_condition s)"

abbreviation ready_status :: "pipeline_runtime_status \<Rightarrow> condition_status" where
  "ready_status s \<equiv> cn_status (rt_ready_condition s)"

text \<open>The status a condition has after an event that was not rejected.\<close>

definition ready_after :: "event_type \<Rightarrow> condition_status \<Rightarrow> condition_status" where
  "ready_after ev st =
     (case ev of
        EvSuccess ok \<Rightarrow>
          if ok \<in> {OkReady, OkUpdateApplied, OkRollbackComplete, OkUpdateAdmitted} then StatusTrue
          else if ok \<in> {OkDrained, OkDeleted} then StatusFalse else st
      | EvError err \<Rightarrow> if err = ErrDrainDeadlineReached then st else StatusFalse
      | EvRequest req \<Rightarrow> if req = ReqStartRequested then st else StatusFalse)"

definition accepted_after :: "event_type \<Rightarrow> condition_status \<Rightarrow> condition_status" where
  "accepted_after ev st =
     (case ev of
        EvSuccess ok \<Rightarrow> if ok = OkAdmitted then StatusTrue else if ok = OkDeleted then StatusFalse else st
      | EvError (ErrAdmissionError _) \<Rightarrow> StatusFalse
      | EvError (ErrConfigRejected _) \<Rightarrow> StatusFalse
      | EvError _ \<Rightarrow> st
      | EvRequest req \<Rightarrow> if req = ReqStartRequested then StatusFalse else st)"

lemma set_accepted_simps [simp]:
  "rt_phase (set_accepted st r m t s) = rt_phase s"
  "rt_delete_pending (set_accepted st r m t s) = rt_delete_pending s"
  "rt_last_heartbeat_time (set_accepted st r m t s) = rt_last_heartbeat_time s"
  "rt_recent_events (set_accepted st r m t s) = rt_recent_events s"
  "rt_ready_condition (set_accepted st r m t s) = rt_ready_condition s"
  "accepted_status (set_accepted st r m t s) = st"
  by (simp_all add: set_accepted_def)

lemma set_ready_simps [simp]:
  "rt_phase (set_ready st r m t s) = rt_phase s"
  "rt_delete_pending (set_ready st r m t s) = rt_delete_pending s"
  "rt_last_heartbeat_time (set_ready st r m t s) = rt_last_heartbeat_time s"
  "rt_recent_events (set_ready st r m t s) = rt_recent_events s"
  "rt_accepted_condition (set_ready st r m t s) = rt_accepted_condition s"
  "ready_status (set_ready st r m t s) = st"
  by (simp_all add: set_ready_def)

lemmas refresh_defs = refresh_success_def refresh_error_def refresh_request_def refresh_conditions_def Let_def

lemma refresh_frame [simp]:
  "rt_phase (refresh_conditions e s) = rt_phase s"
  "rt_delete_pending (refresh_conditions e s) = rt_delete_pending s"
  "rt_last_heartbeat_time (refresh_conditions e s) = rt_last_heartbeat_time s"
  "rt_recent_events (refresh_conditions e s) = rt_recent_events s"
  by (simp_all add: refresh_defs split: event_type.split success_event.split error_event.split
      request_event.split prod.split)

lemma refresh_ready [simp]:
  "ready_status (refresh_conditions e s) = ready_after (ev_type e) (ready_status s)"
  by (simp add: refresh_defs ready_after_def split: event_type.split success_event.split
      error_event.split request_event.split prod.split)

lemma refresh_accepted [simp]:
  "accepted_status (refresh_conditions e s) = accepted_after (ev_type e) (accepted_status s)"
  by (simp add: refresh_defs accepted_after_def split: event_type.split success_event.split
      error_event.split request_event.split prod.split)

text \<open>One observed event, on the branch where it moves and on the branch where it is rejected.\<close>

lemma apply_event_moves:
  assumes "life_step (life s) (ev_type e) l"
  shows "\<exists>s'. apply_event e s = (Inr (outcome_of (life s) l), s') \<and> life s' = l \<and>
    rt_last_heartbeat_time s' = ev_time e \<and>
    rt_recent_events s' = ring_push (ObsEngine e) (rt_recent_events s) \<and>
    ready_status s' = ready_after (ev_type e) (ready_status s) \<and>
    accepted_status s' = accepted_after (ev_type e) (accepted_status s)"
  using apply_phase_complete [OF assms refl]
  by (auto simp: apply_event_def with_life_phase)

lemma apply_event_rejects:
  assumes "\<And>l. \<not> life_step (life s) (ev_type e) l"
  shows "apply_event e s =
    (Inl (InvalidTransition (rt_phase s) (ev_type e) ''event not valid for current phase''),
     s\<lparr>rt_last_heartbeat_time := ev_time e,
       rt_recent_events := ring_push (ObsEngine e) (rt_recent_events s)\<rparr>)"
proof (cases "apply_phase (ev_type e) s")
  case (Pair r s')
  show ?thesis
  proof (cases r)
    case (Inl err)
    with Pair have "apply_phase (ev_type e) s = (Inl err, s')" by simp
    from apply_phase_error [OF this] show ?thesis using Pair Inl by (simp add: apply_event_def)
  next
    case (Inr out)
    with Pair have "apply_phase (ev_type e) s = (Inr out, s')" by simp
    from apply_phase_sound [OF this] assms show ?thesis by blast
  qed
qed

lemma apply_event_cases:
  obtains (moves) l s' where "life_step (life s) (ev_type e) l"
      "apply_event e s = (Inr (outcome_of (life s) l), s')" "life s' = l"
      "rt_last_heartbeat_time s' = ev_time e"
      "rt_recent_events s' = ring_push (ObsEngine e) (rt_recent_events s)"
      "ready_status s' = ready_after (ev_type e) (ready_status s)"
      "accepted_status s' = accepted_after (ev_type e) (accepted_status s)"
  | (rejects) "apply_event e s =
      (Inl (InvalidTransition (rt_phase s) (ev_type e) ''event not valid for current phase''),
       s\<lparr>rt_last_heartbeat_time := ev_time e,
         rt_recent_events := ring_push (ObsEngine e) (rt_recent_events s)\<rparr>)"
      "\<And>l. \<not> life_step (life s) (ev_type e) l"
proof (cases "\<exists>l. life_step (life s) (ev_type e) l")
  case True
  then obtain l where l: "life_step (life s) (ev_type e) l" ..
  with apply_event_moves [OF l] moves show ?thesis by blast
next
  case False
  then have none: "\<And>l. \<not> life_step (life s) (ev_type e) l" by blast
  from apply_event_rejects [OF none] none show ?thesis by (rule rejects)
qed

subsection \<open>The invariant\<close>

text \<open>
  A runtime is Ready exactly while it serves (a deleted one aside, which keeps taking
  events), it is Accepted from admission until it stops being active, it never has the phase
  Rejected, and no delete is outstanding once it is stopped, being deleted or deleted.
\<close>

definition tracks :: "life \<Rightarrow> condition_status \<Rightarrow> condition_status \<Rightarrow> bool" where
  "tracks l acc rdy \<longleftrightarrow>
     (fst l \<noteq> PhaseDeleted \<longrightarrow> (rdy = StatusTrue \<longleftrightarrow> fst l = PhaseRunning \<or> fst l = PhaseUpdating)) \<and>
     (fst l = PhasePending \<longrightarrow> acc = StatusFalse) \<and>
     (fst l = PhaseStarting \<or> busy_phase (fst l) \<longrightarrow> acc = StatusTrue) \<and>
     kind_of (fst l) \<noteq> KindRejected \<and>
     (snd l \<longrightarrow> kind_of (fst l) \<notin> {KindDeleting, KindDeleted, KindStopped})"

definition rt_inv :: "pipeline_runtime_status \<Rightarrow> bool" where
  "rt_inv s \<longleftrightarrow> tracks (life s) (accepted_status s) (ready_status s)"

lemma rt_inv_default: "rt_inv ((default_runtime_status now)\<lparr>rt_recent_events := b\<rparr>)"
  by (simp add: rt_inv_def tracks_def default_runtime_status_def)

lemma tracks_step:
  "life_step l ev l' \<Longrightarrow> tracks l acc rdy \<Longrightarrow> tracks l' (accepted_after ev acc) (ready_after ev rdy)"
proof (induction rule: life_step.induct)
  case (tolerate p ev d)
  then show ?case
    by (cases rule: tolerated.cases) (auto simp: tracks_def ready_after_def accepted_after_def)
next
  case (gone d ev)
  then show ?case by (simp add: tracks_def)
qed (auto simp: tracks_def ready_after_def accepted_after_def)

lemma rt_inv_event: "rt_inv s \<Longrightarrow> rt_inv (snd (apply_event e s))"
  by (cases rule: apply_event_cases [of s e]) (auto simp: rt_inv_def tracks_step)

text \<open>
  A runtime status that a store can hold: created with a ring buffer of some capacity, then
  fed with observed events.
\<close>

inductive rt_reach :: "pipeline_runtime_status \<Rightarrow> bool" where
  created: "rt_reach ((default_runtime_status now)\<lparr>rt_recent_events := new_ring_buffer cap\<rparr>)"
| observed: "rt_reach s \<Longrightarrow> apply_event e s = (r, s') \<Longrightarrow> rt_reach s'"

interpretation rt: step_system apply_event rt_inv
  by unfold_locales (rule rt_inv_event)

lemma rt_reach_inv: "rt_reach s \<Longrightarrow> rt_inv s"
  by (induction rule: rt_reach.induct) (auto simp: rt_inv_default intro: rt.step_inv_eq)

lemma rt_reach_default: "rt_reach (default_runtime_status now)"
proof -
  have "default_runtime_status now = (default_runtime_status now)\<lparr>rt_recent_events := new_ring_buffer 5\<rparr>"
    by (simp add: default_runtime_status_def)
  then show ?thesis using rt_reach.created [of 5 now] by simp
qed

lemma rt_reach_run: "rt_reach s \<Longrightarrow> rt_reach (snd (run_ops apply_event es s))"
proof (induction es arbitrary: s)
  case Nil
  then show ?case by simp
next
  case (Cons e es)
  obtain r s1 where e: "apply_event e s = (r, s1)" by (cases "apply_event e s")
  from rt_reach.observed [OF Cons.prems e] have "rt_reach s1" .
  then have "rt_reach (snd (run_ops apply_event es s1))" by (rule Cons.IH)
  then show ?case using e by (cases "run_ops apply_event es s1") simp
qed

text \<open>Paths in the diagram, and the statuses and phases at their ends.\<close>

inductive life_path :: "life \<Rightarrow> event_type list \<Rightarrow> life \<Rightarrow> bool" where
  stay: "life_path l [] l"
| step: "life_step l ev l1 \<Longrightarrow> life_path l1 evs l2 \<Longrightarrow> life_path l (ev # evs) l2"

lemma life_after: "life_step (life s) (ev_type e) l \<Longrightarrow> life (snd (apply_event e s)) = l"
  using apply_event_moves [of s e l] by auto

lemma life_run:
  "life_path (life s) (map ev_type es) l \<Longrightarrow> life (snd (run_ops apply_event es s)) = l"
proof (induction es arbitrary: s)
  case Nil
  then show ?case by (auto elim: life_path.cases)
next
  case (Cons e es)
  obtain r s1 where e: "apply_event e s = (r, s1)" by (cases "apply_event e s")
  from Cons.prems obtain l1 where st: "life_step (life s) (ev_type e) l1"
    and pa: "life_path l1 (map ev_type es) l"
    by (auto elim: life_path.cases)
  from life_after [OF st] e have "life s1 = l1" by simp
  with pa have "life (snd (run_ops apply_event es s1)) = l" by (intro Cons.IH) simp
  then show ?case using e by (cases "run_ops apply_event es s1") simp
qed

lemma apply_many_path:
  "life_path (life s) evs l \<Longrightarrow> apply_many evs s = (Inr (), with_life l s)"
proof (induction evs arbitrary: s)
  case Nil
  then show ?case by (auto elim: life_path.cases)
next
  case (Cons ev evs)
  from Cons.prems obtain l1 where st: "life_step (life s) ev l1" and pa: "life_path l1 evs l"
    by (auto elim: life_path.cases)
  from pa have "apply_many evs (with_life l1 s) = (Inr (), with_life l (with_life l1 s))"
    by (intro Cons.IH) simp
  with apply_phase_complete [OF st refl] show ?case by simp
qed

lemma default_life: "life (default_runtime_status now) = (PhasePending, False)"
  by (simp add: default_runtime_status_def)

subsection \<open>Properties\<close>



text \<open>
  C23. In every status that a history of observed events can produce, the conditions track the
  phase: unless the runtime is deleted, it is Ready exactly while it is running or updating;
  it is not Accepted while pending, and is Accepted from admission on while it is starting,
  running, updating, rolling back or draining. The phase is never Rejected, and no delete is
  outstanding in a stopped, deleting or deleted runtime.
\<close>

theorem conditions_track_phase:
  "rt_reach s \<Longrightarrow>
     (rt_phase s \<noteq> PhaseDeleted \<longrightarrow>
        (ready_status s = StatusTrue \<longleftrightarrow> rt_phase s = PhaseRunning \<or> rt_phase s = PhaseUpdating)) \<and>
     (rt_phase s = PhasePending \<longrightarrow> accepted_status s = StatusFalse) \<and>
     (rt_phase s = PhaseStarting \<or> busy_phase (rt_phase s) \<longrightarrow> accepted_status s = StatusTrue) \<and>
     kind_of (rt_phase s) \<noteq> KindRejected \<and>
     (rt_delete_pending s \<longrightarrow> kind_of (rt_phase s) \<notin> {KindDeleting, KindDeleted, KindStopped})"
  using rt_reach_inv [of s] by (simp add: rt_inv_def tracks_def)

definition sample_key :: deployed_pipeline_key where
  "sample_key = \<lparr>dk_pipeline_group_id = ''g'', dk_pipeline_id = ''p'', dk_core_id = 0,
     dk_deployment_generation = 0\<rparr>"

definition sample_summary :: error_summary where
  "sample_summary = SummaryPipeline ''transport'' ''connection lost'' None"

theorem conditions_track_phase_witness:
  "let s = snd (run_ops apply_event [admitted 1 sample_key None, ready 2 sample_key None]
             (default_runtime_status 0)) in
   rt_phase s = PhaseRunning \<and> ready_status s = StatusTrue \<and> accepted_status s = StatusTrue"
proof -
  let ?s = "snd (run_ops apply_event [admitted 1 sample_key None, ready 2 sample_key None]
             (default_runtime_status 0))"
  have "rt_reach ?s" by (rule rt_reach_run [OF rt_reach_default])
  moreover have "life ?s = (PhaseRunning, False)"
    by (rule life_run)
      (simp add: default_life event_constructors
        step [OF admit step [OF become_ready stay]])
  ultimately show ?thesis using conditions_track_phase [of ?s] unfolding Let_def by simp
qed

text \<open>
  A terminal phase is left only on request: from Stopped, Failed and Rejected by a start or
  delete request, and from Deleted never.
\<close>

lemma terminal_phase_is_stable:
  assumes "is_terminal (rt_phase s)" "apply_event e s = (r, s')" "rt_phase s' \<noteq> rt_phase s"
  shows "rt_phase s \<noteq> PhaseDeleted \<and>
    ((ev_type e = EvRequest ReqStartRequested \<and> rt_phase s' = PhasePending) \<or>
     (ev_type e = EvRequest ReqDeleteRequested \<and> rt_phase s' = PhaseDeleting Graceful) \<or>
     (ev_type e = EvRequest ReqForceDeleteRequested \<and> rt_phase s' = PhaseDeleting Forced))"
proof (cases rule: apply_event_cases [of s e])
  case (moves l s1)
  from moves(2) assms(2) have "s1 = s'" by simp
  with moves(3) assms(3) have l: "fst l = rt_phase s'" "fst l \<noteq> rt_phase s" by auto
  from moves(1) l assms(1) show ?thesis
    by (cases "rt_phase s") (auto simp: life_step.simps)
next
  case rejects
  with assms(2) have "rt_phase s' = rt_phase s" by auto
  with assms(3) show ?thesis by simp
qed

text \<open>
  An event that is not valid in the current phase is answered with the phase and the event;
  it still counts as a sign of life (heartbeat and event log are updated), but changes neither
  phase nor flag nor conditions.
\<close>

theorem invalid_event_changes_nothing:
  assumes "apply_event e s = (Inl err, s')"
  shows "err = InvalidTransition (rt_phase s) (ev_type e) ''event not valid for current phase'' \<and>
    s' = s\<lparr>rt_last_heartbeat_time := ev_time e,
           rt_recent_events := ring_push (ObsEngine e) (rt_recent_events s)\<rparr>"
  using assms by (cases rule: apply_event_cases [of s e]) auto

text \<open>
  C24. Deferred deletes outlive failures: if draining fails, the flag of a delete requested during
  the drain stays set, so a runtime that is then restarted and later shut down without any new
  delete request ends up being deleted. Without the stale flag the same events stop it.
\<close>

theorem stale_delete_after_restart:
  assumes "rt_phase s = PhaseDraining"
  shows "apply_many
      [EvError (ErrDrainError x), EvRequest ReqStartRequested, EvSuccess OkAdmitted, EvSuccess OkReady,
       EvRequest ReqShutdownRequested, EvSuccess OkDrained] s =
    (Inr (), s\<lparr>rt_phase := if rt_delete_pending s then PhaseDeleting Graceful else PhaseStopped,
               rt_delete_pending := False\<rparr>)"
proof -
  let ?d = "rt_delete_pending s"
  let ?final = "(if ?d then PhaseDeleting Graceful else PhaseStopped, False)"
  have "life_step (PhaseDraining, ?d) (EvSuccess OkDrained) ?final"
    by (cases ?d) (simp_all add: drained_stop drained_delete)
  then have "life_path (PhaseDraining, ?d)
      [EvError (ErrDrainError x), EvRequest ReqStartRequested, EvSuccess OkAdmitted, EvSuccess OkReady,
       EvRequest ReqShutdownRequested, EvSuccess OkDrained] ?final"
    by (intro step [OF drain_fails step [OF restart step [OF admit step [OF become_ready
        step [OF drain step [OF _ stay]]]]]]) simp_all
  from apply_many_path [of s, unfolded assms, OF this] show ?thesis
    by (simp add: with_life_def)
qed

theorem stale_delete_after_restart_witness:
  "rt_phase (snd (apply_many
     [EvError (ErrDrainError sample_summary), EvRequest ReqStartRequested, EvSuccess OkAdmitted,
      EvSuccess OkReady, EvRequest ReqShutdownRequested, EvSuccess OkDrained]
     (snd (apply_many [EvSuccess OkAdmitted, EvSuccess OkReady, EvRequest ReqDeleteRequested]
             (default_runtime_status 0))))) = PhaseDeleting Graceful"
proof -
  have "life_path (life (default_runtime_status 0))
      [EvSuccess OkAdmitted, EvSuccess OkReady, EvRequest ReqDeleteRequested] (PhaseDraining, True)"
    unfolding default_life
    by (intro step [OF admit step [OF become_ready step [OF delete_busy stay]]]) simp
  from apply_many_path [OF this] show ?thesis
    using stale_delete_after_restart [of "with_life (PhaseDraining, True) (default_runtime_status 0)"
        sample_summary]
    by (simp add: with_life_phase)
qed

text \<open>
  C25. Deleted is absorbing for the phase, but not for the conditions: every event is accepted as
  a no-op, and a late Ready, update or rollback event turns the Ready condition of a deleted
  runtime to True.
\<close>

theorem deleted_runtime_can_report_ready:
  assumes "rt_phase s = PhaseDeleted"
    and "ev_type e \<in> EvSuccess ` {OkReady, OkUpdateApplied, OkRollbackComplete, OkUpdateAdmitted}"
  shows "fst (apply_event e s) = Inr NoChange \<and> rt_phase (snd (apply_event e s)) = PhaseDeleted \<and>
    ready_status (snd (apply_event e s)) = StatusTrue"
proof -
  have "life_step (life s) (ev_type e) (life s)" unfolding assms(1) by (rule gone)
  from apply_event_moves [OF this] assms show ?thesis
    by (auto simp: outcome_of_def ready_after_def)
qed

theorem deleted_runtime_can_report_ready_witness:
  "let s = snd (run_ops apply_event
       [admitted 1 sample_key None, force_delete_requested 2 sample_key None,
        deleted 3 sample_key None] (default_runtime_status 0)) in
   rt_phase s = PhaseDeleted \<and> ready_status (snd (apply_event (ready 4 sample_key None) s)) = StatusTrue"
proof -
  let ?s = "snd (run_ops apply_event
       [admitted 1 sample_key None, force_delete_requested 2 sample_key None,
        deleted 3 sample_key None] (default_runtime_status 0))"
  have "life_path (life (default_runtime_status 0))
      [EvSuccess OkAdmitted, EvRequest ReqForceDeleteRequested, EvSuccess OkDeleted] (PhaseDeleted, False)"
    unfolding default_life
    by (intro step [OF admit step [OF delete_forced step [OF removed stay]]]) simp
  then have "life ?s = (PhaseDeleted, False)"
    by (intro life_run) (simp add: event_constructors)
  then have "rt_phase ?s = PhaseDeleted" by simp
  with deleted_runtime_can_report_ready [OF this, of "ready 4 sample_key None"] show ?thesis
    unfolding Let_def by (simp add: ready_def)
qed

end
