(* ===== verification/Pipeline_Status_Laws.thy ===== *)
theory Pipeline_Status_Laws
  imports Pipeline_Status Pipeline_Runtime_Laws "HOL-Library.Multiset"
begin

section \<open>Laws of the aggregated status\<close>

text \<open>
  Which runtime instances are selected, said without folds and maps; that nothing the status
  counts depends on the iteration order of its hash maps; that compaction is invisible to
  those counts; and how the Ready condition relates to the readiness probe.
\<close>

subsection \<open>Association lists as maps\<close>

lemma alist_in_map_of: "distinct (map fst m) \<Longrightarrow> (c, k) \<in> set m \<longleftrightarrow> map_of m c = Some k"
  by simp

text \<open>A list of entries in which each key carries an instance of that core.\<close>

definition core_keyed :: "(core_id \<times> runtime_instance_key) list \<Rightarrow> bool" where
  "core_keyed m \<longleftrightarrow> distinct (map fst m) \<and> (\<forall>(c, k) \<in> set m. ri_core_id k = c)"

lemma core_keyed_Nil [simp]: "core_keyed []"
  by (simp add: core_keyed_def)

lemma core_keyed_update: "core_keyed m \<Longrightarrow> ri_core_id k = c \<Longrightarrow> core_keyed (AList.update c k m)"
proof -
  assume m: "core_keyed m" and k: "ri_core_id k = c"
  from m have d: "distinct (map fst m)" by (simp add: core_keyed_def)
  have "ri_core_id k' = c'" if "(c', k') \<in> set (AList.update c k m)" for c' k'
  proof -
    from that d have "map_of (AList.update c k m) c' = Some k'"
      by (simp add: distinct_update)
    then have "c' = c \<and> k' = k \<or> map_of m c' = Some k'"
      by (auto simp: update_conv split: if_splits)
    then show ?thesis using m k by (auto simp: core_keyed_def dest: map_of_SomeD)
  qed
  with d show ?thesis by (auto simp: core_keyed_def distinct_update)
qed

lemma core_keyed_delete: "core_keyed m \<Longrightarrow> core_keyed (AList.delete c m)"
  unfolding core_keyed_def by (auto simp: AList.delete_eq intro: distinct_map_filter)

lemma core_keyed_fold:
  "core_keyed m \<Longrightarrow> (\<And>x m. core_keyed m \<Longrightarrow> core_keyed (f x m)) \<Longrightarrow> core_keyed (fold f xs m)"
  by (induction xs arbitrary: m) simp_all

lemma core_keyed_cores: "core_keyed m \<Longrightarrow> map ri_core_id (map snd m) = map fst m"
  by (auto simp: core_keyed_def)

lemma core_keyed_member:
  assumes "core_keyed m"
  shows "k \<in> set (map snd m) \<longleftrightarrow> map_of m (ri_core_id k) = Some k"
proof
  assume "k \<in> set (map snd m)"
  then obtain c where c: "(c, k) \<in> set m" by auto
  with assms have "c = ri_core_id k" by (auto simp: core_keyed_def)
  with c assms show "map_of m (ri_core_id k) = Some k" by (simp add: core_keyed_def)
next
  assume "map_of m (ri_core_id k) = Some k"
  then have "(ri_core_id k, k) \<in> set m" by (rule map_of_SomeD)
  then show "k \<in> set (map snd m)" by force
qed

lemma core_keyed_empty: "m = [] \<longleftrightarrow> (\<forall>c. map_of m c = None)"
  by (cases m) auto

subsection \<open>What is selected\<close>

definition ps_wf :: "pipeline_status \<Rightarrow> bool" where
  "ps_wf ps \<longleftrightarrow> distinct (map fst (ps_instances ps)) \<and> distinct (map fst (ps_serving_generations ps))"

definition has_instance :: "pipeline_status \<Rightarrow> core_id \<Rightarrow> generation \<Rightarrow> bool" where
  "has_instance ps c g \<longleftrightarrow> instance_status c g ps \<noteq> None"

text \<open>
  The generation that represents a core: the one pinned for it, or else the active one if the
  core belongs to the footprint. Only when no core has any does the newest observed generation
  of each core of the footprint represent it.
\<close>

definition preferred_generation :: "pipeline_status \<Rightarrow> core_id \<Rightarrow> generation option" where
  "preferred_generation ps c =
     (case map_of (ps_serving_generations ps) c of
        Some g \<Rightarrow> if has_instance ps c g then Some g else None
      | None \<Rightarrow>
          (case ps_active_generation ps of
             Some g \<Rightarrow> if has_instance ps c g \<and> in_footprint ps c then Some g else None
           | None \<Rightarrow> None))"

definition newest_generation :: "pipeline_status \<Rightarrow> core_id \<Rightarrow> generation option" where
  "newest_generation ps c =
     (if in_footprint ps c \<and> (\<exists>g. has_instance ps c g) then Some (Max {g. has_instance ps c g}) else None)"

definition chosen_generation :: "pipeline_status \<Rightarrow> core_id \<Rightarrow> generation option" where
  "chosen_generation ps c =
     (if \<exists>c. preferred_generation ps c \<noteq> None then preferred_generation ps c
      else newest_generation ps c)"

lemma has_instance_keys:
  "has_instance ps c g \<longleftrightarrow> instance_key c g \<in> set (map fst (ps_instances ps))"
  by (simp add: has_instance_def instance_status_def map_of_eq_None_iff image_iff)

lemma key_eq_iff: "k = instance_key c g \<longleftrightarrow> ri_core_id k = c \<and> ri_deployment_generation k = g"
  by (cases k) auto

lemma key_eq_iff': "instance_key c g = k \<longleftrightarrow> ri_core_id k = c \<and> ri_deployment_generation k = g"
  by (cases k) auto

lemma fold_active:
  "(\<forall>k \<in> set ks. ri_deployment_generation k = g) \<Longrightarrow>
     map_of (fold (\<lambda>k m. AList.update (ri_core_id k) k m) ks m) c =
       (if instance_key c g \<in> set ks then Some (instance_key c g) else map_of m c)"
proof (induction ks arbitrary: m)
  case Nil
  then show ?case by simp
next
  case (Cons k ks)
  have k: "k = instance_key (ri_core_id k) g" using Cons.prems by (simp add: key_eq_iff)
  have "map_of (fold (\<lambda>k m. AList.update (ri_core_id k) k m) ks (AList.update (ri_core_id k) k m)) c =
      (if instance_key c g \<in> set ks then Some (instance_key c g)
       else map_of (AList.update (ri_core_id k) k m) c)"
    using Cons.prems by (intro Cons.IH) simp
  moreover have "instance_key c g = k \<longleftrightarrow> c = ri_core_id k" using k by (metis key_eq_iff)
  ultimately show ?case by (auto simp: update_conv)
qed

lemma select_active_map:
  "map_of (select_active ps) c =
     (case ps_active_generation ps of
        Some g \<Rightarrow> if has_instance ps c g \<and> in_footprint ps c then Some (instance_key c g) else None
      | None \<Rightarrow> None)"
proof (cases "ps_active_generation ps")
  case None
  then show ?thesis by (simp add: select_active_def)
next
  case (Some g)
  let ?ks = "filter (\<lambda>k. ri_deployment_generation k = g \<and> in_footprint ps (ri_core_id k))
               (map fst (ps_instances ps))"
  have "instance_key c g \<in> set ?ks \<longleftrightarrow> has_instance ps c g \<and> in_footprint ps c"
    unfolding has_instance_keys by simp
  with fold_active [of ?ks g "[]" c] Some show ?thesis by (simp add: select_active_def)
qed

lemma pin_map:
  "map_of (pin_serving ks (c', g) m) c =
     (if c = c' then (if instance_key c g \<in> set ks then Some (instance_key c g) else None)
      else map_of m c)"
  by (auto simp: pin_serving_def Let_def update_conv delete_conv' restrict_map_def)

lemma fold_pin_map:
  "distinct (map fst sg) \<Longrightarrow>
     map_of (fold (pin_serving ks) sg m) c =
       (case map_of sg c of
          Some g \<Rightarrow> if instance_key c g \<in> set ks then Some (instance_key c g) else None
        | None \<Rightarrow> map_of m c)"
proof (induction sg arbitrary: m)
  case Nil
  then show ?case by simp
next
  case (Cons cg sg)
  obtain c' g where cg: "cg = (c', g)" by (cases cg)
  from Cons.prems have d: "distinct (map fst sg)" and c': "map_of sg c' = None"
    by (auto simp: cg map_of_eq_None_iff)
  show ?case using Cons.IH [OF d] c' by (auto simp: cg pin_map split: option.splits)
qed

lemma preferred_map:
  assumes "ps_wf ps"
  shows "map_of (fold (pin_serving (map fst (ps_instances ps))) (ps_serving_generations ps) (select_active ps)) c =
    map_option (instance_key c) (preferred_generation ps c)"
  using assms
  by (auto simp: ps_wf_def fold_pin_map select_active_map preferred_generation_def has_instance_keys
      split: option.splits)

lemma newest_step_map:
  "map_of (select_newest_step ps k m) c =
     (if c = ri_core_id k \<and> in_footprint ps c \<and>
         (\<forall>old. map_of m c = Some old \<longrightarrow> ri_deployment_generation old < ri_deployment_generation k)
      then Some k else map_of m c)"
  by (auto simp: select_newest_step_def update_conv split: option.splits)

lemma fold_newest_map:
  "map_of (fold (select_newest_step ps) ks []) c =
     (if in_footprint ps c \<and> (\<exists>g. instance_key c g \<in> set ks)
      then Some (instance_key c (Max {g. instance_key c g \<in> set ks})) else None)"
proof (induction ks rule: rev_induct)
  case Nil
  then show ?case by simp
next
  case (snoc k ks)
  let ?G = "{g. instance_key c g \<in> set ks}" and ?g = "ri_deployment_generation k"
  have fin: "finite ?G"
    by (rule finite_subset [of _ "ri_deployment_generation ` set ks"]) force+
  have G': "{g. instance_key c g \<in> set (ks @ [k])} = (if ri_core_id k = c then insert ?g ?G else ?G)"
    by (auto simp: key_eq_iff')
  have k: "ri_core_id k = c \<Longrightarrow> k = instance_key c ?g" by (simp add: key_eq_iff)
  show ?case
  proof (cases "ri_core_id k = c \<and> in_footprint ps c")
    case False
    then show ?thesis using snoc.IH G' by (auto simp: newest_step_map)
  next
    case True
    then have ex: "\<exists>g. instance_key c g \<in> set (ks @ [k])" using k by (intro exI [of _ ?g]) simp
    show ?thesis
    proof (cases "?G = {}")
      case True
      with snoc.IH \<open>ri_core_id k = c \<and> in_footprint ps c\<close> ex k show ?thesis
        unfolding G' by (auto simp: newest_step_map)
    next
      case False
      then have "Max (insert ?g ?G) = max ?g (Max ?G)" using fin by simp
      with snoc.IH False \<open>ri_core_id k = c \<and> in_footprint ps c\<close> ex k show ?thesis
        unfolding G' by (auto simp: newest_step_map max_def)
    qed
  qed
qed

lemma newest_map:
  "map_of (fold (select_newest_step ps) (map fst (ps_instances ps)) []) c =
     map_option (instance_key c) (newest_generation ps c)"
  unfolding fold_newest_map newest_generation_def has_instance_keys by simp

lemma select_active_keyed: "core_keyed (select_active ps)"
  unfolding select_active_def
  by (auto split: option.split intro!: core_keyed_fold core_keyed_update)

lemma pin_keyed: "core_keyed m \<Longrightarrow> core_keyed (pin_serving ks cg m)"
  by (simp add: pin_serving_def Let_def core_keyed_update core_keyed_delete)

lemma newest_step_keyed: "core_keyed m \<Longrightarrow> core_keyed (select_newest_step ps k m)"
  by (simp add: select_newest_step_def Let_def core_keyed_update)

lemma selected_keys_map:
  assumes "ps_wf ps"
  obtains m where "selected_runtime_keys ps = map snd m" "core_keyed m"
    "\<forall>c. map_of m c = map_option (instance_key c) (chosen_generation ps c)"
proof -
  let ?ks = "map fst (ps_instances ps)"
  let ?pref = "fold (pin_serving ?ks) (ps_serving_generations ps) (select_active ps)"
  let ?new = "fold (select_newest_step ps) ?ks []"
  have kp: "core_keyed ?pref"
    using select_active_keyed pin_keyed by (rule core_keyed_fold)
  have kn: "core_keyed ?new"
    using core_keyed_Nil newest_step_keyed by (rule core_keyed_fold)
  have emp: "?pref = [] \<longleftrightarrow> (\<forall>c. preferred_generation ps c = None)"
    unfolding core_keyed_empty preferred_map [OF assms] by simp
  show ?thesis
  proof (cases "?pref = []")
    case True
    then show ?thesis using that [OF _ kn] emp
      by (auto simp: selected_runtime_keys_def Let_def chosen_generation_def newest_map)
  next
    case False
    then show ?thesis using that [OF _ kp] emp
      by (auto simp: selected_runtime_keys_def Let_def chosen_generation_def preferred_map [OF assms])
  qed
qed

lemma selected_keys_member:
  assumes "ps_wf ps"
  shows "k \<in> set (selected_runtime_keys ps) \<longleftrightarrow>
    chosen_generation ps (ri_core_id k) = Some (ri_deployment_generation k)"
proof -
  from assms obtain m where m: "selected_runtime_keys ps = map snd m" "core_keyed m"
    "\<forall>c. map_of m c = map_option (instance_key c) (chosen_generation ps c)"
    by (rule selected_keys_map)
  have "k \<in> set (selected_runtime_keys ps) \<longleftrightarrow> map_of m (ri_core_id k) = Some k"
    unfolding m(1) by (rule core_keyed_member [OF m(2)])
  also have "\<dots> \<longleftrightarrow> chosen_generation ps (ri_core_id k) = Some (ri_deployment_generation k)"
    using m(3) by (auto simp: key_eq_iff')
  finally show ?thesis .
qed

lemma selected_keys_cores:
  assumes "ps_wf ps"
  shows "distinct (map ri_core_id (selected_runtime_keys ps))"
proof -
  from assms obtain m where m: "selected_runtime_keys ps = map snd m" "core_keyed m"
    "\<forall>c. map_of m c = map_option (instance_key c) (chosen_generation ps c)"
    by (rule selected_keys_map)
  show ?thesis unfolding m(1) core_keyed_cores [OF m(2)] using m(2) by (simp add: core_keyed_def)
qed

lemma selected_keys_distinct: "ps_wf ps \<Longrightarrow> distinct (selected_runtime_keys ps)"
  using selected_keys_cores [of ps] by (simp add: distinct_map)

subsection \<open>Counts do not depend on the order of the maps\<close>

text \<open>
  Everything the status reports by counting is a function of the set of selected keys and of
  the statuses stored for them.
\<close>

lemma map_filter_lookup:
  "List.map_filter (\<lambda>k. map_option (Pair k) (f k)) ks =
     map (\<lambda>k. (k, the (f k))) (filter (\<lambda>k. f k \<noteq> None) ks)"
  by (induction ks) (auto simp: map_filter_simps)

lemma selected_runtimes_alt:
  "selected_runtimes ps =
    map (\<lambda>k. (k, the (map_of (ps_instances ps) k)))
      (filter (\<lambda>k. map_of (ps_instances ps) k \<noteq> None) (selected_runtime_keys ps))"
  unfolding selected_runtimes_def by (rule map_filter_lookup)

lemma selected_runtimes_mset:
  assumes "ps_wf ps" "ps_wf ps'"
    and "map_of (ps_instances ps) = map_of (ps_instances ps')"
    and "set (selected_runtime_keys ps) = set (selected_runtime_keys ps')"
  shows "mset (selected_runtimes ps) = mset (selected_runtimes ps')"
proof -
  have "mset (selected_runtime_keys ps) = mset (selected_runtime_keys ps')"
    using assms(4) selected_keys_distinct [OF assms(1)] selected_keys_distinct [OF assms(2)]
    by (metis set_eq_iff_mset_eq_distinct)
  then show ?thesis
    unfolding selected_runtimes_alt assms(3)
    by (simp only: mset_map mset_filter)
qed

lemma count_mset:
  assumes "mset sel = mset sel'"
  shows "count_quorum_from sel p = count_quorum_from sel' p"
  unfolding count_quorum_from_def Let_def
  by (metis assms mset_filter size_mset)

lemma length_filter_mset: "mset xs = mset ys \<Longrightarrow> length (filter P xs) = length (filter P ys)"
  by (metis mset_filter size_mset)

lemma reports_mset:
  assumes sel: "mset (selected_runtimes ps) = mset (selected_runtimes ps')"
    and hp: "ps_health_policy ps = ps_health_policy ps'"
  shows "total_cores ps = total_cores ps'" "running_cores ps = running_cores ps'"
    "ready_count ps = ready_count ps'" "liveness ps = liveness ps'" "readiness ps = readiness ps'"
proof -
  show "total_cores ps = total_cores ps'"
    unfolding total_cores_def by (metis sel size_mset)
  show "running_cores ps = running_cores ps'"
    unfolding running_cores_def by (rule length_filter_mset [OF sel])
  show rc: "ready_count ps = ready_count ps'"
    unfolding ready_count_def hp by (rule count_mset [OF sel])
  show "liveness ps = liveness ps'"
    unfolding liveness_def hp count_mset [OF sel] ..
  show "readiness ps = readiness ps'"
    unfolding readiness_def rc hp ..
qed

text \<open>Status of the aggregated Accepted condition, from the multiset of statuses.\<close>

lemma scan_false: "(sn_latest_false (fold (\<lambda>(_, rt). scan_step (f rt)) sel a) \<noteq> None) \<longleftrightarrow>
    sn_latest_false a \<noteq> None \<or> (\<exists>(_, rt) \<in> set sel. cn_status (f rt) = StatusFalse)"
proof (induction sel arbitrary: a)
  case Nil
  then show ?case by simp
next
  case (Cons x sel)
  show ?case unfolding fold_Cons comp_def Cons.IH
    by (cases x; cases "cn_status (f (snd x))") (auto simp: scan_step_def)
qed

lemma scan_unknown: "(sn_unknown (fold (\<lambda>(_, rt). scan_step (f rt)) sel a) \<noteq> None) \<longleftrightarrow>
    sn_unknown a \<noteq> None \<or> (\<exists>(_, rt) \<in> set sel. cn_status (f rt) = StatusUnknown)"
proof (induction sel arbitrary: a)
  case Nil
  then show ?case by simp
next
  case (Cons x sel)
  show ?case unfolding fold_Cons comp_def Cons.IH
    by (cases x; cases "cn_status (f (snd x))") (auto simp: scan_step_def)
qed

lemma status_image: "(\<exists>(_, rt) \<in> set sel. cn_status (f rt) = st) \<longleftrightarrow> st \<in> (\<lambda>(_, rt). cn_status (f rt)) ` set sel"
  by (auto simp: image_iff split: prod.splits)

definition accepted_statuses :: "pipeline_status \<Rightarrow> condition_status set" where
  "accepted_statuses ps = (\<lambda>(_, rt). cn_status (rt_accepted_condition rt)) ` set (selected_runtimes ps)"

lemma accepted_status_alt:
  "pc_status (aggregate_accepted_condition ps) =
     (if accepted_statuses ps = {} then StatusUnknown
      else if StatusFalse \<in> accepted_statuses ps then StatusFalse
      else if StatusUnknown \<in> accepted_statuses ps then StatusUnknown
      else StatusTrue)"
proof -
  have f: "(sn_latest_false (scan_accepted ps) \<noteq> None) \<longleftrightarrow> StatusFalse \<in> accepted_statuses ps"
    unfolding scan_accepted_def scan_false status_image accepted_statuses_def by (simp add: scan_start_def)
  have u: "(sn_unknown (scan_accepted ps) \<noteq> None) \<longleftrightarrow> StatusUnknown \<in> accepted_statuses ps"
    unfolding scan_accepted_def scan_unknown status_image accepted_statuses_def by (simp add: scan_start_def)
  have e: "selected_runtimes ps = [] \<longleftrightarrow> accepted_statuses ps = {}"
    by (simp add: accepted_statuses_def)
  show ?thesis
    unfolding aggregate_accepted_condition_def e f [symmetric] u [symmetric]
    by (simp split: option.split)
qed

subsection \<open>Compaction\<close>

lemma finite_generations: "finite {g. has_instance ps c g}"
proof -
  have "{g. has_instance ps c g} \<subseteq> ri_deployment_generation ` set (map fst (ps_instances ps))"
    unfolding has_instance_keys by force
  then show ?thesis by (rule finite_subset) simp
qed

lemma newest_has: "newest_generation ps c = Some g \<Longrightarrow> has_instance ps c g"
  using Max_in [OF finite_generations [of ps c]]
  by (auto simp: newest_generation_def split: if_splits)

lemma preferred_has: "preferred_generation ps c = Some g \<Longrightarrow> has_instance ps c g"
  by (auto simp: preferred_generation_def split: option.splits if_splits)

lemma chosen_has: "chosen_generation ps c = Some g \<Longrightarrow> has_instance ps c g"
  by (auto simp: chosen_generation_def intro: newest_has preferred_has split: if_splits)

lemma compact_fields [simp]:
  "ps_serving_generations (compact_instances_to_selected ps) = ps_serving_generations ps"
  "ps_active_generation (compact_instances_to_selected ps) = ps_active_generation ps"
  "ps_active_cores (compact_instances_to_selected ps) = ps_active_cores ps"
  "ps_health_policy (compact_instances_to_selected ps) = ps_health_policy ps"
  "in_footprint (compact_instances_to_selected ps) = in_footprint ps"
  by (simp_all add: compact_instances_to_selected_def Let_def in_footprint_def fun_eq_iff)

lemma compact_instances:
  "ps_instances (compact_instances_to_selected ps) =
     filter (\<lambda>(k, _). k \<in> set (selected_runtime_keys ps)) (ps_instances ps)"
  by (simp add: compact_instances_to_selected_def Let_def)

lemma map_of_filter_keys:
  "map_of (filter (\<lambda>(k, _). k \<in> S) m) k = (if k \<in> S then map_of m k else None)"
  by (induction m) auto

lemma compact_lookup:
  "map_of (ps_instances (compact_instances_to_selected ps)) k =
     (if k \<in> set (selected_runtime_keys ps) then map_of (ps_instances ps) k else None)"
  unfolding compact_instances by (rule map_of_filter_keys)

lemma compact_wf: "ps_wf ps \<Longrightarrow> ps_wf (compact_instances_to_selected ps)"
  unfolding ps_wf_def compact_instances by (simp add: distinct_map_filter)

lemma compact_has:
  "ps_wf ps \<Longrightarrow> has_instance (compact_instances_to_selected ps) c g \<longleftrightarrow> chosen_generation ps c = Some g"
  using chosen_has [of ps c g]
  by (auto simp: has_instance_def instance_status_def compact_lookup selected_keys_member)

lemma compact_preferred:
  assumes "ps_wf ps"
  shows "preferred_generation (compact_instances_to_selected ps) c = preferred_generation ps c"
proof (cases "\<exists>c. preferred_generation ps c \<noteq> None")
  case True
  then have ch: "chosen_generation ps = preferred_generation ps"
    by (simp add: chosen_generation_def fun_eq_iff)
  show ?thesis
    unfolding preferred_generation_def [of "compact_instances_to_selected ps"] compact_has [OF assms] ch
    by (auto simp: preferred_generation_def split: option.splits)
next
  case False
  then have none: "preferred_generation ps c = None" by blast
  then show ?thesis
    using chosen_has [of ps c]
    by (auto simp: preferred_generation_def compact_has [OF assms] split: option.splits if_splits)
qed

lemma compact_newest:
  assumes "ps_wf ps" "\<nexists>c. preferred_generation ps c \<noteq> None"
  shows "newest_generation (compact_instances_to_selected ps) c = newest_generation ps c"
proof -
  from assms(2) have ch: "chosen_generation ps c = newest_generation ps c"
    by (simp add: chosen_generation_def)
  show ?thesis
    unfolding newest_generation_def [of "compact_instances_to_selected ps"] compact_has [OF assms(1)] ch
  proof (cases "newest_generation ps c")
    case (Some g)
    then have "in_footprint ps c" by (simp add: newest_generation_def split: if_splits)
    with Some show "(if in_footprint (compact_instances_to_selected ps) c \<and> (\<exists>g. newest_generation ps c = Some g)
        then Some (Max {g. newest_generation ps c = Some g}) else None) = newest_generation ps c"
      by simp
  qed simp
qed

lemma compact_chosen:
  "ps_wf ps \<Longrightarrow> chosen_generation (compact_instances_to_selected ps) c = chosen_generation ps c"
  using compact_newest [of ps c] unfolding chosen_generation_def
  by (cases "\<exists>c. preferred_generation ps c \<noteq> None") (simp_all only: compact_preferred simp_thms if_True if_False)

lemma compact_selected:
  assumes "ps_wf ps"
  shows "set (selected_runtime_keys (compact_instances_to_selected ps)) = set (selected_runtime_keys ps)"
  by (rule set_eqI)
    (simp only: selected_keys_member [OF assms] selected_keys_member [OF compact_wf [OF assms]]
      compact_chosen [OF assms])

lemma lookup_cong:
  "\<forall>k \<in> set ks. f k = g k \<Longrightarrow>
     map (\<lambda>k. (k, the (f k))) (filter (\<lambda>k. f k \<noteq> None) ks) =
     map (\<lambda>k. (k, the (g k))) (filter (\<lambda>k. g k \<noteq> None) ks)"
  by (induction ks) auto

lemma compact_runtimes_mset:
  assumes "ps_wf ps"
  shows "mset (selected_runtimes (compact_instances_to_selected ps)) = mset (selected_runtimes ps)"
proof -
  let ?R = "compact_instances_to_selected ps"
  have "mset (selected_runtime_keys ?R) = mset (selected_runtime_keys ps)"
    using compact_selected [OF assms] selected_keys_distinct [OF assms]
      selected_keys_distinct [OF compact_wf [OF assms]]
    by (metis set_eq_iff_mset_eq_distinct)
  moreover have "map (\<lambda>k. (k, the (map_of (ps_instances ?R) k)))
        (filter (\<lambda>k. map_of (ps_instances ?R) k \<noteq> None) (selected_runtime_keys ?R)) =
      map (\<lambda>k. (k, the (map_of (ps_instances ps) k)))
        (filter (\<lambda>k. map_of (ps_instances ps) k \<noteq> None) (selected_runtime_keys ?R))"
    by (rule lookup_cong) (simp add: compact_lookup compact_selected [OF assms])
  ultimately show ?thesis
    unfolding selected_runtimes_alt by (simp only: mset_map mset_filter)
qed

subsection \<open>The Ready condition\<close>

lemma not_ready_status: "pc_status (not_ready_condition ps required numer denom) \<noteq> StatusTrue"
  by (simp add: not_ready_condition_def Let_def split: option.split)

lemma ready_status_alt:
  "pc_status (aggregate_ready_condition ps) = StatusTrue \<longleftrightarrow>
     0 < snd (ready_count ps) \<and>
     required_ready_count (hp_ready_quorum (ps_health_policy ps)) (snd (ready_count ps)) \<le> fst (ready_count ps)"
proof (cases "selected_runtimes ps = []")
  case True
  then show ?thesis
    by (simp add: aggregate_ready_condition_def ready_count_def count_quorum_from_def)
next
  case False
  then show ?thesis
    using not_ready_status [of ps]
    by (simp add: aggregate_ready_condition_def Let_def split: prod.split)
qed

lemma readiness_alt:
  "readiness ps \<longleftrightarrow>
     0 < snd (ready_count ps) \<and>
     quorum_satisfied (fst (ready_count ps)) (snd (ready_count ps)) (hp_ready_quorum (ps_health_policy ps))"
  by (simp add: readiness_def split: prod.split)

lemma chosen_maps:
  assumes "map_of (ps_instances ps) = map_of (ps_instances ps')"
    "map_of (ps_serving_generations ps) = map_of (ps_serving_generations ps')"
    "ps_active_generation ps = ps_active_generation ps'" "ps_active_cores ps = ps_active_cores ps'"
  shows "chosen_generation ps = chosen_generation ps'"
proof -
  have h: "has_instance ps = has_instance ps'"
    by (simp add: has_instance_def instance_status_def assms(1) fun_eq_iff)
  have f: "in_footprint ps = in_footprint ps'"
    by (simp add: in_footprint_def assms(4) fun_eq_iff)
  have "preferred_generation ps = preferred_generation ps'"
    by (rule ext) (simp only: preferred_generation_def h f assms(2,3))
  moreover have "newest_generation ps = newest_generation ps'"
    by (rule ext) (simp only: newest_generation_def h f)
  ultimately show ?thesis by (intro ext) (simp only: chosen_generation_def)
qed

lemma ready_count_le: "fst (ready_count ps) \<le> snd (ready_count ps)"
  unfolding ready_count_def count_quorum_from_def Let_def fst_conv snd_conv by (rule length_filter_le)

definition overstated :: "pipeline_status \<Rightarrow> bool" where
  "overstated ps \<longleftrightarrow>
     (\<exists>n. hp_ready_quorum (ps_health_policy ps) = AtLeast n \<and> snd (ready_count ps) < n) \<and>
     0 < snd (ready_count ps) \<and> fst (ready_count ps) = snd (ready_count ps) \<and> \<not> readiness ps"

text \<open>One running core under a quorum of two is such a case.\<close>

definition small_pool :: pipeline_status where
  "small_pool =
     (new_pipeline_status (default_health_policy\<lparr>hp_ready_quorum := AtLeast 2\<rparr>))
       \<lparr>ps_instances := [(instance_key 0 0, (default_runtime_status 0)\<lparr>rt_phase := PhaseRunning\<rparr>)],
        ps_active_generation := Some 0\<rparr>"

lemma small_pool_overstated: "overstated small_pool"
proof -
  have "ready_count small_pool = (1, 1)"
    by (simp add: ready_count_def count_quorum_from_def selected_runtimes_def map_filter_simps
        selected_runtime_keys_def select_active_def small_pool_def new_pipeline_status_def
        in_footprint_def default_health_policy_def is_ready_def default_ready_if_def)
  then show ?thesis
    by (simp add: overstated_def readiness_alt quorum_satisfied_def small_pool_def
        new_pipeline_status_def default_health_policy_def)
qed

subsection \<open>Properties\<close>

text \<open>
  C26. The selection is exact: at most one runtime per core represents the pipeline, and it is the
  one of the pinned serving generation, otherwise of the active generation within the active
  footprint; only if no core has such an instance, the newest generation observed on each core
  of the footprint.
\<close>

theorem selection_is_exact:
  assumes "ps_wf ps"
  shows "distinct (map ri_core_id (selected_runtime_keys ps)) \<and>
    set (selected_runtime_keys ps) =
      {k. chosen_generation ps (ri_core_id k) = Some (ri_deployment_generation k)}"
proof
  show "distinct (map ri_core_id (selected_runtime_keys ps))"
    using assms by (rule selected_keys_cores)
  show "set (selected_runtime_keys ps) =
      {k. chosen_generation ps (ri_core_id k) = Some (ri_deployment_generation k)}"
    by (rule set_eqI) (simp only: selected_keys_member [OF assms] mem_Collect_eq)
qed

definition sample_status :: pipeline_status where
  "sample_status =
     (new_pipeline_status default_health_policy)
       \<lparr>ps_instances :=
          [(instance_key 0 1, (default_runtime_status 0)\<lparr>rt_phase := PhaseRunning\<rparr>),
           (instance_key 0 2, (default_runtime_status 0)\<lparr>rt_phase := PhaseStarting\<rparr>),
           (instance_key 1 1, (default_runtime_status 0)\<lparr>rt_phase := PhaseRunning\<rparr>)],
        ps_serving_generations := [(0, 2)],
        ps_active_generation := Some 1\<rparr>"

lemma sample_wf: "ps_wf sample_status"
  by (simp add: ps_wf_def sample_status_def new_pipeline_status_def)

theorem selection_is_exact_witness:
  "selected_runtime_keys sample_status = [instance_key 1 1, instance_key 0 2] \<and>
   chosen_generation sample_status 0 = Some 2"
proof -
  have keys: "selected_runtime_keys sample_status = [instance_key 1 1, instance_key 0 2]"
    by (simp add: selected_runtime_keys_def select_active_def pin_serving_def sample_status_def
        new_pipeline_status_def in_footprint_def Let_def AList.delete_eq)
  then have "instance_key 0 2 \<in> set (selected_runtime_keys sample_status)" by simp
  then have "chosen_generation sample_status 0 = Some 2"
    unfolding selection_is_exact [OF sample_wf, THEN conjunct2] by simp
  with keys show ?thesis by (rule conjI)
qed

text \<open>
  What the status reports does not depend on the iteration order of its hash maps: two
  statuses that hold the same mappings agree on the number of selected and of running cores,
  on liveness, readiness, the status of the Accepted condition and whether the Ready condition
  is True.
\<close>

theorem reports_ignore_map_order:
  assumes wf: "ps_wf ps" "ps_wf ps'"
    and inst: "map_of (ps_instances ps) = map_of (ps_instances ps')"
    and serv: "map_of (ps_serving_generations ps) = map_of (ps_serving_generations ps')"
    and rest: "ps_active_generation ps = ps_active_generation ps'" "ps_active_cores ps = ps_active_cores ps'"
      "ps_health_policy ps = ps_health_policy ps'"
  shows "total_cores ps = total_cores ps' \<and> running_cores ps = running_cores ps' \<and>
    liveness ps = liveness ps' \<and> readiness ps = readiness ps' \<and>
    pc_status (aggregate_accepted_condition ps) = pc_status (aggregate_accepted_condition ps') \<and>
    (pc_status (aggregate_ready_condition ps) = StatusTrue \<longleftrightarrow>
       pc_status (aggregate_ready_condition ps') = StatusTrue)"
proof -
  have "set (selected_runtime_keys ps) = set (selected_runtime_keys ps')"
    by (rule set_eqI)
      (simp only: selected_keys_member [OF wf(1)] selected_keys_member [OF wf(2)]
        chosen_maps [OF inst serv rest(1,2)])
  with wf inst have m: "mset (selected_runtimes ps) = mset (selected_runtimes ps')"
    by (rule selected_runtimes_mset)
  then have "accepted_statuses ps = accepted_statuses ps'"
    unfolding accepted_statuses_def by (metis set_mset_mset)
  with reports_mset [OF m rest(3)] show ?thesis
    by (simp add: accepted_status_alt ready_status_alt rest(3))
qed

text \<open>
  Compaction drops runtime instances without changing what is reported: the chosen
  generations, the counts of selected and running cores, liveness, readiness and the status of
  the conditions stay, every selected runtime keeps its status, and only selected ones remain.
\<close>

theorem compaction_preserves_reports:
  assumes wf: "ps_wf ps"
  shows "let ps' = compact_instances_to_selected ps in
    ps_wf ps' \<and> chosen_generation ps' = chosen_generation ps \<and>
    (\<forall>k. map_of (ps_instances ps') k =
       (if k \<in> set (selected_runtime_keys ps) then map_of (ps_instances ps) k else None)) \<and>
    total_cores ps' = total_cores ps \<and> running_cores ps' = running_cores ps \<and>
    liveness ps' = liveness ps \<and> readiness ps' = readiness ps \<and>
    pc_status (aggregate_accepted_condition ps') = pc_status (aggregate_accepted_condition ps) \<and>
    (pc_status (aggregate_ready_condition ps') = StatusTrue \<longleftrightarrow>
       pc_status (aggregate_ready_condition ps) = StatusTrue)"
proof -
  let ?c = "compact_instances_to_selected ps"
  note m = compact_runtimes_mset [OF wf]
  have "accepted_statuses ?c = accepted_statuses ps"
    unfolding accepted_statuses_def by (metis m set_mset_mset)
  moreover have "chosen_generation ?c = chosen_generation ps"
    by (rule ext) (rule compact_chosen [OF wf])
  ultimately show ?thesis
    using reports_mset [OF m compact_fields(4)] compact_wf [OF wf]
    by (simp add: Let_def accepted_status_alt ready_status_alt compact_lookup)
qed

text \<open>
  C27. Exactly when the Ready condition is True while the readiness probe fails: the quorum is an
  absolute number larger than the number of serving cores, and all of those are ready (the
  condition caps the requirement at that number, the probe does not). Otherwise the Ready
  condition is True exactly if the probe succeeds.
\<close>

theorem ready_condition_versus_probe:
  "pc_status (aggregate_ready_condition ps) = StatusTrue \<longleftrightarrow> readiness ps \<or> overstated ps"
  unfolding ready_status_alt readiness_alt overstated_def
  using ready_count_le [of ps]
  by (cases "hp_ready_quorum (ps_health_policy ps)")
    (auto simp: required_ready_count_def quorum_satisfied_def)

end
