(* ===== verification/State_Store.thy ===== *)
theory State_Store
  imports Pipeline_Status_Laws
begin

section \<open>The observed-state store\<close>

text \<open>
  \<^verbatim>\<open>state/src/store.rs\<close>: the store that the controller and the engine report to, and the loop
  that feeds it from its two channels. The mutexes are never poisoned in the model, since no
  operation under a lock panics. Console output, the retained-log sink and the telemetry of
  the store itself are output only and left out. A channel is the list of queued events and
  the number of its senders, which decides between \<^verbatim>\<open>Empty\<close> and \<^verbatim>\<open>Disconnected\<close>; the bound of the
  log channel only limits which sends succeed and is left out.
\<close>

subsection \<open>State and bookkeeping operations\<close>

definition recent_events_capacity :: nat where
  "recent_events_capacity = 10"

record observed_state_store =
  os_default_health_policy :: health_policy
  os_health_policies :: "(pipeline_key \<times> health_policy) list"
  os_pipelines :: "(pipeline_key \<times> pipeline_status) list"

definition new_store :: observed_state_store where
  "new_store = \<lparr>os_default_health_policy = default_health_policy, os_health_policies = [], os_pipelines = []\<rparr>"

definition register_pipeline_health_policy ::
  "pipeline_key \<Rightarrow> health_policy \<Rightarrow> observed_state_store \<Rightarrow> observed_state_store" where
  "register_pipeline_health_policy k hp st =
     st\<lparr>os_health_policies := AList.update k hp (os_health_policies st)\<rparr>"

definition health_policy_for_pipeline :: "pipeline_key \<Rightarrow> observed_state_store \<Rightarrow> health_policy" where
  "health_policy_for_pipeline k st =
     (case map_of (os_health_policies st) k of
        Some hp \<Rightarrow> hp
      | None \<Rightarrow> os_default_health_policy st)"

definition entry_or_new :: "pipeline_key \<Rightarrow> observed_state_store \<Rightarrow> pipeline_status" where
  \<comment> \<open>\<^verbatim>\<open>pipelines.entry(key).or_insert_with(..)\<close>\<close>
  "entry_or_new k st =
     (case map_of (os_pipelines st) k of
        Some ps \<Rightarrow> ps
      | None \<Rightarrow> new_pipeline_status (health_policy_for_pipeline k st))"

definition put_pipeline :: "pipeline_key \<Rightarrow> pipeline_status \<Rightarrow> observed_state_store \<Rightarrow> observed_state_store" where
  "put_pipeline k ps st = st\<lparr>os_pipelines := AList.update k ps (os_pipelines st)\<rparr>"

definition with_existing ::
  "pipeline_key \<Rightarrow> (pipeline_status \<Rightarrow> pipeline_status) \<Rightarrow> observed_state_store \<Rightarrow> observed_state_store" where
  \<comment> \<open>\<^verbatim>\<open>if let Some(status) = pipelines.get_mut(key)\<close>\<close>
  "with_existing k f st =
     (case map_of (os_pipelines st) k of Some ps \<Rightarrow> put_pipeline k (f ps) st | None \<Rightarrow> st)"

definition set_pipeline_active_generation ::
  "pipeline_key \<Rightarrow> generation \<Rightarrow> observed_state_store \<Rightarrow> observed_state_store" where
  "set_pipeline_active_generation k g st = put_pipeline k (set_active_generation g (entry_or_new k st)) st"

definition set_pipeline_active_cores ::
  "pipeline_key \<Rightarrow> core_id list \<Rightarrow> observed_state_store \<Rightarrow> observed_state_store" where
  "set_pipeline_active_cores k cs st = put_pipeline k (set_active_cores cs (entry_or_new k st)) st"

definition set_pipeline_serving_generation ::
  "pipeline_key \<Rightarrow> core_id \<Rightarrow> generation \<Rightarrow> observed_state_store \<Rightarrow> observed_state_store" where
  "set_pipeline_serving_generation k c g st = put_pipeline k (set_serving_generation c g (entry_or_new k st)) st"

definition clear_pipeline_serving_generation ::
  "pipeline_key \<Rightarrow> core_id \<Rightarrow> observed_state_store \<Rightarrow> observed_state_store" where
  "clear_pipeline_serving_generation k c st = with_existing k (clear_serving_generation c) st"

definition set_pipeline_rollout_summary ::
  "pipeline_key \<Rightarrow> pipeline_rollout_summary \<Rightarrow> observed_state_store \<Rightarrow> observed_state_store" where
  "set_pipeline_rollout_summary k r st = put_pipeline k (set_rollout_summary r (entry_or_new k st)) st"

definition clear_pipeline_rollout_summary :: "pipeline_key \<Rightarrow> observed_state_store \<Rightarrow> observed_state_store" where
  "clear_pipeline_rollout_summary k st = with_existing k clear_rollout_summary st"

definition remove_pipeline :: "pipeline_key \<Rightarrow> observed_state_store \<Rightarrow> observed_state_store" where
  "remove_pipeline k st =
     st\<lparr>os_pipelines := AList.delete k (os_pipelines st),
        os_health_policies := AList.delete k (os_health_policies st)\<rparr>"

definition compact_pipeline_instances :: "pipeline_key \<Rightarrow> observed_state_store \<Rightarrow> observed_state_store" where
  "compact_pipeline_instances k st = with_existing k compact_instances_to_selected st"

subsection \<open>The read handle\<close>

definition store_pipeline_status :: "pipeline_key \<Rightarrow> observed_state_store \<Rightarrow> pipeline_status option" where
  "store_pipeline_status k st = map_of (os_pipelines st) k"

definition store_liveness :: "pipeline_key \<Rightarrow> observed_state_store \<Rightarrow> bool" where
  "store_liveness k st = (case map_of (os_pipelines st) k of Some ps \<Rightarrow> liveness ps | None \<Rightarrow> False)"

definition store_readiness :: "pipeline_key \<Rightarrow> observed_state_store \<Rightarrow> bool" where
  "store_readiness k st = (case map_of (os_pipelines st) k of Some ps \<Rightarrow> readiness ps | None \<Rightarrow> False)"

subsection \<open>Reporting events\<close>

definition event_pipeline_key :: "engine_event \<Rightarrow> pipeline_key" where
  "event_pipeline_key e = new_pipeline_key (dk_pipeline_group_id (ev_key e)) (dk_pipeline_id (ev_key e))"

definition event_instance_key :: "engine_event \<Rightarrow> runtime_instance_key" where
  "event_instance_key e = instance_key (dk_core_id (ev_key e)) (dk_deployment_generation (ev_key e))"

definition new_runtime_status :: "system_time \<Rightarrow> pipeline_runtime_status" where
  \<comment> \<open>\<^verbatim>\<open>Default::default()\<close> also reads the clock, for the heartbeat that is set here\<close>
  "new_runtime_status t =
     (default_runtime_status t)
       \<lparr>rt_phase := PhasePending, rt_last_heartbeat_time := t,
        rt_recent_events := new_ring_buffer recent_events_capacity\<rparr>"

definition upsert_instance ::
  "engine_event \<Rightarrow> pipeline_status \<Rightarrow> (state_error + apply_outcome) \<times> pipeline_status" where
  "upsert_instance e ps =
     (let ps1 = (if ps_active_generation ps = None
                 then set_active_generation (dk_deployment_generation (ev_key e)) ps else ps);
          cs = (case map_of (ps_instances ps1) (event_instance_key e) of
                  Some rt \<Rightarrow> rt
                | None \<Rightarrow> new_runtime_status (ev_time e));
          (out, cs') = apply_event e cs in
      (out, ps1\<lparr>ps_instances := AList.update (event_instance_key e) cs' (ps_instances ps1)\<rparr>))"

definition report_engine ::
  "engine_event \<Rightarrow> observed_state_store \<Rightarrow> (state_error + apply_outcome) \<times> observed_state_store" where
  "report_engine e st =
     (let k = event_pipeline_key e; (out, ps) = upsert_instance e (entry_or_new k st) in
      (out, put_pipeline k ps st))"

definition report ::
  "observed_event \<Rightarrow> observed_state_store \<Rightarrow> (state_error + unit) \<times> observed_state_store" where
  "report ev st =
     (case ev of
        ObsEngine e \<Rightarrow>
          (case report_engine e st of
             (Inl err, st') \<Rightarrow> (Inl err, st')
           | (Inr _, st') \<Rightarrow> (Inr (), st'))
      | ObsLog _ \<Rightarrow> (Inr (), st))"

subsection \<open>The collection loop\<close>

text \<open>
  The loop runs beside the threads that send to its channels and the one that cancels it, so it
  is cut into rounds, each of which touches a channel at most once: the biased \<^verbatim>\<open>select!\<close> looks at
  the cancellation token, then at the engine channel, then at the log channel, and starts over;
  after a cancellation \<^verbatim>\<open>drain_remaining\<close> takes from the engine channel until it is empty, then
  from the log channel, and repeats both if it made progress (the flag of its two places).
\<close>

datatype run_place =
    Select_Cancel
  | Select_Engine
  | Select_Log
  | Drain_Engine bool
  | Drain_Log bool
  | Finished

record store_loop =
  sl_store :: observed_state_store
  sl_engine_queue :: "engine_event list"
  sl_log_queue :: "observed_event list"
  sl_engine_senders :: nat
  sl_log_senders :: nat
  sl_engine_closed :: bool
  sl_log_closed :: bool
  sl_cancelled :: bool
  sl_place :: run_place

text \<open>The store passed to \<^verbatim>\<open>run\<close> owns one sender of each channel, from which the others are cloned.\<close>

definition start_loop :: "observed_state_store \<Rightarrow> store_loop" where
  "start_loop st =
     \<lparr>sl_store = st, sl_engine_queue = [], sl_log_queue = [], sl_engine_senders = 1, sl_log_senders = 1,
      sl_engine_closed = False, sl_log_closed = False, sl_cancelled = False, sl_place = Select_Cancel\<rparr>"

datatype run_label =
    SendEngine engine_event
  | SendLog observed_event
  | Cancel
  | TakeEngine engine_event
  | TakeLog observed_event
  | Quiet

definition select_cancel :: "store_loop \<Rightarrow> run_label \<times> store_loop" where
  \<comment> \<open>the loop condition and the first branch of \<^verbatim>\<open>select!\<close>\<close>
  "select_cancel l =
     (Quiet,
      if sl_engine_closed l \<and> sl_log_closed l then l\<lparr>sl_place := Finished\<rparr>
      else if sl_cancelled l then l\<lparr>sl_place := Drain_Engine False\<rparr>
      else l\<lparr>sl_place := Select_Engine\<rparr>)"

definition select_engine :: "store_loop \<Rightarrow> run_label \<times> store_loop" where
  "select_engine l =
     (if sl_engine_closed l then (Quiet, l\<lparr>sl_place := Select_Log\<rparr>)
      else case sl_engine_queue l of
        e # es \<Rightarrow>
          (TakeEngine e,
           l\<lparr>sl_engine_queue := es, sl_store := snd (report_engine e (sl_store l)), sl_place := Select_Cancel\<rparr>)
      | [] \<Rightarrow>
          (Quiet,
           if sl_engine_senders l = 0 then l\<lparr>sl_engine_closed := True, sl_place := Select_Cancel\<rparr>
           else l\<lparr>sl_place := Select_Log\<rparr>))"

definition select_log :: "store_loop \<Rightarrow> run_label \<times> store_loop" where
  \<comment> \<open>when no branch is ready the task sleeps and polls them all again\<close>
  "select_log l =
     (if sl_log_closed l then (Quiet, l\<lparr>sl_place := Select_Cancel\<rparr>)
      else case sl_log_queue l of
        ev # evs \<Rightarrow>
          (TakeLog ev,
           l\<lparr>sl_log_queue := evs, sl_store := snd (report ev (sl_store l)), sl_place := Select_Cancel\<rparr>)
      | [] \<Rightarrow>
          (Quiet,
           if sl_log_senders l = 0 then l\<lparr>sl_log_closed := True, sl_place := Select_Cancel\<rparr>
           else l\<lparr>sl_place := Select_Cancel\<rparr>))"

definition drain_engine :: "bool \<Rightarrow> store_loop \<Rightarrow> run_label \<times> store_loop" where
  "drain_engine made_progress l =
     (if sl_engine_closed l then (Quiet, l\<lparr>sl_place := Drain_Log made_progress\<rparr>)
      else case sl_engine_queue l of
        e # es \<Rightarrow>
          (TakeEngine e,
           l\<lparr>sl_engine_queue := es, sl_store := snd (report_engine e (sl_store l)), sl_place := Drain_Engine True\<rparr>)
      | [] \<Rightarrow>
          (Quiet,
           l\<lparr>sl_engine_closed := (sl_engine_senders l = 0), sl_place := Drain_Log made_progress\<rparr>))"

definition next_pass :: "bool \<Rightarrow> run_place" where
  "next_pass made_progress = (if made_progress then Drain_Engine False else Finished)"

definition drain_log :: "bool \<Rightarrow> store_loop \<Rightarrow> run_label \<times> store_loop" where
  "drain_log made_progress l =
     (if sl_log_closed l then (Quiet, l\<lparr>sl_place := next_pass made_progress\<rparr>)
      else case sl_log_queue l of
        ev # evs \<Rightarrow>
          (TakeLog ev,
           l\<lparr>sl_log_queue := evs, sl_store := snd (report ev (sl_store l)), sl_place := Drain_Log True\<rparr>)
      | [] \<Rightarrow>
          (Quiet, l\<lparr>sl_log_closed := (sl_log_senders l = 0), sl_place := next_pass made_progress\<rparr>))"

definition loop_round :: "store_loop \<Rightarrow> run_label \<times> store_loop" where
  "loop_round l =
     (case sl_place l of
        Select_Cancel \<Rightarrow> select_cancel l
      | Select_Engine \<Rightarrow> select_engine l
      | Select_Log \<Rightarrow> select_log l
      | Drain_Engine p \<Rightarrow> drain_engine p l
      | Drain_Log p \<Rightarrow> drain_log p l
      | Finished \<Rightarrow> (Quiet, l))"

text \<open>
  Between any two rounds other threads may send, clone or drop senders, and cancel. The sender
  that belongs to the store is never dropped while \<^verbatim>\<open>run\<close> owns the store.
\<close>

inductive run_step :: "store_loop \<Rightarrow> run_label \<Rightarrow> store_loop \<Rightarrow> bool" where
  own_round: "sl_place l \<noteq> Finished \<Longrightarrow> loop_round l = (a, l') \<Longrightarrow> run_step l a l'"
| send_engine: "run_step l (SendEngine e) (l\<lparr>sl_engine_queue := sl_engine_queue l @ [e]\<rparr>)"
| send_log: "run_step l (SendLog ev) (l\<lparr>sl_log_queue := sl_log_queue l @ [ev]\<rparr>)"
| cancel: "\<not> sl_cancelled l \<Longrightarrow> run_step l Cancel (l\<lparr>sl_cancelled := True\<rparr>)"
| clone_engine_sender: "run_step l Quiet (l\<lparr>sl_engine_senders := sl_engine_senders l + 1\<rparr>)"
| clone_log_sender: "run_step l Quiet (l\<lparr>sl_log_senders := sl_log_senders l + 1\<rparr>)"
| drop_engine_sender:
    "1 < sl_engine_senders l \<Longrightarrow> run_step l Quiet (l\<lparr>sl_engine_senders := sl_engine_senders l - 1\<rparr>)"
| drop_log_sender:
    "1 < sl_log_senders l \<Longrightarrow> run_step l Quiet (l\<lparr>sl_log_senders := sl_log_senders l - 1\<rparr>)"

end
