(* ===== verification/State_Store_Laws.thy ===== *)
theory State_Store_Laws
  imports State_Store
begin

section \<open>Laws of the observed-state store\<close>

text \<open>
  The store is a family of independent runtime state machines, one for each deployed instance;
  its maps stay well formed under every operation; and the collection loop reports each engine
  event once, in order, also when it is cancelled.
\<close>

subsection \<open>One report, seen from each instance\<close>

definition lookup_instance ::
  "pipeline_key \<Rightarrow> runtime_instance_key \<Rightarrow> observed_state_store \<Rightarrow> pipeline_runtime_status option" where
  "lookup_instance k i st = Option.bind (map_of (os_pipelines st) k) (\<lambda>ps. map_of (ps_instances ps) i)"

definition concerns :: "pipeline_key \<Rightarrow> runtime_instance_key \<Rightarrow> engine_event \<Rightarrow> bool" where
  "concerns k i e \<longleftrightarrow>
     dk_pipeline_group_id (ev_key e) = pk_pipeline_group_id k \<and>
     dk_pipeline_id (ev_key e) = pk_pipeline_id k \<and>
     dk_core_id (ev_key e) = ri_core_id i \<and>
     dk_deployment_generation (ev_key e) = ri_deployment_generation i"

lemma concerns_keys: "concerns k i e \<longleftrightarrow> event_pipeline_key e = k \<and> event_instance_key e = i"
  by (cases k; cases i)
    (auto simp: concerns_def event_pipeline_key_def event_instance_key_def new_pipeline_key_def)

lemma put_pipeline_lookup:
  "map_of (os_pipelines (put_pipeline k ps st)) k' = (if k' = k then Some ps else map_of (os_pipelines st) k')"
  by (simp add: put_pipeline_def update_conv)

lemma lookup_put:
  "lookup_instance k' i (put_pipeline k ps st) =
     (if k' = k then map_of (ps_instances ps) i else lookup_instance k' i st)"
  by (simp add: lookup_instance_def put_pipeline_lookup)

lemma entry_instances:
  "map_of (ps_instances (entry_or_new k st)) i = lookup_instance k i st"
  by (simp add: entry_or_new_def lookup_instance_def new_pipeline_status_def split: option.split)

definition fed :: "engine_event \<Rightarrow> pipeline_runtime_status option \<Rightarrow> pipeline_runtime_status" where
  "fed e r = snd (apply_event e (case r of Some rt \<Rightarrow> rt | None \<Rightarrow> new_runtime_status (ev_time e)))"

lemma upsert_lookup:
  "map_of (ps_instances (snd (upsert_instance e ps))) i =
     (if i = event_instance_key e then Some (fed e (map_of (ps_instances ps) i)) else map_of (ps_instances ps) i)"
  by (auto simp: upsert_instance_def fed_def Let_def set_active_generation_def update_conv split: prod.split)

lemma report_engine_store:
  "snd (report_engine e st) =
     put_pipeline (event_pipeline_key e)
       (snd (upsert_instance e (entry_or_new (event_pipeline_key e) st))) st"
  by (simp add: report_engine_def Let_def split: prod.split)

lemma report_engine_lookup:
  "lookup_instance k i (snd (report_engine e st)) =
     (if concerns k i e then Some (fed e (lookup_instance k i st)) else lookup_instance k i st)"
  by (auto simp: report_engine_store lookup_put upsert_lookup entry_instances concerns_keys)

definition report_all :: "engine_event list \<Rightarrow> observed_state_store \<Rightarrow> observed_state_store" where
  "report_all es st = fold (\<lambda>e st. snd (report_engine e st)) es st"

lemma report_all_simps [simp]:
  "report_all [] st = st"
  "report_all (e # es) st = report_all es (snd (report_engine e st))"
  "report_all (es @ es') st = report_all es' (report_all es st)"
  by (simp_all add: report_all_def)

lemma report_all_lookup:
  "lookup_instance k i (report_all es st) =
     fold (\<lambda>e r. Some (fed e r)) (filter (concerns k i) es) (lookup_instance k i st)"
  by (induction es arbitrary: st) (simp_all add: report_engine_lookup)

lemma fold_fed_Some:
  "fold (\<lambda>e r. Some (fed e r)) es (Some rt) = Some (snd (run_ops apply_event es rt))"
  by (induction es arbitrary: rt) (simp_all add: fed_def split: prod.split)

lemma fold_fed_None:
  "fold (\<lambda>e r. Some (fed e r)) es None =
     (case es of [] \<Rightarrow> None
      | e # _ \<Rightarrow> Some (snd (run_ops apply_event es (new_runtime_status (ev_time e)))))"
proof (cases es)
  case (Cons e es')
  have "fed e None = snd (apply_event e (new_runtime_status (ev_time e)))" by (simp add: fed_def)
  then show ?thesis by (simp add: Cons fold_fed_Some split: prod.split)
qed simp

lemma apply_event_ring:
  "rt_recent_events (snd (apply_event e s)) = ring_push (ObsEngine e) (rt_recent_events s)"
  by (cases rule: apply_event_cases [of s e]) simp_all

lemma run_ring_last:
  assumes "0 < rb_cap (rt_recent_events s)"
    "rb_buf (rt_recent_events s) = last_n (rb_cap (rt_recent_events s)) xs"
  shows "rb_buf (rt_recent_events (snd (run_ops apply_event es s))) =
      last_n (rb_cap (rt_recent_events s)) (xs @ map ObsEngine es)"
  using assms
proof (induction es arbitrary: s xs)
  case Nil
  then show ?case by simp
next
  case (Cons e es)
  obtain r s1 where e: "apply_event e s = (r, s1)" by (cases "apply_event e s")
  have s1: "rt_recent_events s1 = ring_push (ObsEngine e) (rt_recent_events s)"
    using apply_event_ring [of e s] e by simp
  have "rb_buf (rt_recent_events s1) = last_n (rb_cap (rt_recent_events s1)) (xs @ [ObsEngine e])"
    unfolding s1 by (rule ring_push_last [OF Cons.prems])
  from Cons.IH [OF _ this] Cons.prems(1)
  have "rb_buf (rt_recent_events (snd (run_ops apply_event es s1))) =
      last_n (rb_cap (rt_recent_events s)) ((xs @ [ObsEngine e]) @ map ObsEngine es)"
    by (simp add: s1)
  then show ?case using e by (cases "run_ops apply_event es s1") simp
qed

lemma new_runtime_ring [simp]:
  "rt_recent_events (new_runtime_status t) = new_ring_buffer 10"
  by (simp add: new_runtime_status_def recent_events_capacity_def)

lemma new_runtime_reach: "rt_reach (new_runtime_status t)"
proof -
  have "new_runtime_status t = (default_runtime_status t)\<lparr>rt_recent_events := new_ring_buffer recent_events_capacity\<rparr>"
    by (simp add: new_runtime_status_def default_runtime_status_def)
  then show ?thesis using rt_reach.created [of recent_events_capacity t] by simp
qed

subsection \<open>The invariant of the store\<close>

definition status_ok :: "pipeline_status \<Rightarrow> bool" where
  "status_ok ps \<longleftrightarrow> ps_wf ps \<and>
     (\<forall>i rt. map_of (ps_instances ps) i = Some rt \<longrightarrow> rt_reach rt)"

definition store_inv :: "observed_state_store \<Rightarrow> bool" where
  "store_inv st \<longleftrightarrow> distinct (map fst (os_pipelines st)) \<and> distinct (map fst (os_health_policies st)) \<and>
     (\<forall>k ps. map_of (os_pipelines st) k = Some ps \<longrightarrow> status_ok ps)"

lemma store_inv_new: "store_inv new_store"
  by (simp add: store_inv_def new_store_def)

lemma status_ok_new: "status_ok (new_pipeline_status hp)"
  by (simp add: status_ok_def ps_wf_def new_pipeline_status_def)

lemma status_ok_same:
  "status_ok ps \<Longrightarrow> ps_instances ps' = ps_instances ps \<Longrightarrow>
     distinct (map fst (ps_serving_generations ps')) \<Longrightarrow> status_ok ps'"
  by (simp add: status_ok_def ps_wf_def)

lemma status_ok_setters:
  assumes "status_ok ps"
  shows "status_ok (set_active_generation g ps)" "status_ok (set_active_cores cs ps)"
    "status_ok (set_serving_generation c g ps)" "status_ok (clear_serving_generation c ps)"
    "status_ok (set_rollout_summary r ps)" "status_ok (clear_rollout_summary ps)"
  using assms
  by (auto simp: status_ok_def ps_wf_def set_active_generation_def set_active_cores_def
      set_serving_generation_def clear_serving_generation_def set_rollout_summary_def
      clear_rollout_summary_def distinct_update AList.delete_eq intro: distinct_map_filter)

lemma status_ok_compact: "status_ok ps \<Longrightarrow> status_ok (compact_instances_to_selected ps)"
  by (auto simp: status_ok_def compact_wf compact_lookup split: if_splits)

lemma status_ok_upsert:
  assumes "status_ok ps"
  shows "status_ok (snd (upsert_instance e ps))"
proof -
  have "rt_reach (fed e (map_of (ps_instances ps) (event_instance_key e)))"
    using assms new_runtime_reach unfolding fed_def status_ok_def
    by (auto split: option.split intro!: rt_reach.observed [OF _ prod.collapse [symmetric]])
  moreover have "ps_wf (snd (upsert_instance e ps))"
    using assms
    by (auto simp: status_ok_def ps_wf_def upsert_instance_def Let_def set_active_generation_def
        distinct_update split: prod.split)
  ultimately show ?thesis
    using assms by (auto simp: status_ok_def upsert_lookup split: if_splits)
qed

lemma store_inv_put: "store_inv st \<Longrightarrow> status_ok ps \<Longrightarrow> store_inv (put_pipeline k ps st)"
  by (auto simp: store_inv_def put_pipeline_def distinct_update update_conv split: if_splits)

lemma store_inv_entry: "store_inv st \<Longrightarrow> status_ok (entry_or_new k st)"
  by (auto simp: store_inv_def entry_or_new_def status_ok_new split: option.split)

lemma store_inv_existing:
  "store_inv st \<Longrightarrow> (\<And>ps. status_ok ps \<Longrightarrow> status_ok (f ps)) \<Longrightarrow> store_inv (with_existing k f st)"
  by (auto simp: with_existing_def store_inv_def [of st] intro: store_inv_put split: option.split)

lemma store_inv_report: "store_inv st \<Longrightarrow> store_inv (snd (report_engine e st))"
  by (simp add: report_engine_store store_inv_put status_ok_upsert store_inv_entry)

lemma report_store:
  "snd (report ev st) = (case ev of ObsEngine e \<Rightarrow> snd (report_engine e st) | ObsLog _ \<Rightarrow> st)"
  by (simp add: report_def split: observed_event.split prod.split sum.split)

subsection \<open>Histories of store operations\<close>

datatype store_op =
    SRegisterPolicy pipeline_key health_policy
  | SActiveGeneration pipeline_key generation
  | SActiveCores pipeline_key "core_id list"
  | SServing pipeline_key core_id generation
  | SClearServing pipeline_key core_id
  | SRollout pipeline_key pipeline_rollout_summary
  | SClearRollout pipeline_key
  | SRemove pipeline_key
  | SCompact pipeline_key
  | SReport observed_event

fun exec_store :: "store_op \<Rightarrow> observed_state_store \<Rightarrow> (state_error + unit) \<times> observed_state_store" where
  "exec_store (SRegisterPolicy k hp) st = (Inr (), register_pipeline_health_policy k hp st)"
| "exec_store (SActiveGeneration k g) st = (Inr (), set_pipeline_active_generation k g st)"
| "exec_store (SActiveCores k cs) st = (Inr (), set_pipeline_active_cores k cs st)"
| "exec_store (SServing k c g) st = (Inr (), set_pipeline_serving_generation k c g st)"
| "exec_store (SClearServing k c) st = (Inr (), clear_pipeline_serving_generation k c st)"
| "exec_store (SRollout k r) st = (Inr (), set_pipeline_rollout_summary k r st)"
| "exec_store (SClearRollout k) st = (Inr (), clear_pipeline_rollout_summary k st)"
| "exec_store (SRemove k) st = (Inr (), remove_pipeline k st)"
| "exec_store (SCompact k) st = (Inr (), compact_pipeline_instances k st)"
| "exec_store (SReport ev) st = report ev st"

lemma store_inv_remove: "store_inv st \<Longrightarrow> store_inv (remove_pipeline k st)"
  by (auto simp: store_inv_def remove_pipeline_def AList.delete_eq intro: distinct_map_filter)
    (auto simp: AList.delete_eq [symmetric] delete_conv' split: if_splits)

lemma store_inv_step: "store_inv st \<Longrightarrow> store_inv (snd (exec_store c st))"
proof (cases c)
  case (SRegisterPolicy k hp)
  then show "store_inv st \<Longrightarrow> ?thesis"
    by (simp add: store_inv_def register_pipeline_health_policy_def distinct_update)
next
  case (SReport ev)
  then show "store_inv st \<Longrightarrow> ?thesis"
    by (cases ev) (simp_all add: report_store store_inv_report)
qed (simp_all add: set_pipeline_active_generation_def set_pipeline_active_cores_def
    set_pipeline_serving_generation_def clear_pipeline_serving_generation_def
    set_pipeline_rollout_summary_def clear_pipeline_rollout_summary_def
    compact_pipeline_instances_def store_inv_put store_inv_entry store_inv_existing
    store_inv_remove status_ok_setters status_ok_compact)

interpretation store: step_system exec_store store_inv
  by unfold_locales (rule store_inv_step)

subsection \<open>The collection loop\<close>

definition report_seq :: "observed_event list \<Rightarrow> observed_state_store \<Rightarrow> observed_state_store" where
  "report_seq evs st = fold (\<lambda>ev st. snd (report ev st)) evs st"

lemma report_seq_simps [simp]:
  "report_seq [] st = st"
  "report_seq (evs @ [ev]) st = snd (report ev (report_seq evs st))"
  by (simp_all add: report_seq_def)

inductive run_path :: "store_loop \<Rightarrow> run_label list \<Rightarrow> store_loop \<Rightarrow> bool" where
  run_nil: "run_path l [] l"
| run_snoc: "run_path l tr l1 \<Longrightarrow> run_step l1 a l2 \<Longrightarrow> run_path l (tr @ [a]) l2"

text \<open>What a history sends on each channel, and what the loop takes from them, in order.\<close>

definition sent_engine :: "run_label list \<Rightarrow> engine_event list" where
  "sent_engine tr = List.map_filter (\<lambda>a. case a of SendEngine e \<Rightarrow> Some e | _ \<Rightarrow> None) tr"

definition sent_log :: "run_label list \<Rightarrow> observed_event list" where
  "sent_log tr = List.map_filter (\<lambda>a. case a of SendLog ev \<Rightarrow> Some ev | _ \<Rightarrow> None) tr"

definition taken_engine :: "run_label list \<Rightarrow> engine_event list" where
  "taken_engine tr = List.map_filter (\<lambda>a. case a of TakeEngine e \<Rightarrow> Some e | _ \<Rightarrow> None) tr"

definition taken_log :: "run_label list \<Rightarrow> observed_event list" where
  "taken_log tr = List.map_filter (\<lambda>a. case a of TakeLog ev \<Rightarrow> Some ev | _ \<Rightarrow> None) tr"

definition taken :: "run_label list \<Rightarrow> observed_event list" where
  "taken tr = List.map_filter
     (\<lambda>a. case a of TakeEngine e \<Rightarrow> Some (ObsEngine e) | TakeLog ev \<Rightarrow> Some ev | _ \<Rightarrow> None) tr"

lemmas trace_defs = sent_engine_def sent_log_def taken_engine_def taken_log_def taken_def

lemma trace_append [simp]:
  "sent_engine (tr @ tr') = sent_engine tr @ sent_engine tr'"
  "sent_log (tr @ tr') = sent_log tr @ sent_log tr'"
  "taken_engine (tr @ tr') = taken_engine tr @ taken_engine tr'"
  "taken_log (tr @ tr') = taken_log tr @ taken_log tr'"
  "taken (tr @ tr') = taken tr @ taken tr'"
  by (simp_all add: trace_defs List.map_filter_def)

lemma trace_cons [simp]:
  "sent_engine [] = []" "sent_log [] = []" "taken_engine [] = []" "taken_log [] = []" "taken [] = []"
  "sent_engine (a # tr) = (case a of SendEngine e \<Rightarrow> [e] | _ \<Rightarrow> []) @ sent_engine tr"
  "sent_log (a # tr) = (case a of SendLog ev \<Rightarrow> [ev] | _ \<Rightarrow> []) @ sent_log tr"
  "taken_engine (a # tr) = (case a of TakeEngine e \<Rightarrow> [e] | _ \<Rightarrow> []) @ taken_engine tr"
  "taken_log (a # tr) = (case a of TakeLog ev \<Rightarrow> [ev] | _ \<Rightarrow> []) @ taken_log tr"
  "taken (a # tr) = (case a of TakeEngine e \<Rightarrow> [ObsEngine e] | TakeLog ev \<Rightarrow> [ev] | _ \<Rightarrow> []) @ taken tr"
  by (simp_all add: trace_defs List.map_filter_def split: run_label.split)

lemma report_ObsEngine: "snd (report (ObsEngine e) st) = snd (report_engine e st)"
  by (simp add: report_def split: prod.split sum.split)

lemmas round_defs = loop_round_def select_cancel_def select_engine_def select_log_def
  drain_engine_def drain_log_def next_pass_def

fun draining :: "run_place \<Rightarrow> bool" where
  "draining (Drain_Engine p) = True"
| "draining (Drain_Log p) = True"
| "draining p = False"

text \<open>
  The invariant of a loop that started on empty channels: the store is what was taken, nothing
  is lost between the channels and the store, the channels stay connected, and the loop drains
  or ends only after a cancellation.
\<close>

definition loop_inv :: "observed_state_store \<Rightarrow> run_label list \<Rightarrow> store_loop \<Rightarrow> bool" where
  "loop_inv st tr l \<longleftrightarrow>
     sl_store l = report_seq (taken tr) st \<and>
     sent_engine tr = taken_engine tr @ sl_engine_queue l \<and>
     sent_log tr = taken_log tr @ sl_log_queue l \<and>
     0 < sl_engine_senders l \<and> 0 < sl_log_senders l \<and> \<not> sl_engine_closed l \<and> \<not> sl_log_closed l \<and>
     (sl_cancelled l \<longleftrightarrow> Cancel \<in> set tr) \<and>
     (draining (sl_place l) \<or> sl_place l = Finished \<longrightarrow> sl_cancelled l)"

lemma loop_inv_start: "loop_inv st [] (start_loop st)"
  by (simp add: loop_inv_def start_loop_def)

lemma loop_round_inv:
  assumes "loop_inv st tr l" "loop_round l = (a, l')" "sl_place l \<noteq> Finished"
  shows "loop_inv st (tr @ [a]) l'"
proof (cases "sl_place l")
  case (Drain_Engine p)
  then show ?thesis using assms
    by (auto simp: loop_inv_def round_defs report_ObsEngine split: list.splits)
next
  case (Drain_Log p)
  then show ?thesis using assms
    by (auto simp: loop_inv_def round_defs split: list.splits)
qed (use assms in \<open>auto simp: loop_inv_def round_defs report_ObsEngine split: list.splits if_splits\<close>)

lemma run_step_inv: "run_step l a l' \<Longrightarrow> loop_inv st tr l \<Longrightarrow> loop_inv st (tr @ [a]) l'"
proof (induction rule: run_step.induct)
  case (own_round l a l')
  then show ?case by (intro loop_round_inv)
qed (auto simp: loop_inv_def)

lemma run_path_inv: "run_path (start_loop st) tr l \<Longrightarrow> loop_inv st tr l"
proof (induction "start_loop st" tr l rule: run_path.induct)
  case run_nil
  then show ?case by (rule loop_inv_start)
next
  case (run_snoc tr l1 a l2)
  then show ?case using run_step_inv by blast
qed

lemma path_prefix:
  "run_path l0 (tr1 @ tr2) l \<Longrightarrow> \<exists>l1. run_path l0 tr1 l1"
proof (induction tr2 arbitrary: l rule: rev_induct)
  case Nil
  then show ?case by auto
next
  case (snoc a tr2)
  then obtain l1 where "run_path l0 (tr1 @ tr2) l1"
    by (auto elim: run_path.cases)
  then show ?case by (rule snoc.IH)
qed

text \<open>
  Priority: while the loop is about to look at the log channel, there was a moment since the
  last event it took at which no engine event was queued.
\<close>

definition caught_up :: "run_label list \<Rightarrow> bool" where
  "caught_up tr \<longleftrightarrow> (\<exists>tr1 tr2. tr = tr1 @ tr2 \<and> sent_engine tr1 = taken_engine tr1 \<and> taken tr2 = [])"

lemma caught_up_now: "sent_engine tr = taken_engine tr \<Longrightarrow> caught_up (tr @ [Quiet])"
  unfolding caught_up_def by (intro exI [of _ tr] exI [of _ "[Quiet]"]) simp

lemma caught_up_later: "caught_up tr \<Longrightarrow> taken [a] = [] \<Longrightarrow> caught_up (tr @ [a])"
  unfolding caught_up_def by (metis append_assoc append_Nil2 trace_append(5))

lemma select_log_caught_up:
  assumes "run_path (start_loop st) tr l" "sl_place l = Select_Log"
  shows "caught_up tr"
  using assms
proof (induction "start_loop st" tr l rule: run_path.induct)
  case run_nil
  then show ?case by (simp add: start_loop_def)
next
  case (run_snoc tr l1 a l2)
  note inv = run_path_inv [OF run_snoc.hyps(1)]
  show ?case using run_snoc.hyps(3)
  proof (cases rule: run_step.cases)
    case own_round
    with run_snoc.prems inv have "a = Quiet" "sent_engine tr = taken_engine tr"
      by (auto simp: round_defs loop_inv_def split: run_place.splits list.splits if_splits)
    then show ?thesis by (simp add: caught_up_now)
  qed (use run_snoc in \<open>simp_all add: caught_up_later\<close>)
qed

lemma take_log_place:
  "run_step l (TakeLog ev) l' \<Longrightarrow> sl_place l = Select_Log \<or> draining (sl_place l)"
  by (erule run_step.cases) (auto simp: round_defs split: run_place.splits list.splits if_splits)

lemma log_waits_for_engine:
  assumes path: "run_path (start_loop st) (tr1 @ TakeLog ev # tr2) l" and alive: "Cancel \<notin> set tr1"
  shows "caught_up tr1"
proof -
  obtain l2 where "run_path (start_loop st) (tr1 @ [TakeLog ev]) l2"
    using path_prefix [of _ "tr1 @ [TakeLog ev]" tr2 l] path by auto
  then obtain l1 where l1: "run_path (start_loop st) tr1 l1" and "run_step l1 (TakeLog ev) l2"
    by (auto elim: run_path.cases)
  then have "sl_place l1 = Select_Log \<or> draining (sl_place l1)" by (intro take_log_place)
  moreover have "\<not> draining (sl_place l1)" using run_path_inv [OF l1] alive by (auto simp: loop_inv_def)
  ultimately show ?thesis using select_log_caught_up [OF l1] by simp
qed

text \<open>
  What was sent before the cancellation has been taken when the loop ends: the engine channel
  has been seen empty when the log channel is drained, and the log channel at the end.
\<close>

definition takes_over :: "'a list \<Rightarrow> 'a list \<Rightarrow> bool" where
  "takes_over xs ys \<longleftrightarrow> (\<exists>zs. ys = xs @ zs)"

lemma takes_overI: "xs @ zs = ys \<Longrightarrow> takes_over xs ys"
  by (auto simp: takes_over_def)

lemma takes_over_more: "takes_over xs ys \<Longrightarrow> takes_over xs (ys @ zs)"
  by (auto simp: takes_over_def)

definition drain_done :: "run_label list \<Rightarrow> run_label list \<Rightarrow> run_place \<Rightarrow> bool" where
  "drain_done tr1 tr p \<longleftrightarrow>
     (p = Finished \<or> (\<exists>b. p = Drain_Log b) \<longrightarrow> takes_over (sent_engine tr1) (taken_engine tr)) \<and>
     (p = Finished \<longrightarrow> takes_over (sent_log tr1) (taken_log tr))"

lemma drain_done_step:
  assumes inv: "loop_inv st (tr1 @ Cancel # tr2) l" and step: "run_step l a l'"
    and before: "drain_done tr1 (tr1 @ Cancel # tr2) (sl_place l)"
  shows "drain_done tr1 (tr1 @ Cancel # tr2 @ [a]) (sl_place l')"
proof -
  let ?tr = "tr1 @ Cancel # tr2"
  have more: "drain_done tr1 ?tr p \<Longrightarrow> drain_done tr1 (tr1 @ Cancel # tr2 @ [a]) p" for p
    using takes_over_more [of "sent_engine tr1" "taken_engine ?tr" "taken_engine [a]"]
      takes_over_more [of "sent_log tr1" "taken_log ?tr" "taken_log [a]"]
    by (auto simp: drain_done_def)
  have all: "sl_engine_queue l = [] \<Longrightarrow> takes_over (sent_engine tr1) (taken_engine ?tr)"
    "sl_log_queue l = [] \<Longrightarrow> takes_over (sent_log tr1) (taken_log ?tr)"
    using inv by (auto simp: loop_inv_def intro: takes_overI)
  have "drain_done tr1 ?tr (sl_place l')" using step
  proof (cases rule: run_step.cases)
    case own_round
    then show ?thesis using inv before all
      by (auto simp: round_defs loop_inv_def drain_done_def split: run_place.splits list.splits if_splits)
  qed (use before in simp_all)
  then show ?thesis by (rule more)
qed

lemma cancelled_drain_done:
  assumes "run_path (start_loop st) (tr1 @ Cancel # tr2) l"
  shows "drain_done tr1 (tr1 @ Cancel # tr2) (sl_place l)"
  using assms
proof (induction tr2 arbitrary: l rule: rev_induct)
  case Nil
  then obtain l1 where l1: "run_path (start_loop st) tr1 l1" "run_step l1 Cancel l"
    by (auto elim: run_path.cases)
  from l1(2) have "\<not> sl_cancelled l1 \<and> sl_place l = sl_place l1"
    by (cases rule: run_step.cases)
      (auto simp: round_defs split: run_place.splits list.splits if_splits)
  with run_path_inv [OF l1(1)] show ?case by (auto simp: drain_done_def loop_inv_def)
next
  case (snoc a tr2)
  then obtain l1 where l1: "run_path (start_loop st) (tr1 @ Cancel # tr2) l1" "run_step l1 a l"
    by (auto elim: run_path.cases)
  from drain_done_step [OF run_path_inv [OF l1(1)] l1(2) snoc.IH [OF l1(1)]] show ?case by simp
qed

text \<open>After a cancellation every round of the loop brings its end nearer.\<close>

primrec own_rounds :: "nat \<Rightarrow> store_loop \<Rightarrow> store_loop" where
  "own_rounds 0 l = l"
| "own_rounds (Suc n) l = own_rounds n (snd (loop_round l))"

fun place_rank :: "run_place \<Rightarrow> nat" where
  "place_rank Select_Engine = 7"
| "place_rank Select_Log = 6"
| "place_rank Select_Cancel = 5"
| "place_rank (Drain_Engine p) = (if p then 4 else 2)"
| "place_rank (Drain_Log p) = (if p then 3 else 1)"
| "place_rank Finished = 0"

definition rounds_left :: "store_loop \<Rightarrow> nat" where
  "rounds_left l = place_rank (sl_place l) + 3 * (length (sl_engine_queue l) + length (sl_log_queue l))"

lemma round_left:
  assumes "sl_cancelled l" "sl_place l \<noteq> Finished"
  shows "rounds_left (snd (loop_round l)) < rounds_left l \<and> sl_cancelled (snd (loop_round l))"
  using assms
  by (cases "sl_place l") (auto simp: round_defs rounds_left_def split: list.split)

lemma own_rounds_Finished: "sl_place l = Finished \<Longrightarrow> sl_place (own_rounds n l) = Finished"
  by (induction n arbitrary: l) (simp_all add: loop_round_def)

lemma own_rounds_end: "sl_cancelled l \<Longrightarrow> rounds_left l \<le> n \<Longrightarrow> sl_place (own_rounds n l) = Finished"
proof (induction n arbitrary: l)
  case 0
  then show ?case by (cases "sl_place l") (auto simp: rounds_left_def split: if_splits)
next
  case (Suc n)
  show ?case
  proof (cases "sl_place l = Finished")
    case True
    then show ?thesis by (rule own_rounds_Finished)
  next
    case False
    from round_left [OF Suc.prems(1) False] Suc.prems(2)
    have "sl_cancelled (snd (loop_round l))" "rounds_left (snd (loop_round l)) \<le> n" by simp_all
    from Suc.IH [OF this] show ?thesis by simp
  qed
qed

lemma place_rank_max: "place_rank p \<le> 7"
  by (cases p) simp_all

subsection \<open>Properties\<close>

text \<open>
  C11. The store keeps each deployed instance apart: after any sequence of reported engine events,
  the status of an instance is the status that its own events, in order, produce from a fresh
  runtime, events of other instances and pipelines have no effect on it, and its recent events
  are the last ten of them.
\<close>

theorem store_projects_events:
  "let mine = filter (concerns k i) es in
   lookup_instance k i (report_all es new_store) =
     (case mine of [] \<Rightarrow> None
      | e # _ \<Rightarrow> Some (snd (run_ops apply_event mine (new_runtime_status (ev_time e))))) \<and>
   (\<forall>rt. lookup_instance k i (report_all es new_store) = Some rt \<longrightarrow>
      rb_buf (rt_recent_events rt) = last_n 10 (map ObsEngine mine))"
proof -
  let ?mine = "filter (concerns k i) es"
  have l: "lookup_instance k i (report_all es new_store) =
     (case ?mine of [] \<Rightarrow> None
      | e # _ \<Rightarrow> Some (snd (run_ops apply_event ?mine (new_runtime_status (ev_time e)))))"
    unfolding report_all_lookup fold_fed_None [symmetric]
    by (simp add: lookup_instance_def new_store_def)
  moreover have "rb_buf (rt_recent_events (snd (run_ops apply_event ?mine (new_runtime_status t)))) =
      last_n 10 (map ObsEngine ?mine)" for t
    using run_ring_last [of "new_runtime_status t" "[]" ?mine]
    by (simp add: new_ring_buffer_def last_n_def)
  ultimately show ?thesis by (auto simp: Let_def split: list.splits)
qed

theorem store_projects_events_witness:
  "lookup_instance (new_pipeline_key ''g'' ''p'') (instance_key 0 0)
     (report_all [admitted 1 sample_key None,
        ready 2 (sample_key\<lparr>dk_core_id := 1\<rparr>) None] new_store) =
   Some (snd (apply_event (admitted 1 sample_key None) (new_runtime_status 1)))"
proof -
  let ?k = "new_pipeline_key ''g'' ''p''" and ?i = "instance_key 0 0"
  let ?es = "[admitted 1 sample_key None, ready 2 (sample_key\<lparr>dk_core_id := 1\<rparr>) None]"
  have "filter (concerns ?k ?i) ?es = [admitted 1 sample_key None]"
    by (simp add: concerns_def new_pipeline_key_def event_constructors sample_key_def)
  then show ?thesis
    using store_projects_events [of ?k ?i ?es, unfolded Let_def, THEN conjunct1]
    by (simp add: admitted_def split: prod.split)
qed

text \<open>
  Every store that a history of operations can build keeps one entry per key in its maps, and
  the runtimes in it are statuses that observed events can produce.
\<close>

lemma store_well_formed:
  assumes "run_ops exec_store ops new_store = (rs, st)"
  shows "distinct (map fst (os_pipelines st)) \<and> distinct (map fst (os_health_policies st)) \<and>
    (\<forall>k ps. map_of (os_pipelines st) k = Some ps \<longrightarrow>
       ps_wf ps \<and> (\<forall>i rt. map_of (ps_instances ps) i = Some rt \<longrightarrow> rt_reach rt \<and> rt_inv rt))"
  using store.run_inv [OF store_inv_new assms] rt_reach_inv
  by (auto simp: store_inv_def status_ok_def)

text \<open>
  C28. The collection loop reports every event exactly once and in order: along any history of
  sends, cancellations and rounds of the loop, the store is the result of reporting the events
  taken so far, one after the other, to the initial store; the events sent on each channel are
  those taken from it followed by those still queued; and until it is cancelled, the loop takes
  a log event only if, since the event it took before, there was a moment with no engine event
  in the channel.
\<close>

theorem store_loop_lossless:
  assumes "run_path (start_loop st) tr l"
  shows "sl_store l = report_seq (taken tr) st \<and>
    sent_engine tr = taken_engine tr @ sl_engine_queue l \<and>
    sent_log tr = taken_log tr @ sl_log_queue l \<and>
    (\<forall>tr1 ev tr2. tr = tr1 @ TakeLog ev # tr2 \<and> Cancel \<notin> set tr1 \<longrightarrow>
       (\<exists>tr0 tr'. tr1 = tr0 @ tr' \<and> sent_engine tr0 = taken_engine tr0 \<and> taken tr' = []))"
proof (intro conjI allI impI)
  note inv = run_path_inv [OF assms]
  show "sl_store l = report_seq (taken tr) st" "sent_engine tr = taken_engine tr @ sl_engine_queue l"
    "sent_log tr = taken_log tr @ sl_log_queue l"
    using inv by (simp_all add: loop_inv_def)
  fix tr1 ev tr2
  assume "tr = tr1 @ TakeLog ev # tr2 \<and> Cancel \<notin> set tr1"
  with assms have "caught_up tr1" by (intro log_waits_for_engine [of st tr1 ev tr2 l]) simp_all
  then show "\<exists>tr0 tr'. tr1 = tr0 @ tr' \<and> sent_engine tr0 = taken_engine tr0 \<and> taken tr' = []"
    unfolding caught_up_def .
qed

text \<open>A run in which an event is sent, taken and reported, a second one is sent, and the loop cancelled.\<close>

abbreviation first_event :: engine_event where
  "first_event \<equiv> admitted 1 sample_key None"

abbreviation second_event :: engine_event where
  "second_event \<equiv> ready 2 sample_key None"

lemma own_step:
  "run_path l0 tr l \<Longrightarrow> sl_place l \<noteq> Finished \<Longrightarrow> fst (loop_round l) = a \<Longrightarrow> run_path l0 (tr @ [a]) (snd (loop_round l))"
  by (rule run_snoc, assumption, rule own_round) auto

definition loop_sent :: store_loop where
  "loop_sent = (start_loop new_store)\<lparr>sl_engine_queue := [first_event], sl_place := Select_Engine\<rparr>"

lemma loop_sent_path: "run_path (start_loop new_store) [SendEngine first_event, Quiet] loop_sent"
proof -
  have "run_path (start_loop new_store) ([] @ [SendEngine first_event])
      ((start_loop new_store)\<lparr>sl_engine_queue := [first_event]\<rparr>)"
    using run_snoc [OF run_nil send_engine, of "start_loop new_store" first_event]
    by (simp add: start_loop_def)
  from own_step [OF this, of Quiet] show ?thesis
    by (simp add: start_loop_def loop_sent_def round_defs)
qed

definition loop_cancelled :: store_loop where
  "loop_cancelled = (start_loop (snd (report_engine first_event new_store)))
     \<lparr>sl_engine_queue := [second_event], sl_cancelled := True\<rparr>"

definition loop_trace :: "run_label list" where
  "loop_trace = [SendEngine first_event, Quiet, TakeEngine first_event, SendEngine second_event, Cancel]"

lemma loop_cancelled_path: "run_path (start_loop new_store) loop_trace loop_cancelled"
proof -
  let ?l = "start_loop (snd (report_engine first_event new_store))"
  let ?tr = "[SendEngine first_event, Quiet, TakeEngine first_event]"
  have 1: "run_path (start_loop new_store) ?tr ?l"
    using own_step [OF loop_sent_path, of "TakeEngine first_event"]
    by (simp add: loop_sent_def start_loop_def round_defs)
  have 2: "run_path (start_loop new_store) (?tr @ [SendEngine second_event]) (?l\<lparr>sl_engine_queue := [second_event]\<rparr>)"
    using run_snoc [OF 1 send_engine, of second_event] by (simp add: start_loop_def)
  have "run_step (?l\<lparr>sl_engine_queue := [second_event]\<rparr>) Cancel loop_cancelled"
    using cancel [of "?l\<lparr>sl_engine_queue := [second_event]\<rparr>"] by (simp add: start_loop_def loop_cancelled_def)
  from run_snoc [OF 2 this] show ?thesis by (simp add: loop_trace_def)
qed

theorem store_loop_lossless_witness:
  "sl_store loop_cancelled = report_seq [ObsEngine first_event] new_store \<and>
   sent_engine loop_trace = taken_engine loop_trace @ [second_event]"
  using store_loop_lossless [OF loop_cancelled_path]
  by (simp add: loop_trace_def loop_cancelled_def start_loop_def)

text \<open>
  C29. The collection loop ends exactly by cancellation and leaves nothing behind: it never ends
  by itself, since the store it runs on keeps both channels connected; when it has ended, every
  event that was sent before the cancellation has been taken, from both channels; and once it
  is cancelled it ends after at most seven rounds and three more for each queued event.
\<close>

theorem store_loop_stops:
  assumes "run_path (start_loop st) tr l"
  shows "(sl_place l = Finished \<longrightarrow> Cancel \<in> set tr) \<and>
    (\<forall>tr1 tr2. sl_place l = Finished \<and> tr = tr1 @ Cancel # tr2 \<longrightarrow>
       (\<exists>es evs. taken_engine tr = sent_engine tr1 @ es \<and> taken_log tr = sent_log tr1 @ evs)) \<and>
    (Cancel \<in> set tr \<and> 7 + 3 * (length (sl_engine_queue l) + length (sl_log_queue l)) \<le> n \<longrightarrow>
       sl_place (own_rounds n l) = Finished)"
proof (intro conjI allI impI)
  note inv = run_path_inv [OF assms]
  show "Cancel \<in> set tr" if "sl_place l = Finished" using inv that unfolding loop_inv_def by blast
  show "\<exists>es evs. taken_engine tr = sent_engine tr1 @ es \<and> taken_log tr = sent_log tr1 @ evs"
    if "sl_place l = Finished \<and> tr = tr1 @ Cancel # tr2" for tr1 tr2
    using cancelled_drain_done [of st tr1 tr2 l] assms that by (auto simp: drain_done_def takes_over_def)
  show "sl_place (own_rounds n l) = Finished"
    if "Cancel \<in> set tr \<and> 7 + 3 * (length (sl_engine_queue l) + length (sl_log_queue l)) \<le> n"
    using own_rounds_end [of l n] inv that place_rank_max [of "sl_place l"]
    by (simp add: loop_inv_def rounds_left_def)
qed

lemma own_rounds_path: "run_path l0 tr l \<Longrightarrow> \<exists>tr'. run_path l0 (tr @ tr') (own_rounds n l)"
proof (induction n arbitrary: tr l)
  case 0
  then show ?case by (auto intro: exI [of _ "[]"])
next
  case (Suc n)
  show ?case
  proof (cases "sl_place l = Finished")
    case True
    then show ?thesis using Suc.IH [OF Suc.prems] by (simp add: loop_round_def)
  next
    case False
    from Suc.IH [OF own_step [OF Suc.prems False refl]] show ?thesis by auto
  qed
qed

theorem store_loop_stops_witness:
  "\<exists>tr es. run_path (start_loop new_store) (loop_trace @ tr) (own_rounds 10 loop_cancelled) \<and>
     sl_place (own_rounds 10 loop_cancelled) = Finished \<and>
     taken_engine (loop_trace @ tr) = [first_event, second_event] @ es"
proof -
  have fin: "sl_place (own_rounds 10 loop_cancelled) = Finished"
    using store_loop_stops [OF loop_cancelled_path, of 10]
    by (simp add: loop_trace_def loop_cancelled_def start_loop_def)
  obtain tr where tr: "run_path (start_loop new_store) (loop_trace @ tr) (own_rounds 10 loop_cancelled)"
    using own_rounds_path [OF loop_cancelled_path] by blast
  let ?before = "[SendEngine first_event, Quiet, TakeEngine first_event, SendEngine second_event]"
  have "loop_trace @ tr = ?before @ Cancel # tr" by (simp add: loop_trace_def)
  then have "\<exists>es evs. taken_engine (loop_trace @ tr) = sent_engine ?before @ es \<and>
      taken_log (loop_trace @ tr) = sent_log ?before @ evs"
    using store_loop_stops [OF tr] fin by blast
  then obtain es where "taken_engine (loop_trace @ tr) = sent_engine ?before @ es" by blast
  then have "taken_engine (loop_trace @ tr) = [first_event, second_event] @ es"
    by (simp only: trace_cons run_label.case append_Nil append_Cons)
  with tr fin show ?thesis by blast
qed

end
