(* ===== verification/Byte_Codec.thy ===== *)
theory Byte_Codec
  imports Prelude
begin

section \<open>Little-endian bytes and bitmaps of machine words\<close>

text \<open>
  The integer conversions and the word vectors that the storage formats use:
  \<^verbatim>\<open>to_le_bytes\<close> and \<^verbatim>\<open>from_le_bytes\<close> for any width, exact reads from a cursor
  (\<^verbatim>\<open>Read::read_exact\<close> on \<^verbatim>\<open>io::Cursor\<close>), \<^verbatim>\<open>count_ones\<close>, \<^verbatim>\<open>trailing_zeros\<close>, and a bitmap held
  in a \<^verbatim>\<open>Vec<u64>\<close>. The round trips are proved bit by bit; the set of the bits of a bitmap
  is its abstraction, and setting one bit inserts one element.
\<close>

unbundle bit_operations_syntax

type_synonym byte = "8 word"
type_synonym bytes = "8 word list"

named_theorems codec_simps \<open>decoding of what was just encoded\<close>

subsection \<open>Little-endian integers\<close>

primrec to_le_bytes :: "nat \<Rightarrow> 'a::len word \<Rightarrow> bytes" where
  "to_le_bytes 0 w = []"
| "to_le_bytes (Suc n) w = ucast w # to_le_bytes n (drop_bit 8 w)"

primrec from_le_bytes :: "bytes \<Rightarrow> 'a::len word" where
  "from_le_bytes [] = 0"
| "from_le_bytes (b # bs) = ucast b OR push_bit 8 (from_le_bytes bs)"

lemma length_to_le_bytes [simp]: "length (to_le_bytes n w) = n"
  by (induction n arbitrary: w) simp_all

lemma from_le_bytes_to_le_bytes: "from_le_bytes (to_le_bytes n w) = take_bit (8 * n) w"
proof (induction n arbitrary: w)
  case (Suc n)
  have step: "ucast (ucast w :: byte) OR push_bit 8 (take_bit (8 * n) (drop_bit 8 w)) = take_bit (8 + 8 * n) w"
    by (rule bit_word_eqI) (auto simp: bit_simps)
  show ?case using Suc.IH [of "drop_bit 8 w"] step by simp
qed simp

lemma take_bit_full_word: "LENGTH('a) \<le> n \<Longrightarrow> take_bit n (w :: 'a::len word) = w"
  by (rule bit_word_eqI) (auto simp: bit_simps)

lemma le_roundtrip [codec_simps]:
  "from_le_bytes (to_le_bytes 2 (u :: 16 word)) = u"
  "from_le_bytes (to_le_bytes 4 (v :: 32 word)) = v"
  "from_le_bytes (to_le_bytes 8 (w :: 64 word)) = w"
  by (simp_all add: from_le_bytes_to_le_bytes take_bit_full_word)

subsection \<open>Reading from a cursor\<close>

definition read_exact :: "nat \<Rightarrow> bytes \<Rightarrow> (bytes \<times> bytes) option" where
  \<comment> \<open>the bytes read and the rest; \<open>None\<close> is \<^verbatim>\<open>ErrorKind::UnexpectedEof\<close>\<close>
  "read_exact n bs = (if n \<le> length bs then Some (take n bs, drop n bs) else None)"

lemma read_exact_append [codec_simps]: "length xs = n \<Longrightarrow> read_exact n (xs @ ys) = Some (xs, ys)"
  by (simp add: read_exact_def)

definition slice_range :: "nat \<Rightarrow> nat \<Rightarrow> 'a list \<Rightarrow> 'a list" where
  \<comment> \<open>\<^verbatim>\<open>&data[a..b]\<close> for \<open>a \<le> b \<le> length data\<close>\<close>
  "slice_range a b xs = take (b - a) (drop a xs)"

lemma slice_range_left: "b \<le> length xs \<Longrightarrow> slice_range a b (xs @ ys) = slice_range a b xs"
  by (simp add: slice_range_def)

lemma slice_range_right: "length xs \<le> a \<Longrightarrow> slice_range a b (xs @ ys) = slice_range (a - length xs) (b - length xs) ys"
  by (simp add: slice_range_def)

lemma slice_range_whole: "slice_range 0 (length xs) xs = xs"
  by (simp add: slice_range_def)

subsection \<open>Counting and finding bits\<close>

definition count_ones :: "'a::len word \<Rightarrow> nat" where
  "count_ones w = length (filter (bit w) [0..<LENGTH('a)])"

definition trailing_zeros :: "'a::len word \<Rightarrow> nat" where
  "trailing_zeros w = (case find (bit w) [0..<LENGTH('a)] of None \<Rightarrow> LENGTH('a) | Some i \<Rightarrow> i)"

lemma count_ones_card: "count_ones (w :: 'a::len word) = card {i. bit w i}"
proof -
  have "{i. bit w i} = set (filter (bit w) [0..<LENGTH('a)])"
    using bit_imp_le_length [of w] by auto
  then show ?thesis unfolding count_ones_def by (simp add: distinct_card del: set_filter)
qed

lemma trailing_zeros_first:
  assumes "w \<noteq> (0 :: 'a::len word)"
  shows "bit w (trailing_zeros w)" "trailing_zeros w < LENGTH('a)" "\<And>j. j < trailing_zeros w \<Longrightarrow> \<not> bit w j"
proof -
  obtain k where k: "bit w k" using assms bit_word_eqI [of w 0] by auto
  then have kl: "k < LENGTH('a)" by (rule bit_imp_le_length)
  then obtain i where i: "find (bit w) [0..<LENGTH('a)] = Some i"
    using k find_None_iff [of "bit w" "[0..<LENGTH('a)]"] by (cases "find (bit w) [0..<LENGTH('a)]") auto
  then have t: "trailing_zeros w = i" by (simp add: trailing_zeros_def)
  from i obtain p where p: "p < LENGTH('a)" "bit w ([0..<LENGTH('a)] ! p)" "i = [0..<LENGTH('a)] ! p"
    "\<forall>j<p. \<not> bit w ([0..<LENGTH('a)] ! j)" by (auto simp: find_Some_iff)
  then show "bit w (trailing_zeros w)" "trailing_zeros w < LENGTH('a)" "\<And>j. j < trailing_zeros w \<Longrightarrow> \<not> bit w j"
    by (simp_all add: t)
qed

subsection \<open>Bitmaps\<close>

definition bits_of :: "64 word list \<Rightarrow> nat set" where
  "bits_of bm = {i. i < 64 * length bm \<and> bit (bm ! (i div 64)) (i mod 64)}"

lemma bits_of_iff: "i < 64 * length bm \<Longrightarrow> i \<in> bits_of bm \<longleftrightarrow> bit (bm ! (i div 64)) (i mod 64)"
  by (simp add: bits_of_def)

lemma bits_of_bound: "i \<in> bits_of bm \<Longrightarrow> i < 64 * length bm"
  by (simp add: bits_of_def)

lemma bits_of_zeros [simp]: "bits_of (replicate n 0) = {}"
  by (auto simp: bits_of_def less_mult_imp_div_less mult.commute)

lemma bits_of_set_bit:
  assumes i: "i div 64 < length bm"
  shows "bits_of (bm[i div 64 := bm ! (i div 64) OR push_bit (i mod 64) 1]) = insert i (bits_of bm)"
proof (rule set_eqI)
  fix j
  have b: "bit (bm ! (i div 64) OR push_bit (i mod 64) (1 :: 64 word)) m \<longleftrightarrow>
      bit (bm ! (i div 64)) m \<or> m = i mod 64" for m
    by (auto simp: bit_simps)
  have ij: "i div 64 = j div 64 \<Longrightarrow> i mod 64 = j mod 64 \<Longrightarrow> i = j"
    by (metis div_mod_decomp)
  have "i < 64 * length bm" using i by (simp add: div_less_iff_less_mult mult.commute)
  then show "j \<in> bits_of (bm[i div 64 := bm ! (i div 64) OR push_bit (i mod 64) 1]) \<longleftrightarrow> j \<in> insert i (bits_of bm)"
    using i ij b by (auto simp: bits_of_def nth_list_update)
qed

lemma word_all_ones: "(w :: 64 word) = - 1 \<longleftrightarrow> (\<forall>m<64. bit w m)"
proof
  assume "\<forall>m<64. bit w m"
  then show "w = - 1" by (intro bit_word_eqI) auto
qed simp

lemma and_mask_nonzero: "n < 64 \<Longrightarrow> (w :: 64 word) AND push_bit n 1 \<noteq> 0 \<longleftrightarrow> bit w n"
proof -
  assume n: "n < 64"
  define x where "x = w AND push_bit n 1"
  have b: "bit x m \<longleftrightarrow> bit w n \<and> m = n" for m using n by (auto simp: x_def bit_simps)
  have "bit w n \<Longrightarrow> x \<noteq> 0" using b [of n] by auto
  moreover have "\<not> bit w n \<Longrightarrow> x = 0" using b by (intro bit_word_eqI) simp
  ultimately have "x = 0 \<longleftrightarrow> \<not> bit w n" by blast
  then show "w AND push_bit n 1 \<noteq> 0 \<longleftrightarrow> bit w n" unfolding x_def by blast
qed

lemma shift_and_one: "drop_bit n (w :: 64 word) AND 1 = 1 \<longleftrightarrow> bit w n"
  by (simp add: and_one_eq odd_iff_mod_2_eq_one [symmetric] bit_iff_odd_drop_bit)

lemma bits_of_Cons: "bits_of (w # bm) = {m. bit w m} \<union> (+) 64 ` bits_of bm"
proof (rule set_eqI)
  fix i
  have l: "bit w i \<Longrightarrow> i < 64" using bit_imp_le_length [of w i] by simp
  show "i \<in> bits_of (w # bm) \<longleftrightarrow> i \<in> {m. bit w m} \<union> (+) 64 ` bits_of bm"
  proof (cases "i < 64")
    case True
    then show ?thesis by (auto simp: bits_of_def)
  next
    case False
    then obtain k where k: "i = 64 + k" using le_iff_add [of 64 i] by auto
    have "(64 + k) div 64 - Suc 0 = k div 64" by (simp add: div_add1_eq)
    then show ?thesis using l k by (auto simp: bits_of_def image_iff)
  qed
qed

lemma finite_bits_of [simp]: "finite (bits_of bm)"
  by (rule finite_subset [of _ "{..<64 * length bm}"]) (auto dest: bits_of_bound)

lemma finite_word_bits [simp]: "finite {m. bit (w :: 'a::len word) m}"
  by (rule finite_subset [of _ "{..<LENGTH('a)}"]) (auto dest: bit_imp_le_length)

lemma count_bits_of: "sum_list (map count_ones bm) = card (bits_of bm)"
proof (induction bm)
  case Nil
  then show ?case by (simp add: bits_of_def)
next
  case (Cons w bm)
  have d: "{m. bit w m} \<inter> (+) 64 ` bits_of bm = {}"
    using bit_imp_le_length [of w] by fastforce
  have "card (bits_of (w # bm)) = card {m. bit w m} + card ((+) 64 ` bits_of bm)"
    unfolding bits_of_Cons using d by (intro card_Un_disjoint) simp_all
  also have "card ((+) 64 ` bits_of bm) = card (bits_of bm)"
    by (intro card_image) (simp add: inj_on_def)
  finally show ?case using Cons.IH by (simp add: count_ones_card)
qed

end
