(* ===== verification/Quiver_Types.thy ===== *)
theory Quiver_Types
  imports Byte_Codec
begin

section \<open>Identifiers and errors of the Quiver subscribers\<close>

text \<open>
  The vocabulary of \<^verbatim>\<open>crates/quiver/src/subscriber\<close>: subscriber identifiers and their
  validation, segment sequence numbers (\<^verbatim>\<open>u64\<close>), bundle indices (\<^verbatim>\<open>u32\<close>), bundle references
  with the order that \<^verbatim>\<open>impl Ord for BundleRef\<close> gives them, outcomes and their byte codes, and
  the errors. A string is the list of its UTF-8 bytes. An error message built with \<^verbatim>\<open>format!\<close>
  is a constructor that carries the values the text shows.
\<close>

subsection \<open>Subscriber identifiers\<close>

datatype subscriber_id = SubscriberId (as_str: string)

datatype invalid_subscriber_id = Invalid_Empty | Invalid_TooLong nat nat | Invalid_Characters

definition MAX_SUBSCRIBER_ID_LEN :: nat where
  "MAX_SUBSCRIBER_ID_LEN = 64"

definition is_ascii_alphanumeric :: "char \<Rightarrow> bool" where
  "is_ascii_alphanumeric c \<longleftrightarrow>
     (let n = of_char c :: nat in 48 \<le> n \<and> n \<le> 57 \<or> 65 \<le> n \<and> n \<le> 90 \<or> 97 \<le> n \<and> n \<le> 122)"

definition id_char :: "char \<Rightarrow> bool" where
  "id_char c \<longleftrightarrow> is_ascii_alphanumeric c \<or> c = CHR ''-'' \<or> c = CHR ''_''"

definition SubscriberId_new :: "string \<Rightarrow> invalid_subscriber_id + subscriber_id" where
  "SubscriberId_new s =
     (if s = [] then Inl Invalid_Empty
      else if MAX_SUBSCRIBER_ID_LEN < length s then Inl (Invalid_TooLong (length s) MAX_SUBSCRIBER_ID_LEN)
      else if \<not> list_all id_char s then Inl Invalid_Characters
      else Inr (SubscriberId s))"

definition valid_id :: "subscriber_id \<Rightarrow> bool" where
  \<comment> \<open>the identifiers that \<^verbatim>\<open>SubscriberId::new\<close> can return\<close>
  "valid_id sid \<longleftrightarrow> SubscriberId_new (as_str sid) = Inr sid"

lemma SubscriberId_new_valid: "SubscriberId_new s = Inr sid \<longleftrightarrow> valid_id sid \<and> as_str sid = s"
  by (cases sid) (auto simp: valid_id_def SubscriberId_new_def split: if_splits)

lemma valid_id_chars: "valid_id sid \<Longrightarrow> c \<in> set (as_str sid) \<Longrightarrow> id_char c"
  by (auto simp: valid_id_def SubscriberId_new_def list_all_iff split: if_splits)

subsection \<open>Segments and bundles\<close>

type_synonym segment_seq = "64 word"
type_synonym bundle_index = "32 word"

definition SegmentSeq_next :: "segment_seq \<Rightarrow> segment_seq" where
  "SegmentSeq_next s = (if s = - 1 then - 1 else s + 1)"

definition BundleIndex_next :: "bundle_index \<Rightarrow> bundle_index" where
  "BundleIndex_next i = (if i = - 1 then - 1 else i + 1)"

definition is_saturated :: "bundle_index \<Rightarrow> bool" where
  "is_saturated i \<longleftrightarrow> i = - 1"

datatype bundle_ref = Bundle_Ref (segment_seq: segment_seq) (bundle_index: bundle_index)

definition bundle_ref_le :: "bundle_ref \<Rightarrow> bundle_ref \<Rightarrow> bool" where
  "bundle_ref_le a b \<longleftrightarrow>
     segment_seq a < segment_seq b \<or> segment_seq a = segment_seq b \<and> bundle_index a \<le> bundle_index b"

instantiation bundle_ref :: linorder
begin

definition less_eq_bundle_ref :: "bundle_ref \<Rightarrow> bundle_ref \<Rightarrow> bool" where
  "less_eq_bundle_ref a b \<longleftrightarrow> bundle_ref_le a b"

definition less_bundle_ref :: "bundle_ref \<Rightarrow> bundle_ref \<Rightarrow> bool" where
  "less_bundle_ref a b \<longleftrightarrow> bundle_ref_le a b \<and> \<not> bundle_ref_le b a"

instance
  by standard
    (auto simp: less_eq_bundle_ref_def less_bundle_ref_def bundle_ref_le_def bundle_ref.expand)

end

lemma bundle_ref_less:
  "Bundle_Ref s i < Bundle_Ref t j \<longleftrightarrow> s < t \<or> s = t \<and> i < j"
  by (auto simp: less_bundle_ref_def bundle_ref_le_def)

lemma bundle_ref_less_eq:
  "Bundle_Ref s i \<le> Bundle_Ref t j \<longleftrightarrow> s < t \<or> s = t \<and> i \<le> j"
  by (auto simp: less_eq_bundle_ref_def bundle_ref_le_def)

subsection \<open>Outcomes\<close>

datatype ack_outcome = Outcome_Acked | Outcome_Dropped

fun as_byte :: "ack_outcome \<Rightarrow> byte" where
  "as_byte Outcome_Acked = 1"
| "as_byte Outcome_Dropped = 2"

definition from_byte :: "byte \<Rightarrow> ack_outcome option" where
  "from_byte b = (if b = 1 then Some Outcome_Acked else if b = 2 then Some Outcome_Dropped else None)"

lemma from_byte_iff: "from_byte b = Some out \<longleftrightarrow> b = as_byte out"
  by (cases out) (auto simp: from_byte_def)

subsection \<open>Errors\<close>

type_synonym path = "string \<times> string" \<comment> \<open>directory and file name\<close>

datatype io_error = Io_NotFound | Io_UnexpectedEof | Io_Other string

datatype corruption =
    Header_Too_Short nat | Invalid_Magic | Unsupported_Version "16 word" | Invalid_Header_Size "16 word"
  | Entry_Count_Too_Large "32 word" | Bitmap_Words_Too_Large "16 word"
  | Bitmap_Words_Mismatch "16 word" "16 word" "32 word" | File_Too_Short nat
  | Crc_Mismatch "32 word" "32 word" | Header_Size_Exceeds_Body nat nat

datatype subscriber_error =
    Err_InvalidId invalid_subscriber_id
  | Err_NotFound string
  | Err_AlreadyExists string
  | Err_BundleNotAvailable string
  | Err_SegmentNotFound segment_seq
  | Err_SegmentIo path io_error
  | Err_ShuttingDown
  | Err_Cancelled string
  | Err_ProgressIo path io_error
  | Err_ProgressCorrupted path corruption

definition is_cancelled :: "subscriber_error \<Rightarrow> bool" where
  "is_cancelled e \<longleftrightarrow> (case e of Err_Cancelled r \<Rightarrow> True | _ \<Rightarrow> False)"

end
