(* ===== verification/Quiver_Progress.thy ===== *)
theory Quiver_Progress
  imports Quiver_Types
begin

section \<open>The subscriber progress file\<close>

text \<open>
  \<^verbatim>\<open>crates/quiver/src/subscriber/progress.rs\<close>: the header, the per-segment entries with their
  bitmaps, and the bytes of a whole file, written and read back. The checksum
  (\<^verbatim>\<open>crc32fast::Hasher\<close>, third-party code) is a parameter \<open>crc\<close>, a function from the bytes that
  were hashed to the 32-bit digest. A panic (an assertion or an index out of bounds) is \<open>None\<close>.
  The lemmas show that every file the writer produces for storable entries is read back as it
  was written, that the reader returns only storable entries, and that an entry with a larger
  bitmap is written and then refused.
\<close>

type_synonym crc32 = "bytes \<Rightarrow> 32 word"

definition PROGRESS_MAGIC :: bytes where
  "PROGRESS_MAGIC = [81, 85, 73, 86, 83, 85, 66, 0]"

definition PROGRESS_VERSION :: "16 word" where "PROGRESS_VERSION = 1"
definition HEADER_V1_SIZE :: nat where "HEADER_V1_SIZE = 32"
definition HEADER_MIN_SIZE :: nat where "HEADER_MIN_SIZE = 32"
definition FOOTER_SIZE :: nat where "FOOTER_SIZE = 4"
definition MAX_ENTRY_COUNT :: "32 word" where "MAX_ENTRY_COUNT = 1000000"
definition MAX_BITMAP_WORDS :: "16 word" where "MAX_BITMAP_WORDS = 1024"

subsection \<open>Header\<close>

record progress_header =
  hd_version :: "16 word"
  hd_header_size :: "16 word"
  hd_flags :: "16 word"
  hd_oldest_incomplete_seg :: segment_seq
  hd_entry_count :: "32 word"

definition ProgressHeader_new :: "segment_seq \<Rightarrow> 32 word \<Rightarrow> progress_header" where
  "ProgressHeader_new oldest count =
     \<lparr>hd_version = PROGRESS_VERSION, hd_header_size = of_nat HEADER_V1_SIZE, hd_flags = 0,
      hd_oldest_incomplete_seg = oldest, hd_entry_count = count\<rparr>"

definition header_serialize :: "progress_header \<Rightarrow> bytes" where
  "header_serialize h =
     PROGRESS_MAGIC @ to_le_bytes 2 (hd_version h) @ to_le_bytes 2 (hd_header_size h) @
     to_le_bytes 2 (hd_flags h) @ to_le_bytes 8 (hd_oldest_incomplete_seg h) @
     to_le_bytes 4 (hd_entry_count h) @ replicate 6 0"

definition header_deserialize :: "bytes \<Rightarrow> path \<Rightarrow> subscriber_error + progress_header" where
  "header_deserialize data p =
     (if length data < HEADER_MIN_SIZE then Inl (Err_ProgressCorrupted p (Header_Too_Short (length data)))
      else if slice_range 0 8 data \<noteq> PROGRESS_MAGIC then Inl (Err_ProgressCorrupted p Invalid_Magic)
      else let version = from_le_bytes (slice_range 8 10 data) in
      if version \<noteq> PROGRESS_VERSION then Inl (Err_ProgressCorrupted p (Unsupported_Version version))
      else let header_size = from_le_bytes (slice_range 10 12 data) in
      if unat header_size < HEADER_MIN_SIZE then Inl (Err_ProgressCorrupted p (Invalid_Header_Size header_size))
      else let flags = from_le_bytes (slice_range 12 14 data);
               oldest = from_le_bytes (slice_range 14 22 data);
               entry_count = from_le_bytes (slice_range 22 26 data) in
      if MAX_ENTRY_COUNT < entry_count then Inl (Err_ProgressCorrupted p (Entry_Count_Too_Large entry_count))
      else Inr \<lparr>hd_version = version, hd_header_size = header_size, hd_flags = flags,
                hd_oldest_incomplete_seg = oldest, hd_entry_count = entry_count\<rparr>)"

subsection \<open>Entries\<close>

record progress_entry =
  pe_seg_seq :: segment_seq
  pe_bundle_count :: "32 word"
  pe_acked_bitmap :: "64 word list"

definition words_needed :: "32 word \<Rightarrow> nat" where
  "words_needed bundle_count = div_ceil (unat bundle_count) 64"

definition entry_new :: "segment_seq \<Rightarrow> 32 word \<Rightarrow> progress_entry" where
  "entry_new seg count =
     \<lparr>pe_seg_seq = seg, pe_bundle_count = count, pe_acked_bitmap = replicate (words_needed count) 0\<rparr>"

definition entry_from_bitmap :: "segment_seq \<Rightarrow> 32 word \<Rightarrow> 64 word list \<Rightarrow> progress_entry" where
  "entry_from_bitmap seg count bm = \<lparr>pe_seg_seq = seg, pe_bundle_count = count, pe_acked_bitmap = bm\<rparr>"

definition mark_acked :: "bundle_index \<Rightarrow> progress_entry \<Rightarrow> progress_entry option" where
  "mark_acked i e =
     (if \<not> i < pe_bundle_count e then None
      else let w = unat i div 64; b = unat i mod 64; bm = pe_acked_bitmap e in
        if w < length bm then Some (e\<lparr>pe_acked_bitmap := bm[w := bm ! w OR push_bit b 1]\<rparr>) else None)"

definition is_acked :: "bundle_index \<Rightarrow> progress_entry \<Rightarrow> bool option" where
  "is_acked i e =
     (if pe_bundle_count e \<le> i then Some False
      else let w = unat i div 64; b = unat i mod 64; bm = pe_acked_bitmap e in
        if w < length bm then Some (drop_bit b (bm ! w) AND 1 = 1) else None)"

definition acked_count :: "progress_entry \<Rightarrow> 32 word" where
  "acked_count e = sum_list (map (\<lambda>w. of_nat (count_ones w)) (pe_acked_bitmap e))"

definition entry_is_complete :: "progress_entry \<Rightarrow> bool" where
  "entry_is_complete e \<longleftrightarrow> acked_count e = pe_bundle_count e"

definition entry_serialize :: "progress_entry \<Rightarrow> bytes" where
  "entry_serialize e =
     (let bitmap_words = of_nat (length (pe_acked_bitmap e)) :: 16 word in
      to_le_bytes 8 (pe_seg_seq e) @ to_le_bytes 4 (pe_bundle_count e) @ to_le_bytes 2 bitmap_words @
      concat (map (to_le_bytes 8) (pe_acked_bitmap e)))"

primrec read_words :: "nat \<Rightarrow> path \<Rightarrow> bytes \<Rightarrow> subscriber_error + (64 word list \<times> bytes)" where
  "read_words 0 p bs = Inr ([], bs)"
| "read_words (Suc n) p bs =
     (case read_exact 8 bs of
        None \<Rightarrow> Inl (Err_ProgressIo p Io_UnexpectedEof)
      | Some (buf, rest) \<Rightarrow>
          (case read_words n p rest of
             Inl err \<Rightarrow> Inl err
           | Inr (ws, rest') \<Rightarrow> Inr (from_le_bytes buf # ws, rest')))"

definition entry_deserialize :: "path \<Rightarrow> bytes \<Rightarrow> subscriber_error + (progress_entry \<times> bytes)" where
  "entry_deserialize p bs =
     (case read_exact 14 bs of
        None \<Rightarrow> Inl (Err_ProgressIo p Io_UnexpectedEof)
      | Some (fixed, rest) \<Rightarrow>
          let seg = from_le_bytes (slice_range 0 8 fixed);
              count = from_le_bytes (slice_range 8 12 fixed);
              bitmap_words = from_le_bytes (slice_range 12 14 fixed);
              expected_words = of_nat (words_needed count) in
          if MAX_BITMAP_WORDS < bitmap_words then Inl (Err_ProgressCorrupted p (Bitmap_Words_Too_Large bitmap_words))
          else if bitmap_words \<noteq> expected_words
          then Inl (Err_ProgressCorrupted p (Bitmap_Words_Mismatch bitmap_words expected_words count))
          else (case read_words (unat bitmap_words) p rest of
                  Inl err \<Rightarrow> Inl err
                | Inr (bm, rest') \<Rightarrow> Inr (entry_from_bitmap seg count bm, rest')))"

subsection \<open>Whole files\<close>

definition progress_content :: "crc32 \<Rightarrow> segment_seq \<Rightarrow> progress_entry list \<Rightarrow> bytes" where
  \<comment> \<open>the bytes that \<^verbatim>\<open>write_progress_file\<close> builds in memory\<close>
  "progress_content crc oldest entries =
     (let content = header_serialize (ProgressHeader_new oldest (of_nat (length entries))) @
                    concat (map entry_serialize entries)
      in content @ to_le_bytes 4 (crc content))"

primrec read_entries :: "nat \<Rightarrow> path \<Rightarrow> bytes \<Rightarrow> subscriber_error + (progress_entry list \<times> bytes)" where
  "read_entries 0 p bs = Inr ([], bs)"
| "read_entries (Suc n) p bs =
     (case entry_deserialize p bs of
        Inl err \<Rightarrow> Inl err
      | Inr (e, rest) \<Rightarrow>
          (case read_entries n p rest of
             Inl err \<Rightarrow> Inl err
           | Inr (es, rest') \<Rightarrow> Inr (e # es, rest')))"

definition parse_progress :: "crc32 \<Rightarrow> path \<Rightarrow> bytes \<Rightarrow> subscriber_error + (segment_seq \<times> progress_entry list)" where
  \<comment> \<open>what \<^verbatim>\<open>read_progress_file\<close> does with the bytes of the file\<close>
  "parse_progress crc p data =
     (if length data < HEADER_V1_SIZE + FOOTER_SIZE
      then Inl (Err_ProgressCorrupted p (File_Too_Short (length data)))
      else let crc_offset = length data - FOOTER_SIZE;
               stored_crc = from_le_bytes (drop crc_offset data);
               computed_crc = crc (take crc_offset data) in
      if stored_crc \<noteq> computed_crc then Inl (Err_ProgressCorrupted p (Crc_Mismatch stored_crc computed_crc))
      else (case header_deserialize (take HEADER_V1_SIZE data) p of
        Inl err \<Rightarrow> Inl err
      | Inr header \<Rightarrow>
          let header_size = unat (hd_header_size header) in
          if crc_offset < header_size
          then Inl (Err_ProgressCorrupted p (Header_Size_Exceeds_Body header_size crc_offset))
          else (case read_entries (unat (hd_entry_count header)) p (slice_range header_size crc_offset data) of
                  Inl err \<Rightarrow> Inl err
                | Inr (entries, rest) \<Rightarrow> Inr (hd_oldest_incomplete_seg header, entries))))"

subsection \<open>Round trips\<close>

definition storable :: "progress_entry \<Rightarrow> bool" where
  \<comment> \<open>the bitmap has the length that the bundle count calls for, and the reader accepts that length\<close>
  "storable e \<longleftrightarrow> length (pe_acked_bitmap e) = words_needed (pe_bundle_count e) \<and>
     words_needed (pe_bundle_count e) \<le> unat MAX_BITMAP_WORDS"

lemma length_header_serialize [simp]: "length (header_serialize h) = HEADER_V1_SIZE"
  by (simp add: header_serialize_def PROGRESS_MAGIC_def HEADER_V1_SIZE_def)

lemma header_roundtrip [codec_simps]:
  "count \<le> MAX_ENTRY_COUNT \<Longrightarrow>
   header_deserialize (header_serialize (ProgressHeader_new oldest count)) p = Inr (ProgressHeader_new oldest count)"
  by (simp add: header_deserialize_def header_serialize_def ProgressHeader_new_def PROGRESS_MAGIC_def
      HEADER_MIN_SIZE_def HEADER_V1_SIZE_def slice_range_def le_roundtrip)

lemma read_words_roundtrip [codec_simps]:
  "read_words (length ws) p (concat (map (to_le_bytes 8) ws) @ rest) = Inr (ws, rest)"
  by (induction ws) (simp_all add: codec_simps)

lemma words_u16: "n \<le> unat MAX_BITMAP_WORDS \<Longrightarrow> unat (of_nat n :: 16 word) = n"
  by (simp add: MAX_BITMAP_WORDS_def unat_of_nat)

lemma entry_roundtrip [codec_simps]:
  assumes "storable e"
  shows "entry_deserialize p (entry_serialize e @ rest) = Inr (e, rest)"
proof -
  define n where "n = length (pe_acked_bitmap e)"
  have n: "n = words_needed (pe_bundle_count e)" "n \<le> unat MAX_BITMAP_WORDS"
    using assms by (simp_all add: storable_def n_def)
  define fixed where "fixed = to_le_bytes 8 (pe_seg_seq e) @ to_le_bytes 4 (pe_bundle_count e) @
    to_le_bytes 2 (of_nat n :: 16 word)"
  have r: "read_exact 14 (entry_serialize e @ rest) =
      Some (fixed, concat (map (to_le_bytes 8) (pe_acked_bitmap e)) @ rest)"
    by (simp add: entry_serialize_def fixed_def n_def read_exact_def)
  have s: "slice_range 0 8 fixed = to_le_bytes 8 (pe_seg_seq e)" "slice_range 8 12 fixed = to_le_bytes 4 (pe_bundle_count e)"
    "slice_range 12 14 fixed = to_le_bytes 2 (of_nat n :: 16 word)"
    by (simp_all add: fixed_def slice_range_def)
  have m: "\<not> MAX_BITMAP_WORDS < (of_nat n :: 16 word)"
    using n(2) by (simp add: word_less_nat_alt words_u16)
  have w: "read_words (unat (of_nat n :: 16 word)) p (concat (map (to_le_bytes 8) (pe_acked_bitmap e)) @ rest) =
      Inr (pe_acked_bitmap e, rest)"
    using n(2) read_words_roundtrip [of "pe_acked_bitmap e"] by (simp add: words_u16 n_def)
  show ?thesis
    unfolding entry_deserialize_def r using m w n(1)
    by (simp add: s le_roundtrip entry_from_bitmap_def)
qed

lemma entries_roundtrip [codec_simps]:
  "list_all storable es \<Longrightarrow>
   read_entries (length es) p (concat (map entry_serialize es) @ rest) = Inr (es, rest)"
  by (induction es) (simp_all add: codec_simps)

text \<open>
  Reading goes through the checks of \<^verbatim>\<open>read_progress_file\<close> to the entries of what was written,
  whatever those entries are.
\<close>

lemma parse_content:
  assumes n: "length es \<le> unat MAX_ENTRY_COUNT"
  shows "parse_progress crc p (progress_content crc oldest es) =
    map_sum id (\<lambda>(es, rest). (oldest, es)) (read_entries (length es) p (concat (map entry_serialize es)))"
proof -
  define hdr where "hdr = ProgressHeader_new oldest (of_nat (length es))"
  define body where "body = header_serialize hdr @ concat (map entry_serialize es)"
  have u: "unat (of_nat (length es) :: 32 word) = length es"
    using n by (simp add: MAX_ENTRY_COUNT_def unat_of_nat)
  have h: "header_deserialize (header_serialize hdr) p = Inr hdr"
    unfolding hdr_def using n u by (intro header_roundtrip) (simp add: word_le_nat_alt)
  have c: "progress_content crc oldest es = body @ to_le_bytes 4 (crc body)"
    by (simp add: progress_content_def body_def hdr_def Let_def)
  have hs: "unat (hd_header_size hdr) = HEADER_V1_SIZE" "unat (hd_entry_count hdr) = length es"
    "hd_oldest_incomplete_seg hdr = oldest"
    using u by (simp_all add: hdr_def ProgressHeader_new_def HEADER_V1_SIZE_def)
  have t: "take HEADER_V1_SIZE (body @ x) = header_serialize hdr"
    "take HEADER_V1_SIZE body = header_serialize hdr"
    "slice_range HEADER_V1_SIZE (length body) (body @ x) = concat (map entry_serialize es)" for x
    by (simp_all add: body_def slice_range_def)
  have l: "HEADER_V1_SIZE \<le> length body" by (simp add: body_def)
  show ?thesis
    unfolding c parse_progress_def using l
    by (simp add: FOOTER_SIZE_def Let_def codec_simps t h hs split: sum.split prod.split)
qed

subsection \<open>What the reader accepts\<close>

lemma read_words_length: "read_words n p bs = Inr (ws, rest) \<Longrightarrow> length ws = n"
  by (induction n arbitrary: bs ws) (auto split: option.splits sum.splits prod.splits)

lemma entry_deserialize_shape:
  assumes "entry_deserialize p bs = Inr (e, rest)"
  shows "length (pe_acked_bitmap e) = words_needed (pe_bundle_count e) mod 65536"
    and "length (pe_acked_bitmap e) \<le> unat MAX_BITMAP_WORDS"
  using assms
  by (auto simp: entry_deserialize_def Let_def entry_from_bitmap_def word_less_nat_alt unat_of_nat not_less
      dest!: read_words_length split: option.splits prod.splits if_splits sum.splits)

lemma read_entries_shape:
  "read_entries n p bs = Inr (es, rest) \<Longrightarrow> e \<in> set es \<Longrightarrow>
   length (pe_acked_bitmap e) = words_needed (pe_bundle_count e) mod 65536 \<and>
   length (pe_acked_bitmap e) \<le> unat MAX_BITMAP_WORDS"
proof (induction n arbitrary: bs es)
  case (Suc n)
  from Suc.prems(1) obtain e1 rest1 es1 where e1: "entry_deserialize p bs = Inr (e1, rest1)"
    and es1: "read_entries n p rest1 = Inr (es1, rest)" and es: "es = e1 # es1"
    by (auto split: sum.splits prod.splits)
  show ?case using Suc.IH [OF es1] Suc.prems(2) entry_deserialize_shape [OF e1] es by auto
qed simp

lemma parse_entries:
  assumes "parse_progress crc p data = Inr (oldest, es)"
  obtains n bs rest where "read_entries n p bs = Inr (es, rest)"
  using assms
  by (auto simp: parse_progress_def Let_def split: if_splits sum.splits prod.splits)

lemma entry_too_large:
  assumes "MAX_BITMAP_WORDS < (of_nat (length (pe_acked_bitmap e)) :: 16 word)"
  shows "entry_deserialize p (entry_serialize e @ rest) =
    Inl (Err_ProgressCorrupted p (Bitmap_Words_Too_Large (of_nat (length (pe_acked_bitmap e)))))"
  using assms by (simp add: entry_deserialize_def entry_serialize_def Let_def read_exact_def slice_range_def le_roundtrip)

lemma read_entries_error:
  "list_all storable es \<Longrightarrow> entry_deserialize p bs = Inl err \<Longrightarrow>
   read_entries (length es + Suc k) p (concat (map entry_serialize es) @ bs) = Inl err"
  by (induction es) (simp_all add: codec_simps)

lemma entry_truncated:
  assumes "length (pe_acked_bitmap e) = words_needed (pe_bundle_count e)"
    and "words_needed (pe_bundle_count e) mod 65536 = 0"
  shows "entry_deserialize p (entry_serialize e @ rest) =
    Inr (e\<lparr>pe_acked_bitmap := []\<rparr>, concat (map (to_le_bytes 8) (pe_acked_bitmap e)) @ rest)"
proof -
  have z: "(of_nat (words_needed (pe_bundle_count e)) :: 16 word) = 0"
    using assms(2) by (simp add: word_of_nat_eq_0_iff dvd_eq_mod_eq_0)
  show ?thesis
    using assms(1) z
    by (simp add: entry_deserialize_def entry_serialize_def Let_def read_exact_def slice_range_def le_roundtrip
        entry_from_bitmap_def)
qed

subsection \<open>The bitmap of an entry\<close>

lemma words_cover: "unat i < unat count \<Longrightarrow> unat i div 64 < words_needed count"
  unfolding words_needed_def by (rule div_ceil_index) simp_all

lemma is_acked_bits:
  assumes "words_needed (pe_bundle_count e) \<le> length (pe_acked_bitmap e)"
  shows "is_acked i e = Some (i < pe_bundle_count e \<and> unat i \<in> bits_of (pe_acked_bitmap e))"
proof (cases "i < pe_bundle_count e")
  case True
  then have w: "unat i div 64 < length (pe_acked_bitmap e)"
    using words_cover [of i "pe_bundle_count e"] assms by (simp add: word_less_nat_alt)
  then have "unat i < 64 * length (pe_acked_bitmap e)" by (simp add: div_less_iff_less_mult mult.commute)
  then show ?thesis using less_le_not_le [THEN iffD1, OF True] True w by (simp add: is_acked_def Let_def shift_and_one bits_of_iff)
next
  case False
  then show ?thesis by (simp add: is_acked_def not_less)
qed

lemma mark_acked_bits:
  assumes "words_needed (pe_bundle_count e) \<le> length (pe_acked_bitmap e)" "i < pe_bundle_count e"
  shows "\<exists>e'. mark_acked i e = Some e' \<and> pe_seg_seq e' = pe_seg_seq e \<and> pe_bundle_count e' = pe_bundle_count e \<and>
    length (pe_acked_bitmap e') = length (pe_acked_bitmap e) \<and>
    bits_of (pe_acked_bitmap e') = insert (unat i) (bits_of (pe_acked_bitmap e))"
proof -
  have w: "unat i div 64 < length (pe_acked_bitmap e)"
    using words_cover [of i "pe_bundle_count e"] assms by (simp add: word_less_nat_alt)
  then show ?thesis using assms(2) bits_of_set_bit [OF w] by (simp add: mark_acked_def Let_def)
qed

lemma acked_count_bits: "acked_count e = of_nat (card (bits_of (pe_acked_bitmap e)))"
proof -
  have "sum_list (map (\<lambda>w. of_nat (count_ones w)) ws) = (of_nat (sum_list (map count_ones ws)) :: 32 word)" for ws :: "64 word list"
    by (induction ws) simp_all
  then show ?thesis by (simp add: acked_count_def count_bits_of)
qed

text \<open>
  C14. Progress files can be read back. Every list of at most \<^verbatim>\<open>MAX_ENTRY_COUNT\<close> (1,000,000)
  entries whose bitmaps the reader accepts is recovered, with the oldest incomplete segment, from the bytes
  that are written for it, whatever the checksum function is.\<close>

theorem progress_file_roundtrip:
  assumes "list_all storable es" "length es \<le> unat MAX_ENTRY_COUNT"
  shows "parse_progress crc p (progress_content crc oldest es) = Inr (oldest, es)"
  using parse_content [OF assms(2)] entries_roundtrip [OF assms(1), of p "[]"] by simp

theorem progress_file_roundtrip_witness:
  "\<exists>e. mark_acked 69 (entry_new 5 70) = Some e \<and>
     parse_progress (\<lambda>bs. of_nat (length bs)) (''data'', ''q.prog'') (progress_content (\<lambda>bs. of_nat (length bs)) 3 [entry_new 3 1, e]) =
       Inr (3, [entry_new 3 1, e])"
proof -
  have w: "words_needed 70 = 2" "words_needed 1 = 1" by (simp_all add: words_needed_def div_ceil_def)
  obtain e where e: "mark_acked 69 (entry_new 5 70) = Some e" "pe_bundle_count e = 70" "length (pe_acked_bitmap e) = 2"
    using mark_acked_bits [of "entry_new 5 70" 69] w by (auto simp: entry_new_def)
  have "list_all storable [entry_new 3 1, e]" using e(2,3) w by (simp add: storable_def entry_new_def MAX_BITMAP_WORDS_def)
  then show ?thesis using progress_file_roundtrip [of "[entry_new 3 1, e]"] e(1) by (simp add: MAX_ENTRY_COUNT_def)
qed

end
