(* ===== verification/Quiver_Subscriber.thy ===== *)
theory Quiver_Subscriber
  imports Quiver_Progress "HOL-Library.AList" "HOL-Library.Monad_Syntax"
begin

section \<open>Per-subscriber state\<close>

text \<open>
  \<^verbatim>\<open>crates/quiver/src/subscriber/state.rs\<close>: the resolution bitmap of one segment
  (\<^verbatim>\<open>SegmentProgress\<close>) and the state of one subscriber (\<^verbatim>\<open>SubscriberState\<close>). A \<^verbatim>\<open>BTreeMap\<close> is an
  association list with strictly increasing keys, a \<^verbatim>\<open>HashSet\<close> a set. Indexing a vector out of
  bounds panics, which is the value \<open>None\<close> of the operations that index; under the invariant
  no operation panics.

  The contract of a segment bitmap is the locale \<open>bundle_tracker\<close>: a set of resolved indices
  below a fixed size, with marking, testing, the first unresolved index and completeness. What a
  loop of markings does is proved once in it.
\<close>

subsection \<open>\<^verbatim>\<open>SegmentProgress\<close>\<close>

record segment_progress =
  sp_bundle_count :: "32 word"
  sp_resolved :: "64 word list"
  sp_resolved_count :: "32 word"

definition SegmentProgress_new :: "32 word \<Rightarrow> segment_progress" where
  "SegmentProgress_new count =
     \<lparr>sp_bundle_count = count, sp_resolved = replicate (div_ceil (unat count) 64) 0, sp_resolved_count = 0\<rparr>"

definition mark_resolved :: "bundle_index \<Rightarrow> segment_progress \<Rightarrow> (bool \<times> segment_progress) option" where
  "mark_resolved i p =
     (let idx = unat i in
      if unat (sp_bundle_count p) \<le> idx then Some (False, p)
      else let w = idx div 64; mask = push_bit (idx mod 64) 1; bm = sp_resolved p in
        if \<not> w < length bm then None
        else if bm ! w AND mask \<noteq> 0 then Some (False, p)
        else Some (True, p\<lparr>sp_resolved := bm[w := bm ! w OR mask],
                           sp_resolved_count := sp_resolved_count p + 1\<rparr>))"

definition progress_is_resolved :: "bundle_index \<Rightarrow> segment_progress \<Rightarrow> bool option" where
  "progress_is_resolved i p =
     (let idx = unat i in
      if unat (sp_bundle_count p) \<le> idx then Some False
      else let w = idx div 64 in
        if \<not> w < length (sp_resolved p) then None
        else Some (sp_resolved p ! w AND push_bit (idx mod 64) 1 \<noteq> 0))"

definition progress_is_complete :: "segment_progress \<Rightarrow> bool" where
  "progress_is_complete p \<longleftrightarrow> sp_resolved_count p = sp_bundle_count p"

fun first_clear :: "nat \<Rightarrow> 32 word \<Rightarrow> 64 word list \<Rightarrow> bundle_index option" where
  "first_clear word_idx count [] = None"
| "first_clear word_idx count (w # ws) =
     (if w = - 1 then first_clear (word_idx + 1) count ws
      else let bundle_idx = word_idx * 64 + trailing_zeros (NOT w) in
        if bundle_idx < unat count then Some (of_nat bundle_idx) else first_clear (word_idx + 1) count ws)"

definition next_unresolved :: "segment_progress \<Rightarrow> bundle_index option" where
  "next_unresolved p = first_clear 0 (sp_bundle_count p) (sp_resolved p)"

subsection \<open>Ordered maps\<close>

fun btree_insert :: "'k::linorder \<Rightarrow> 'v \<Rightarrow> ('k \<times> 'v) list \<Rightarrow> ('k \<times> 'v) list" where
  "btree_insert k v [] = [(k, v)]"
| "btree_insert k v ((k1, v1) # m) =
     (if k < k1 then (k, v) # (k1, v1) # m
      else if k = k1 then (k, v) # m
      else (k1, v1) # btree_insert k v m)"

subsection \<open>\<^verbatim>\<open>SubscriberState\<close>\<close>

record subscriber_state =
  ss_id :: subscriber_id
  ss_segments :: "(segment_seq \<times> segment_progress) list"
  ss_claimed :: "bundle_ref set"
  ss_active :: bool

definition SubscriberState_new :: "subscriber_id \<Rightarrow> subscriber_state" where
  "SubscriberState_new sid = \<lparr>ss_id = sid, ss_segments = [], ss_claimed = {}, ss_active = False\<rparr>"

definition state_activate :: "subscriber_state \<Rightarrow> subscriber_state" where
  "state_activate s = s\<lparr>ss_active := True\<rparr>"

definition state_deactivate :: "subscriber_state \<Rightarrow> subscriber_state" where
  "state_deactivate s = s\<lparr>ss_active := False\<rparr>"

definition add_segment :: "segment_seq \<Rightarrow> 32 word \<Rightarrow> subscriber_state \<Rightarrow> subscriber_state" where
  "add_segment seg count s =
     (case map_of (ss_segments s) seg of
        Some p \<Rightarrow> s
      | None \<Rightarrow> s\<lparr>ss_segments := btree_insert seg (SegmentProgress_new count) (ss_segments s)\<rparr>)"

definition record_outcome :: "bundle_ref \<Rightarrow> ack_outcome \<Rightarrow> subscriber_state \<Rightarrow> (bool \<times> subscriber_state) option" where
  "record_outcome r outcome s =
     (let s1 = s\<lparr>ss_claimed := ss_claimed s - {r}\<rparr> in
      case map_of (ss_segments s1) (segment_seq r) of
        Some p \<Rightarrow> do {
          (fresh, p') \<leftarrow> mark_resolved (bundle_index r) p;
          Some (fresh, s1\<lparr>ss_segments := AList.update (segment_seq r) p' (ss_segments s1)\<rparr>)
        }
      | None \<Rightarrow> Some (False, s1))"

definition is_claimed :: "bundle_ref \<Rightarrow> subscriber_state \<Rightarrow> bool" where
  "is_claimed r s \<longleftrightarrow> r \<in> ss_claimed s"

definition is_resolved :: "bundle_ref \<Rightarrow> subscriber_state \<Rightarrow> bool option" where
  "is_resolved r s =
     (case map_of (ss_segments s) (segment_seq r) of
        None \<Rightarrow> Some False
      | Some p \<Rightarrow> progress_is_resolved (bundle_index r) p)"

definition claim :: "bundle_ref \<Rightarrow> subscriber_state \<Rightarrow> (bool \<times> subscriber_state) option" where
  "claim r s = do {
     resolved \<leftarrow> is_resolved r s;
     if resolved then Some (False, s)
     else Some (r \<notin> ss_claimed s, s\<lparr>ss_claimed := insert r (ss_claimed s)\<rparr>)
   }"

definition release :: "bundle_ref \<Rightarrow> subscriber_state \<Rightarrow> subscriber_state" where
  "release r s = s\<lparr>ss_claimed := ss_claimed s - {r}\<rparr>"

definition oldest_incomplete_segment :: "subscriber_state \<Rightarrow> segment_seq option" where
  "oldest_incomplete_segment s =
     map_option fst (find (\<lambda>(seg, p). \<not> progress_is_complete p) (ss_segments s))"

definition highest_tracked_segment :: "subscriber_state \<Rightarrow> segment_seq option" where
  "highest_tracked_segment s = (if ss_segments s = [] then None else Some (fst (last (ss_segments s))))"

primrec first_unclaimed ::
  "bundle_ref set \<Rightarrow> segment_seq \<Rightarrow> segment_progress \<Rightarrow> bundle_index list \<Rightarrow> bundle_ref option option" where
  "first_unclaimed claimed seg p [] = Some None"
| "first_unclaimed claimed seg p (i # is) = do {
     resolved \<leftarrow> progress_is_resolved i p;
     if \<not> resolved \<and> Bundle_Ref seg i \<notin> claimed then Some (Some (Bundle_Ref seg i))
     else first_unclaimed claimed seg p is
   }"

fun next_pending_from ::
  "bundle_ref set \<Rightarrow> (segment_seq \<times> segment_progress) list \<Rightarrow> bundle_ref option option" where
  "next_pending_from claimed [] = Some None"
| "next_pending_from claimed ((seg, p) # segs) =
     (case next_unresolved p of
        None \<Rightarrow> next_pending_from claimed segs
      | Some i \<Rightarrow>
          if Bundle_Ref seg i \<notin> claimed then Some (Some (Bundle_Ref seg i))
          else do {
            found \<leftarrow> first_unclaimed claimed seg p (map of_nat [unat i + 1..<unat (sp_bundle_count p)]);
            (case found of
               Some r \<Rightarrow> Some (Some r)
             | None \<Rightarrow> next_pending_from claimed segs)
          })"

definition next_pending :: "subscriber_state \<Rightarrow> bundle_ref option option" where
  "next_pending s = next_pending_from (ss_claimed s) (ss_segments s)"

definition remove_completed_segments_before :: "segment_seq \<Rightarrow> subscriber_state \<Rightarrow> subscriber_state" where
  "remove_completed_segments_before before s =
     s\<lparr>ss_segments := filter (\<lambda>(seg, p). before \<le> seg \<or> \<not> progress_is_complete p) (ss_segments s)\<rparr>"

definition segment_count :: "subscriber_state \<Rightarrow> nat" where
  "segment_count s = length (ss_segments s)"

definition claimed_count :: "subscriber_state \<Rightarrow> nat" where
  "claimed_count s = card (ss_claimed s)"

definition pending_count :: "subscriber_state \<Rightarrow> nat" where
  "pending_count s = sum_list (map (\<lambda>(seg, p). unat (sp_bundle_count p - sp_resolved_count p)) (ss_segments s))"

definition has_claimed_in_segment :: "segment_seq \<Rightarrow> subscriber_state \<Rightarrow> bool" where
  "has_claimed_in_segment seg s \<longleftrightarrow> (\<exists>r \<in> ss_claimed s. segment_seq r = seg)"

primrec mark_each :: "('i \<Rightarrow> 'p \<Rightarrow> (bool \<times> 'p) option) \<Rightarrow> 'i list \<Rightarrow> 'p \<Rightarrow> 'p option" where
  \<comment> \<open>\<^verbatim>\<open>for i in ... { let _ = progress.mark_resolved(i); }\<close>\<close>
  "mark_each mark [] p = Some p"
| "mark_each mark (i # is) p = do { (fresh, p') \<leftarrow> mark i p; mark_each mark is p' }"

definition indices :: "32 word \<Rightarrow> bundle_index list" where
  \<comment> \<open>the range \<^verbatim>\<open>0..count\<close>\<close>
  "indices count = map of_nat [0..<unat count]"

definition force_complete_segment :: "segment_seq \<Rightarrow> subscriber_state \<Rightarrow> (bool \<times> subscriber_state) option" where
  "force_complete_segment seg s =
     (let s1 = s\<lparr>ss_claimed := {r \<in> ss_claimed s. segment_seq r \<noteq> seg}\<rparr> in
      case map_of (ss_segments s1) seg of
        Some p \<Rightarrow> do {
          p' \<leftarrow> mark_each mark_resolved (indices (sp_bundle_count p)) p;
          Some (True, s1\<lparr>ss_segments := AList.update seg p' (ss_segments s1)\<rparr>)
        }
      | None \<Rightarrow> Some (False, s1))"

definition to_progress_entries :: "subscriber_state \<Rightarrow> progress_entry list" where
  "to_progress_entries s =
     map (\<lambda>(seg, p). entry_from_bitmap seg (sp_bundle_count p) (sp_resolved p)) (ss_segments s)"

end
