(* ===== verification/Quiver_Files.thy ===== *)
theory Quiver_Files
  imports Quiver_Progress "HOL-Library.AList"
begin

section \<open>Progress files on disk\<close>

text \<open>
  The file operations of \<^verbatim>\<open>crates/quiver/src/subscriber/progress.rs\<close>: the atomic update
  (temporary file, \<^verbatim>\<open>fsync\<close>, rename, directory \<^verbatim>\<open>fsync\<close>), reading, deleting and scanning.

  The disk is an explicit store. Directory entries map paths to files; the entries that are on
  stable storage may lag behind the visible ones until the directory is synced. A file has its
  bytes and a flag that says whether they are on stable storage. A crash keeps either the
  visible or the stable directory entries and the bytes of every synced file; what it leaves in
  a file that was not synced is arbitrary. Each call may fail: the failures of one update are an
  argument of it, together with the number of bytes a failing write had written. An update that
  is cut off by a crash before some call leaves the disk that the failure of that call leaves,
  so the arguments cover the crash points as well.
\<close>

record disk =
  dk_names :: "(path \<times> nat) list"
  dk_stable :: "(path \<times> nat) list"
  dk_bytes :: "nat \<Rightarrow> bytes"
  dk_synced :: "nat \<Rightarrow> bool"
  dk_next :: nat

definition content_at :: "(path \<times> nat) list \<Rightarrow> path \<Rightarrow> disk \<Rightarrow> bytes option" where
  "content_at names p d = map_option (dk_bytes d) (map_of names p)"

abbreviation file_content :: "path \<Rightarrow> disk \<Rightarrow> bytes option" where
  "file_content p d \<equiv> content_at (dk_names d) p d"

abbreviation stable_content :: "path \<Rightarrow> disk \<Rightarrow> bytes option" where
  "stable_content p d \<equiv> content_at (dk_stable d) p d"

definition crash :: "disk \<Rightarrow> disk \<Rightarrow> bool" where
  "crash d d' \<longleftrightarrow>
     (dk_names d' = dk_names d \<or> dk_names d' = dk_stable d) \<and> dk_stable d' = dk_names d' \<and>
     (\<forall>i. dk_synced d i \<longrightarrow> dk_bytes d' i = dk_bytes d i) \<and> (\<forall>i. dk_synced d' i) \<and> dk_next d' = dk_next d"

subsection \<open>Calls\<close>

definition fs_create :: "path \<Rightarrow> disk \<Rightarrow> disk" where
  \<comment> \<open>\<^verbatim>\<open>OpenOptions::new().write(true).create(true).truncate(true).open(p)\<close>\<close>
  "fs_create p d =
     (case map_of (dk_names d) p of
        Some i \<Rightarrow> d\<lparr>dk_bytes := (dk_bytes d)(i := []), dk_synced := (dk_synced d)(i := False)\<rparr>
      | None \<Rightarrow> let i = dk_next d in
          d\<lparr>dk_names := AList.update p i (dk_names d), dk_bytes := (dk_bytes d)(i := []),
            dk_synced := (dk_synced d)(i := False), dk_next := i + 1\<rparr>)"

definition fs_write :: "path \<Rightarrow> bytes \<Rightarrow> disk \<Rightarrow> disk" where
  "fs_write p bs d =
     (case map_of (dk_names d) p of
        Some i \<Rightarrow> d\<lparr>dk_bytes := (dk_bytes d)(i := dk_bytes d i @ bs), dk_synced := (dk_synced d)(i := False)\<rparr>
      | None \<Rightarrow> d)"

definition fs_sync :: "path \<Rightarrow> disk \<Rightarrow> disk" where
  "fs_sync p d =
     (case map_of (dk_names d) p of Some i \<Rightarrow> d\<lparr>dk_synced := (dk_synced d)(i := True)\<rparr> | None \<Rightarrow> d)"

definition fs_rename :: "path \<Rightarrow> path \<Rightarrow> disk \<Rightarrow> disk" where
  "fs_rename p q d =
     (case map_of (dk_names d) p of
        Some i \<Rightarrow> d\<lparr>dk_names := AList.update q i (AList.delete p (dk_names d))\<rparr>
      | None \<Rightarrow> d)"

definition fs_sync_dir :: "disk \<Rightarrow> disk" where
  "fs_sync_dir d = d\<lparr>dk_stable := dk_names d\<rparr>"

definition fs_remove :: "path \<Rightarrow> disk \<Rightarrow> disk" where
  "fs_remove p d = d\<lparr>dk_names := AList.delete p (dk_names d)\<rparr>"

subsection \<open>Paths\<close>

definition progress_file_path :: "string \<Rightarrow> subscriber_id \<Rightarrow> path" where
  "progress_file_path dir sid = (dir, ''quiver.sub.'' @ as_str sid)"

definition temp_progress_file_path :: "string \<Rightarrow> subscriber_id \<Rightarrow> path" where
  "temp_progress_file_path dir sid = (dir, ''quiver.sub.'' @ as_str sid @ ''.tmp'')"

subsection \<open>Operations on progress files\<close>

definition read_progress_file ::
  "crc32 \<Rightarrow> (path \<Rightarrow> io_error option) \<Rightarrow> path \<Rightarrow> disk \<Rightarrow> subscriber_error + (segment_seq \<times> progress_entry list)" where
  \<comment> \<open>\<open>fault\<close>: the error, if any, of opening or reading the file\<close>
  "read_progress_file crc fault p d =
     (case fault p of
        Some e \<Rightarrow> Inl (Err_ProgressIo p e)
      | None \<Rightarrow> (case file_content p d of
            None \<Rightarrow> Inl (Err_ProgressIo p Io_NotFound)
          | Some data \<Rightarrow> parse_progress crc p data))"

record write_faults =
  wf_open :: "io_error option"
  wf_write :: "(nat \<times> io_error) option"
  wf_flush :: "io_error option"
  wf_sync :: "io_error option"
  wf_rename :: "io_error option"
  wf_dir_sync :: bool \<comment> \<open>opening or syncing the directory fails\<close>

definition no_faults :: write_faults where
  "no_faults = \<lparr>wf_open = None, wf_write = None, wf_flush = None, wf_sync = None, wf_rename = None, wf_dir_sync = False\<rparr>"

definition write_progress_file ::
  "crc32 \<Rightarrow> string \<Rightarrow> subscriber_id \<Rightarrow> segment_seq \<Rightarrow> progress_entry list \<Rightarrow> write_faults \<Rightarrow> disk \<Rightarrow>
   (subscriber_error + unit) \<times> disk" where
  "write_progress_file crc dir sid oldest entries faults d =
     (let final = progress_file_path dir sid; temp = temp_progress_file_path dir sid;
          content = progress_content crc oldest entries in
      case wf_open faults of Some e \<Rightarrow> (Inl (Err_ProgressIo temp e), d) | None \<Rightarrow>
      let d1 = fs_create temp d in
      case wf_write faults of Some (n, e) \<Rightarrow> (Inl (Err_ProgressIo temp e), fs_write temp (take n content) d1) | None \<Rightarrow>
      let d2 = fs_write temp content d1 in
      case wf_flush faults of Some e \<Rightarrow> (Inl (Err_ProgressIo temp e), d2) | None \<Rightarrow>
      case wf_sync faults of Some e \<Rightarrow> (Inl (Err_ProgressIo temp e), d2) | None \<Rightarrow>
      let d3 = fs_sync temp d2 in
      case wf_rename faults of Some e \<Rightarrow> (Inl (Err_ProgressIo final e), d3) | None \<Rightarrow>
      let d4 = fs_rename temp final d3 in
      (Inr (), if wf_dir_sync faults then d4 else fs_sync_dir d4))"

definition delete_progress_file ::
  "string \<Rightarrow> subscriber_id \<Rightarrow> io_error option \<Rightarrow> disk \<Rightarrow> (subscriber_error + unit) \<times> disk" where
  \<comment> \<open>\<open>fault\<close>: an error of \<^verbatim>\<open>remove_file\<close> other than the absence of the file\<close>
  "delete_progress_file dir sid fault d =
     (let p = progress_file_path dir sid in
      case map_of (dk_names d) p of
        None \<Rightarrow> (Inr (), d)
      | Some i \<Rightarrow> (case fault of
            Some Io_NotFound \<Rightarrow> (Inr (), d)
          | Some e \<Rightarrow> (Inl (Err_ProgressIo p e), d)
          | None \<Rightarrow> (Inr (), fs_remove p d)))"

definition strip_prefix :: "'a list \<Rightarrow> 'a list \<Rightarrow> 'a list option" where
  "strip_prefix pre s = (if take (length pre) s = pre then Some (drop (length pre) s) else None)"

definition ends_with :: "'a list \<Rightarrow> 'a list \<Rightarrow> bool" where
  "ends_with s suf \<longleftrightarrow> length suf \<le> length s \<and> drop (length s - length suf) s = suf"

definition scan_name :: "string \<Rightarrow> subscriber_id option" where
  "scan_name name =
     (case strip_prefix ''quiver.sub.'' name of
        None \<Rightarrow> None
      | Some id_str \<Rightarrow>
          if ends_with id_str ''.tmp'' then None
          else (case SubscriberId_new id_str of Inr sid \<Rightarrow> Some sid | Inl e \<Rightarrow> None))"

definition scan_progress_files :: "io_error option \<Rightarrow> string \<Rightarrow> disk \<Rightarrow> subscriber_error + subscriber_id list" where
  \<comment> \<open>\<open>fault\<close>: the error, if any, of \<^verbatim>\<open>read_dir\<close>\<close>
  "scan_progress_files fault dir d =
     (case fault of
        Some e \<Rightarrow> Inl (Err_ProgressIo (dir, []) e)
      | None \<Rightarrow> Inr (List.map_filter scan_name [snd p. p \<leftarrow> map fst (dk_names d), fst p = dir]))"

end
