(* ===== verification/Quiver_Registry.thy ===== *)
theory Quiver_Registry
  imports Quiver_Subscriber Quiver_Files
begin

section \<open>The subscriber registry\<close>

text \<open>
  \<^verbatim>\<open>crates/quiver/src/subscriber/registry.rs\<close> and \<^verbatim>\<open>handle.rs\<close>: recovery from progress files,
  the life cycle of a subscriber, delivery of bundles through handles, persistence of progress
  and the forced completion of segments.

  Every public operation takes the locks it needs for its whole effect on the state of one
  subscriber, so an operation is one step of the model; the registry and the disk are passed
  through. The segment provider (the type parameter \<^verbatim>\<open>P: SegmentProvider\<close>) is a record of
  functions. A \<^verbatim>\<open>HashMap\<close> is an association list whose order is the order of iteration, the
  \<^verbatim>\<open>HashSet\<close> of dirty subscribers a list without duplicates. \<open>None\<close> is a panic. Log messages
  are not modelled.
\<close>

record 'b segment_provider =
  pr_available_segments :: "segment_seq list"
  pr_bundle_count :: "segment_seq \<Rightarrow> subscriber_error + 32 word"
  pr_read_bundle :: "bundle_ref \<Rightarrow> subscriber_error + 'b"
  pr_bundle_item_count :: "bundle_ref \<Rightarrow> subscriber_error + 64 word"

record registry =
  rg_data_dir :: string
  rg_subscribers :: "(subscriber_id \<times> subscriber_state) list"
  rg_dirty :: "subscriber_id list"
  rg_wakeups :: nat \<comment> \<open>calls of \<^verbatim>\<open>bundle_available.notify_waiters()\<close>\<close>
  rg_highest_progress_segment :: "segment_seq option"

record 'b bundle_handle =
  bh_bundle_ref :: bundle_ref
  bh_subscriber_id :: subscriber_id
  bh_data :: 'b
  bh_resolved :: bool
  bh_item_count :: "64 word"

subsection \<open>Opening\<close>

fun collect_counts :: "'b segment_provider \<Rightarrow> segment_seq list \<Rightarrow> subscriber_error + (segment_seq \<times> 32 word) list" where
  "collect_counts pr [] = Inr []"
| "collect_counts pr (seg # segs) =
     (case pr_bundle_count pr seg of
        Inl e \<Rightarrow> Inl e
      | Inr n \<Rightarrow> (case collect_counts pr segs of Inl e \<Rightarrow> Inl e | Inr xs \<Rightarrow> Inr ((seg, n) # xs)))"

definition opt_max :: "'a::linorder option \<Rightarrow> 'a option \<Rightarrow> 'a option" where
  \<comment> \<open>\<^verbatim>\<open>Ord::max\<close> on \<^verbatim>\<open>Option\<close>: \<^verbatim>\<open>None\<close> is the least\<close>
  "opt_max a b = (case (a, b) of (None, _) \<Rightarrow> b | (_, None) \<Rightarrow> a | (Some x, Some y) \<Rightarrow> Some (max x y))"

definition highest_persisted :: "progress_entry list \<Rightarrow> segment_seq option" where
  "highest_persisted entries = fold opt_max (map (Some \<circ> pe_seg_seq) entries) None"

primrec restore_acked :: "progress_entry \<Rightarrow> bundle_index list \<Rightarrow> subscriber_state \<Rightarrow> subscriber_state option" where
  "restore_acked e [] s = Some s"
| "restore_acked e (i # is) s = do {
     acked \<leftarrow> is_acked i e;
     s' \<leftarrow> (if acked then map_option snd (record_outcome (Bundle_Ref (pe_seg_seq e) i) Outcome_Acked s) else Some s);
     restore_acked e is s'
   }"

primrec restore_entries :: "progress_entry list \<Rightarrow> subscriber_state \<Rightarrow> subscriber_state option" where
  "restore_entries [] s = Some s"
| "restore_entries (e # es) s = do {
     s' \<leftarrow> restore_acked e (indices (pe_bundle_count e)) (add_segment (pe_seg_seq e) (pe_bundle_count e) s);
     restore_entries es s'
   }"

definition completed_before_snapshot :: "segment_seq \<Rightarrow> segment_seq option \<Rightarrow> segment_seq \<Rightarrow> bool" where
  "completed_before_snapshot oldest highest seg \<longleftrightarrow>
     (if oldest = 0 then (case highest of None \<Rightarrow> False | Some h \<Rightarrow> seg \<le> h) else seg < oldest)"

primrec add_missing ::
  "segment_seq \<Rightarrow> segment_seq option \<Rightarrow> (segment_seq \<times> 32 word) list \<Rightarrow> subscriber_state \<Rightarrow> subscriber_state" where
  "add_missing oldest highest [] s = s"
| "add_missing oldest highest (x # xs) s =
     (if map_of (ss_segments s) (fst x) \<noteq> None then add_missing oldest highest xs s
      else if completed_before_snapshot oldest highest (fst x) then add_missing oldest highest xs s
      else add_missing oldest highest xs (add_segment (fst x) (snd x) s))"

definition restore_subscriber ::
  "subscriber_id \<Rightarrow> segment_seq \<Rightarrow> progress_entry list \<Rightarrow> (segment_seq \<times> 32 word) list \<Rightarrow> subscriber_state option" where
  "restore_subscriber sid oldest entries available = do {
     s \<leftarrow> restore_entries entries (SubscriberState_new sid);
     Some (add_missing oldest (highest_persisted entries) available s)
   }"

primrec load_subscribers ::
  "crc32 \<Rightarrow> (path \<Rightarrow> io_error option) \<Rightarrow> string \<Rightarrow> disk \<Rightarrow> (segment_seq \<times> 32 word) list \<Rightarrow> subscriber_id list \<Rightarrow>
   (subscriber_id \<times> subscriber_state) list \<times> segment_seq option \<Rightarrow>
   ((subscriber_id \<times> subscriber_state) list \<times> segment_seq option) option" where
  "load_subscribers crc fault dir d available [] acc = Some acc"
| "load_subscribers crc fault dir d available (sid # sids) acc =
     (case read_progress_file crc fault (progress_file_path dir sid) d of
        Inr (oldest, entries) \<Rightarrow> do {
          s \<leftarrow> restore_subscriber sid oldest entries available;
          (let header_floor = (if oldest \<noteq> 0 then Some oldest else None);
               highest = opt_max (opt_max (snd acc) (highest_persisted entries)) header_floor in
           load_subscribers crc fault dir d available sids (AList.update sid s (fst acc), highest))
        }
      | Inl e \<Rightarrow> load_subscribers crc fault dir d available sids acc)"

definition registry_open ::
  "crc32 \<Rightarrow> io_error option \<Rightarrow> (path \<Rightarrow> io_error option) \<Rightarrow> string \<Rightarrow> bool \<Rightarrow> 'b segment_provider \<Rightarrow> disk \<Rightarrow>
   (subscriber_error + registry) option" where
  \<comment> \<open>\<open>scan_fault\<close> and \<open>fault\<close>: errors of listing the directory and of reading a file;
      \<open>exists\<close>: the answer of \<^verbatim>\<open>data_dir.exists()\<close>\<close>
  "registry_open crc scan_fault fault dir exists pr d =
     (let build = (\<lambda>(subs, highest). \<lparr>rg_data_dir = dir, rg_subscribers = subs, rg_dirty = [], rg_wakeups = 0,
                                      rg_highest_progress_segment = highest\<rparr>) in
      if \<not> exists then Some (Inr (build ([], None)))
      else (case scan_progress_files scan_fault dir d of
        Inl e \<Rightarrow> Some (Inl e)
      | Inr sids \<Rightarrow>
          (case (if sids = [] then Inr [] else collect_counts pr (pr_available_segments pr)) of
             Inl e \<Rightarrow> Some (Inl e)
           | Inr available \<Rightarrow>
               map_option (Inr \<circ> build) (load_subscribers crc fault dir d available sids ([], None)))))"

subsection \<open>Life cycle\<close>

definition set_subscriber :: "subscriber_id \<Rightarrow> subscriber_state \<Rightarrow> registry \<Rightarrow> registry" where
  "set_subscriber sid s rg = rg\<lparr>rg_subscribers := AList.update sid s (rg_subscribers rg)\<rparr>"

definition mark_dirty :: "subscriber_id \<Rightarrow> registry \<Rightarrow> registry" where
  "mark_dirty sid rg = rg\<lparr>rg_dirty := List.insert sid (rg_dirty rg)\<rparr>"

definition register :: "subscriber_id \<Rightarrow> registry \<Rightarrow> registry" where
  "register sid rg =
     (if map_of (rg_subscribers rg) sid \<noteq> None then rg
      else set_subscriber sid (SubscriberState_new sid) rg)"

primrec track_segments ::
  "'b segment_provider \<Rightarrow> segment_seq list \<Rightarrow> subscriber_state \<Rightarrow> subscriber_error option \<times> subscriber_state" where
  "track_segments pr [] s = (None, s)"
| "track_segments pr (seg # segs) s =
     (case pr_bundle_count pr seg of
        Inl e \<Rightarrow> (Some e, s)
      | Inr n \<Rightarrow> track_segments pr segs (add_segment seg n s))"

definition activate :: "'b segment_provider \<Rightarrow> subscriber_id \<Rightarrow> registry \<Rightarrow> (subscriber_error + unit) \<times> registry" where
  "activate pr sid rg =
     (case map_of (rg_subscribers rg) sid of
        None \<Rightarrow> (Inl (Err_NotFound (as_str sid)), rg)
      | Some s \<Rightarrow>
          if ss_active s then (Inr (), rg)
          else (case track_segments pr (pr_available_segments pr) s of
                  (Some e, s') \<Rightarrow> (Inl e, set_subscriber sid s' rg)
                | (None, s') \<Rightarrow> (Inr (), set_subscriber sid (state_activate s') rg)))"

definition deactivate :: "subscriber_id \<Rightarrow> registry \<Rightarrow> (subscriber_error + unit) \<times> registry" where
  "deactivate sid rg =
     (case map_of (rg_subscribers rg) sid of
        None \<Rightarrow> (Inl (Err_NotFound (as_str sid)), rg)
      | Some s \<Rightarrow> (Inr (), set_subscriber sid (state_deactivate s) rg))"

definition unregister_subscriber ::
  "subscriber_id \<Rightarrow> io_error option \<Rightarrow> registry \<Rightarrow> disk \<Rightarrow> (subscriber_error + unit) \<times> registry \<times> disk" where
  "unregister_subscriber sid fault rg d =
     (if map_of (rg_subscribers rg) sid = None then (Inl (Err_NotFound (as_str sid)), rg, d)
      else let rg' = rg\<lparr>rg_subscribers := AList.delete sid (rg_subscribers rg),
                        rg_dirty := filter (\<lambda>x. x \<noteq> sid) (rg_dirty rg)\<rparr>;
               (res, d') = delete_progress_file (rg_data_dir rg) sid fault d in (res, rg', d'))"

definition on_segment_finalized :: "segment_seq \<Rightarrow> 32 word \<Rightarrow> registry \<Rightarrow> registry" where
  "on_segment_finalized seg n rg =
     rg\<lparr>rg_subscribers := map (\<lambda>(sid, s). (sid, if ss_active s then add_segment seg n s else s)) (rg_subscribers rg),
        rg_wakeups := rg_wakeups rg + 1\<rparr>"

subsection \<open>Delivery\<close>

definition BundleHandle_new :: "bundle_ref \<Rightarrow> subscriber_id \<Rightarrow> 'b \<Rightarrow> 64 word \<Rightarrow> 'b bundle_handle" where
  "BundleHandle_new r sid data item_count =
     \<lparr>bh_bundle_ref = r, bh_subscriber_id = sid, bh_data = data, bh_resolved = False, bh_item_count = item_count\<rparr>"

definition make_handle :: "'b segment_provider \<Rightarrow> subscriber_id \<Rightarrow> bundle_ref \<Rightarrow> subscriber_error + 'b bundle_handle" where
  \<comment> \<open>the part of \<^verbatim>\<open>poll_next_bundle\<close> and \<^verbatim>\<open>claim_bundle\<close> after the lock is released\<close>
  "make_handle pr sid r =
     (case pr_read_bundle pr r of
        Inl e \<Rightarrow> Inl e
      | Inr data \<Rightarrow>
          Inr (BundleHandle_new r sid data (case pr_bundle_item_count pr r of Inr n \<Rightarrow> n | Inl e \<Rightarrow> 0)))"

definition poll_next_bundle ::
  "'b segment_provider \<Rightarrow> subscriber_id \<Rightarrow> registry \<Rightarrow> ((subscriber_error + 'b bundle_handle option) \<times> registry) option" where
  "poll_next_bundle pr sid rg =
     (case map_of (rg_subscribers rg) sid of
        None \<Rightarrow> Some (Inl (Err_NotFound (as_str sid)), rg)
      | Some s \<Rightarrow>
          if \<not> ss_active s then Some (Inl (Err_NotFound (as_str sid)), rg)
          else do {
            pending \<leftarrow> next_pending s;
            (case pending of
               None \<Rightarrow> Some (Inr None, rg)
             | Some r \<Rightarrow> do {
                 (ok, s') \<leftarrow> claim r s;
                 Some (map_sum id Some (make_handle pr sid r), set_subscriber sid s' rg)
               })
          })"

definition claim_bundle ::
  "'b segment_provider \<Rightarrow> subscriber_id \<Rightarrow> bundle_ref \<Rightarrow> registry \<Rightarrow> ((subscriber_error + 'b bundle_handle) \<times> registry) option" where
  "claim_bundle pr sid r rg =
     (case map_of (rg_subscribers rg) sid of
        None \<Rightarrow> Some (Inl (Err_NotFound (as_str sid)), rg)
      | Some s \<Rightarrow> do {
          resolved \<leftarrow> is_resolved r s;
          if resolved then Some (Inl (Err_BundleNotAvailable ''already resolved''), rg)
          else if is_claimed r s then Some (Inl (Err_BundleNotAvailable ''already claimed''), rg)
          else do {
            (ok, s') \<leftarrow> claim r s;
            if \<not> ok then Some (Inl (Err_BundleNotAvailable ''claim failed''), set_subscriber sid s' rg)
            else Some (make_handle pr sid r, set_subscriber sid s' rg)
          }
        })"

definition record_resolution :: "subscriber_id \<Rightarrow> bundle_ref \<Rightarrow> ack_outcome \<Rightarrow> registry \<Rightarrow> registry option" where
  "record_resolution sid r outcome rg =
     (case map_of (rg_subscribers rg) sid of
        None \<Rightarrow> Some (mark_dirty sid rg)
      | Some s \<Rightarrow> do {
          (fresh, s') \<leftarrow> record_outcome r outcome s;
          Some (mark_dirty sid (set_subscriber sid s' rg))
        })"

definition release_bundle :: "subscriber_id \<Rightarrow> bundle_ref \<Rightarrow> registry \<Rightarrow> registry" where
  "release_bundle sid r rg =
     (case map_of (rg_subscribers rg) sid of
        None \<Rightarrow> rg
      | Some s \<Rightarrow> set_subscriber sid (release r s) rg)"

text \<open>
  \<^verbatim>\<open>RegistryCallback\<close>, through which a handle reports its outcome to the registry.
\<close>

definition on_resolved :: "subscriber_id \<Rightarrow> bundle_ref \<Rightarrow> ack_outcome \<Rightarrow> registry \<Rightarrow> registry option" where
  [simp]: "on_resolved sid r outcome rg = record_resolution sid r outcome rg"

definition on_deferred :: "subscriber_id \<Rightarrow> bundle_ref \<Rightarrow> registry \<Rightarrow> registry" where
  [simp]: "on_deferred sid r rg = release_bundle sid r rg"

definition handle_drop :: "'b bundle_handle \<Rightarrow> registry \<Rightarrow> registry" where
  "handle_drop h rg = (if bh_resolved h then rg else on_deferred (bh_subscriber_id h) (bh_bundle_ref h) rg)"

definition handle_resolve :: "ack_outcome \<Rightarrow> 'b bundle_handle \<Rightarrow> registry \<Rightarrow> registry option" where
  \<comment> \<open>the common body of \<^verbatim>\<open>ack\<close> and \<^verbatim>\<open>reject\<close>; the handle is dropped at the end\<close>
  "handle_resolve outcome h rg =
     (let h' = h\<lparr>bh_resolved := True\<rparr> in
      map_option (handle_drop h') (on_resolved (bh_subscriber_id h') (bh_bundle_ref h') outcome rg))"

definition handle_ack :: "'b bundle_handle \<Rightarrow> registry \<Rightarrow> registry option" where
  "handle_ack = handle_resolve Outcome_Acked"

definition handle_reject :: "'b bundle_handle \<Rightarrow> registry \<Rightarrow> registry option" where
  "handle_reject = handle_resolve Outcome_Dropped"

definition handle_defer :: "'b bundle_handle \<Rightarrow> registry \<Rightarrow> bundle_ref \<times> registry" where
  "handle_defer h rg =
     (let h' = h\<lparr>bh_resolved := True\<rparr>; r = bh_bundle_ref h' in
      (r, handle_drop h' (on_deferred (bh_subscriber_id h') r rg)))"

subsection \<open>Queries\<close>

definition subscriber_count :: "registry \<Rightarrow> nat" where
  "subscriber_count rg = length (rg_subscribers rg)"

definition opt_min_list :: "'a::linorder list \<Rightarrow> 'a option" where
  "opt_min_list xs = (if xs = [] then None else Some (fold min (tl xs) (hd xs)))"

definition registry_oldest_incomplete :: "registry \<Rightarrow> segment_seq option" where
  "registry_oldest_incomplete rg =
     opt_min_list (List.map_filter (oldest_incomplete_segment \<circ> snd) (rg_subscribers rg))"

definition min_highest_tracked_segment :: "registry \<Rightarrow> segment_seq option" where
  "min_highest_tracked_segment rg =
     opt_min_list (List.map_filter (\<lambda>(sid, s). if ss_active s then highest_tracked_segment s else None) (rg_subscribers rg))"

definition cleanup_segments_before :: "segment_seq \<Rightarrow> registry \<Rightarrow> registry" where
  "cleanup_segments_before before rg =
     rg\<lparr>rg_subscribers := map (\<lambda>(sid, s). (sid, remove_completed_segments_before before s)) (rg_subscribers rg)\<rparr>"

definition cleanup_boundary :: "registry \<Rightarrow> segment_seq option" where
  \<comment> \<open>the boundary below which \<^verbatim>\<open>QuiverEngine::cleanup_completed_segments\<close> deletes segment files\<close>
  "cleanup_boundary rg =
     (case registry_oldest_incomplete rg of
        Some seg \<Rightarrow> Some seg
      | None \<Rightarrow> map_option SegmentSeq_next (min_highest_tracked_segment rg))"

definition is_registered :: "subscriber_id \<Rightarrow> registry \<Rightarrow> bool" where
  "is_registered sid rg \<longleftrightarrow> map_of (rg_subscribers rg) sid \<noteq> None"

definition registry_is_active :: "subscriber_id \<Rightarrow> registry \<Rightarrow> bool" where
  "registry_is_active sid rg \<longleftrightarrow> (case map_of (rg_subscribers rg) sid of None \<Rightarrow> False | Some s \<Rightarrow> ss_active s)"

definition pending_segment_progress ::
  "subscriber_id \<Rightarrow> registry \<Rightarrow> subscriber_error + (segment_seq \<times> segment_progress) list" where
  "pending_segment_progress sid rg =
     (case map_of (rg_subscribers rg) sid of
        None \<Rightarrow> Inl (Err_NotFound (as_str sid))
      | Some s \<Rightarrow> Inr (ss_segments s))"

definition dirty_count :: "registry \<Rightarrow> nat" where
  "dirty_count rg = length (rg_dirty rg)"

subsection \<open>Persistence\<close>

primrec flush_each ::
  "crc32 \<Rightarrow> (subscriber_id \<Rightarrow> write_faults) \<Rightarrow> string \<Rightarrow> (subscriber_id \<times> subscriber_state) list \<Rightarrow>
   nat \<times> subscriber_error option \<times> subscriber_id list \<times> disk \<Rightarrow>
   nat \<times> subscriber_error option \<times> subscriber_id list \<times> disk" where
  "flush_each crc faults dir [] acc = acc"
| "flush_each crc faults dir (x # xs) acc =
     (let (flushed, first_error, dirty, d) = acc; (sid, s) = x;
          entries = to_progress_entries s;
          oldest = (case oldest_incomplete_segment s of Some seg \<Rightarrow> seg | None \<Rightarrow> 0) in
      flush_each crc faults dir xs
        (case write_progress_file crc dir sid oldest entries (faults sid) d of
           (Inr u, d') \<Rightarrow> (flushed + 1, first_error, dirty, d')
         | (Inl e, d') \<Rightarrow>
             (flushed, (if first_error = None then Some e else first_error), List.insert sid dirty, d')))"

definition flush_progress ::
  "crc32 \<Rightarrow> (subscriber_id \<Rightarrow> write_faults) \<Rightarrow> registry \<Rightarrow> disk \<Rightarrow> (subscriber_error + nat) \<times> registry \<times> disk" where
  "flush_progress crc faults rg d =
     (if rg_dirty rg = [] then (Inr 0, rg, d)
      else let to_flush = List.map_filter
                 (\<lambda>sid. map_option (\<lambda>s. (sid, s)) (map_of (rg_subscribers rg) sid)) (rg_dirty rg);
               (flushed, first_error, dirty, d') = flush_each crc faults (rg_data_dir rg) to_flush (0, None, [], d) in
        ((case first_error of Some e \<Rightarrow> Inl e | None \<Rightarrow> Inr flushed), rg\<lparr>rg_dirty := dirty\<rparr>, d'))"

subsection \<open>Forced completion\<close>

type_synonym loss = "(segment_seq \<times> bundle_index set) list" \<comment> \<open>\<^verbatim>\<open>BTreeMap<SegmentSeq, BTreeSet<BundleIndex>>\<close>\<close>

primrec survey_pending ::
  "(subscriber_id \<times> subscriber_state) list \<Rightarrow> segment_seq set \<times> segment_seq set \<Rightarrow> segment_seq set \<times> segment_seq set" where
  "survey_pending [] acc = acc"
| "survey_pending (x # xs) acc =
     (let (pending, readers) = acc; s = snd x;
          pending' = pending \<union> pe_seg_seq ` set (filter (\<lambda>e. \<not> entry_is_complete e) (to_progress_entries s));
          readers' = readers \<union> {seg \<in> pending'. has_claimed_in_segment seg s} in
      survey_pending xs (pending', readers'))"

primrec collect_unresolved :: "bundle_index list \<Rightarrow> segment_progress \<Rightarrow> bundle_index set option" where
  "collect_unresolved [] p = Some {}"
| "collect_unresolved (i # is) p = do {
     resolved \<leftarrow> progress_is_resolved i p;
     rest \<leftarrow> collect_unresolved is p;
     Some (if resolved then rest else insert i rest)
   }"

primrec complete_segments ::
  "segment_seq list \<Rightarrow> loss \<Rightarrow> bool \<Rightarrow> subscriber_state \<Rightarrow> (loss \<times> bool \<times> subscriber_state) option" where
  "complete_segments [] loss done s = Some (loss, done, s)"
| "complete_segments (seg # segs) loss done s = do {
     loss' \<leftarrow> (case map_of (ss_segments s) seg of
                  None \<Rightarrow> Some loss
                | Some p \<Rightarrow> do {
                    set \<leftarrow> map_of loss seg;
                    new \<leftarrow> collect_unresolved (indices (sp_bundle_count p)) p;
                    Some (AList.update seg (set \<union> new) loss)
                  });
     (completed, s') \<leftarrow> force_complete_segment seg s;
     complete_segments segs loss' (done \<or> completed) s'
   }"

primrec complete_for_all ::
  "segment_seq list \<Rightarrow> (subscriber_id \<times> subscriber_state) list \<Rightarrow> loss \<Rightarrow> subscriber_id list \<Rightarrow>
   ((subscriber_id \<times> subscriber_state) list \<times> loss \<times> subscriber_id list) option" where
  "complete_for_all segs [] loss dirty = Some ([], loss, dirty)"
| "complete_for_all segs (x # xs) loss dirty = do {
     (loss1, completed, s') \<leftarrow> complete_segments segs loss False (snd x);
     (xs', loss2, dirty2) \<leftarrow> complete_for_all segs xs loss1 (if completed then List.insert (ss_id s') dirty else dirty);
     Some ((fst x, s') # xs', loss2, dirty2)
   }"

definition complete_in_registry :: "segment_seq list \<Rightarrow> loss \<Rightarrow> registry \<Rightarrow> (loss \<times> registry) option" where
  "complete_in_registry segs loss rg = do {
     (subs, loss', dirty) \<leftarrow> complete_for_all segs (rg_subscribers rg) loss (rg_dirty rg);
     Some (loss', rg\<lparr>rg_subscribers := subs, rg_dirty := dirty\<rparr>)
   }"

definition force_drop_oldest_pending_segments :: "registry \<Rightarrow> ((segment_seq list \<times> loss) \<times> registry) option" where
  \<comment> \<open>\<^verbatim>\<open>force_drop_oldest_pending_segments_with_unresolved\<close>\<close>
  "force_drop_oldest_pending_segments rg =
     (let (pending, readers) = survey_pending (rg_subscribers rg) ({}, {});
          droppable = filter (\<lambda>seg. seg \<notin> readers) (sorted_list_of_set pending) in
      if droppable = [] then Some (([], []), rg)
      else do {
        (loss, rg') \<leftarrow> complete_in_registry [hd droppable] [(hd droppable, {})] rg;
        Some (([hd droppable], loss), rg')
      })"

definition force_complete_segments :: "segment_seq list \<Rightarrow> registry \<Rightarrow> (loss option \<times> registry) option" where
  \<comment> \<open>\<^verbatim>\<open>force_complete_segments_with_unresolved\<close>\<close>
  "force_complete_segments segs rg =
     (if segs = [] then Some (Some [], rg)
      else if rg_subscribers rg = [] then Some (None, rg)
      else do {
        (loss, rg') \<leftarrow> complete_in_registry segs (fold (\<lambda>seg m. btree_insert seg {} m) segs []) rg;
        Some (Some loss, rg')
      })"

end
