(* ===== verification/Quiver_Subscriber_Laws.thy ===== *)
theory Quiver_Subscriber_Laws
  imports Quiver_Subscriber
begin

section \<open>What a subscriber state promises\<close>

text \<open>
  The laws of \<^verbatim>\<open>SegmentProgress\<close> and \<^verbatim>\<open>SubscriberState\<close>: the bitmap meets the contract
  \<open>bundle_tracker\<close>, and every operation of the state simulates an operation on plain sets of
  tracked, resolved and claimed bundles, without panicking. In particular \<^verbatim>\<open>next_pending\<close>
  returns the least bundle that is neither resolved nor claimed, in the order of
  \<^verbatim>\<open>BundleRef\<close>.
\<close>

subsection \<open>The contract of a segment bitmap\<close>

locale bundle_tracker =
  fixes inv :: "'p \<Rightarrow> bool"
    and size :: "'p \<Rightarrow> bundle_index"
    and resolved :: "'p \<Rightarrow> bundle_index set"
    and mark :: "bundle_index \<Rightarrow> 'p \<Rightarrow> (bool \<times> 'p) option"
    and test :: "bundle_index \<Rightarrow> 'p \<Rightarrow> bool option"
    and first_open :: "'p \<Rightarrow> bundle_index option"
    and complete :: "'p \<Rightarrow> bool"
  assumes resolved_below: "inv p \<Longrightarrow> i \<in> resolved p \<Longrightarrow> i < size p"
    and test_law: "inv p \<Longrightarrow> test i p = Some (i \<in> resolved p)"
    and mark_law: "inv p \<Longrightarrow> \<exists>p'. mark i p = Some (i < size p \<and> i \<notin> resolved p, p') \<and> inv p' \<and>
      size p' = size p \<and> resolved p' = resolved p \<union> ({i} \<inter> {j. j < size p})"
    and first_open_None: "inv p \<Longrightarrow> first_open p = None \<longleftrightarrow> resolved p = {j. j < size p}"
    and first_open_Some: "inv p \<Longrightarrow> first_open p = Some i \<Longrightarrow>
      i < size p \<and> i \<notin> resolved p \<and> (\<forall>j<i. j \<in> resolved p)"
    and complete_law: "inv p \<Longrightarrow> complete p \<longleftrightarrow> resolved p = {j. j < size p}"
begin

lemma mark_cases:
  assumes "inv p"
  obtains p' where "mark i p = Some (i < size p \<and> i \<notin> resolved p, p')" "inv p'" "size p' = size p"
    "resolved p' = resolved p \<union> ({i} \<inter> {j. j < size p})"
  using mark_law [OF assms, of i] by blast

lemma mark_each_resolves:
  "inv p \<Longrightarrow> \<exists>p'. mark_each mark is p = Some p' \<and> inv p' \<and> size p' = size p \<and>
     resolved p' = resolved p \<union> (set is \<inter> {j. j < size p})"
proof (induction "is" arbitrary: p)
  case (Cons i "is")
  obtain p1 where p1: "mark i p = Some (i < size p \<and> i \<notin> resolved p, p1)" "inv p1" "size p1 = size p"
    "resolved p1 = resolved p \<union> ({i} \<inter> {j. j < size p})"
    by (rule mark_cases [OF Cons.prems, of i])
  from Cons.IH [OF p1(2)] obtain p2 where "mark_each mark is p1 = Some p2" "inv p2" "size p2 = size p1"
    "resolved p2 = resolved p1 \<union> (set is \<inter> {j. j < size p1})" by blast
  then show ?case using p1 by (intro exI [of _ p2]) auto
qed simp

lemma mark_all_completes:
  assumes "inv p" "{j. j < size p} \<subseteq> set is"
  shows "\<exists>p'. mark_each mark is p = Some p' \<and> inv p' \<and> size p' = size p \<and> complete p'"
proof -
  obtain p' where p': "mark_each mark is p = Some p'" "inv p'" "size p' = size p"
    "resolved p' = resolved p \<union> (set is \<inter> {j. j < size p})"
    using mark_each_resolves [OF assms(1), of "is"] by blast
  then have "resolved p' = {j. j < size p'}" using resolved_below [OF assms(1)] assms(2) by auto
  then show ?thesis using p' complete_law [OF p'(2)] by blast
qed

lemma incomplete_has_open: "inv p \<Longrightarrow> \<not> complete p \<Longrightarrow> \<exists>i. first_open p = Some i"
  using first_open_None [of p] complete_law [of p] by (cases "first_open p") auto

lemma first_open_least:
  assumes "inv p" "first_open p = Some i" "j < size p" "j \<notin> resolved p"
  shows "i \<le> j"
  using first_open_Some [OF assms(1,2)] assms(4) not_less by blast

end

subsection \<open>\<^verbatim>\<open>SegmentProgress\<close> meets the contract\<close>

definition sp_inv :: "segment_progress \<Rightarrow> bool" where
  "sp_inv p \<longleftrightarrow> length (sp_resolved p) = words_needed (sp_bundle_count p) \<and>
     bits_of (sp_resolved p) \<subseteq> {..<unat (sp_bundle_count p)} \<and>
     unat (sp_resolved_count p) = card (bits_of (sp_resolved p))"

definition sp_set :: "segment_progress \<Rightarrow> bundle_index set" where
  "sp_set p = {i. unat i \<in> bits_of (sp_resolved p)}"

lemma sp_inv_new: "sp_inv (SegmentProgress_new count)"
  by (simp add: sp_inv_def SegmentProgress_new_def words_needed_def)

lemma sp_set_new [simp]: "sp_set (SegmentProgress_new count) = {}"
  by (simp add: sp_set_def SegmentProgress_new_def)

lemma sp_below: "sp_inv p \<Longrightarrow> i \<in> sp_set p \<Longrightarrow> i < sp_bundle_count p"
  by (auto simp: sp_inv_def sp_set_def word_less_nat_alt)

lemma sp_index:
  assumes "sp_inv p" "i < sp_bundle_count p"
  shows "unat i div 64 < length (sp_resolved p)" "unat i < 64 * length (sp_resolved p)"
proof -
  show w: "unat i div 64 < length (sp_resolved p)"
    using assms words_cover [of i "sp_bundle_count p"] by (simp add: sp_inv_def word_less_nat_alt)
  then show "unat i < 64 * length (sp_resolved p)" by (simp add: div_less_iff_less_mult mult.commute)
qed

lemma sp_mask:
  assumes "sp_inv p" "i < sp_bundle_count p"
  shows "sp_resolved p ! (unat i div 64) AND push_bit (unat i mod 64) 1 \<noteq> 0 \<longleftrightarrow> i \<in> sp_set p"
  using sp_index [OF assms] by (simp only: and_mask_nonzero mod_less_divisor sp_set_def mem_Collect_eq bits_of_iff)

lemma sp_test: "sp_inv p \<Longrightarrow> progress_is_resolved i p = Some (i \<in> sp_set p)"
proof (cases "i < sp_bundle_count p")
  case True
  assume inv: "sp_inv p"
  show ?thesis using sp_index [OF inv True] sp_mask [OF inv True] True
    by (simp add: progress_is_resolved_def Let_def word_less_nat_alt)
next
  case False
  assume "sp_inv p"
  then show ?thesis using False sp_below [of p i]
    by (auto simp: progress_is_resolved_def word_less_nat_alt)
qed

lemma sp_mark:
  assumes inv: "sp_inv p"
  shows "\<exists>p'. mark_resolved i p = Some (i < sp_bundle_count p \<and> i \<notin> sp_set p, p') \<and> sp_inv p' \<and>
    sp_bundle_count p' = sp_bundle_count p \<and> sp_set p' = sp_set p \<union> ({i} \<inter> {j. j < sp_bundle_count p})"
proof (cases "i < sp_bundle_count p")
  case False
  then show ?thesis using inv by (intro exI [of _ p]) (simp add: mark_resolved_def word_less_nat_alt)
next
  case True
  note w = sp_index [OF inv True]
  note m = sp_mask [OF inv True]
  show ?thesis
  proof (cases "i \<in> sp_set p")
    case mem: True
    then show ?thesis using inv True w m
      by (intro exI [of _ p]) (auto simp: mark_resolved_def Let_def word_less_nat_alt)
  next
    case new: False
    let ?bm = "(sp_resolved p)[unat i div 64 := sp_resolved p ! (unat i div 64) OR push_bit (unat i mod 64) 1]"
    let ?p = "p\<lparr>sp_resolved := ?bm, sp_resolved_count := sp_resolved_count p + 1\<rparr>"
    have r: "mark_resolved i p = Some (True, ?p)"
      using new True w m by (simp add: mark_resolved_def Let_def word_less_nat_alt)
    have b: "bits_of ?bm = insert (unat i) (bits_of (sp_resolved p))" by (rule bits_of_set_bit) (rule w(1))
    have ni: "unat i \<notin> bits_of (sp_resolved p)" using new by (simp add: sp_set_def)
    have sub: "insert (unat i) (bits_of (sp_resolved p)) \<subseteq> {..<unat (sp_bundle_count p)}"
      using inv True by (auto simp: sp_inv_def word_less_nat_alt)
    have "Suc (card (bits_of (sp_resolved p))) \<le> unat (sp_bundle_count p)"
      using card_mono [OF _ sub] ni by simp
    then have "sp_resolved_count p < sp_bundle_count p" using inv by (simp add: sp_inv_def word_less_nat_alt)
    then have "unat (sp_resolved_count p + 1) = Suc (unat (sp_resolved_count p))"
      using word_order.extremum_strict [of "sp_bundle_count p"] by (intro unat_succ) auto
    then have i': "sp_inv ?p" using inv b ni sub by (simp add: sp_inv_def)
    have "sp_set ?p = insert i (sp_set p)" using b by (auto simp: sp_set_def word_unat_eq_iff)
    then show ?thesis using r i' new True by (intro exI [of _ ?p]) auto
  qed
qed

lemma bits_of_Cons_low: "j < 64 \<Longrightarrow> j \<in> bits_of (w # ws) \<longleftrightarrow> bit w j"
  by (auto simp: bits_of_Cons)

lemma bits_of_Cons_high: "64 + j \<in> bits_of (w # ws) \<longleftrightarrow> j \<in> bits_of ws"
  using bit_imp_le_length [of w "64 + j"] by (auto simp: bits_of_Cons image_iff)

lemma first_clear_bound: "first_clear k count ws = Some i \<Longrightarrow> 64 * k \<le> unat i \<and> unat i < unat count"
proof (induction ws arbitrary: k)
  case (Cons w ws)
  show ?case
  proof (cases "first_clear (k + 1) count ws = Some i")
    case True
    then show ?thesis using Cons.IH [OF True] by simp
  next
    case False
    define b where "b = k * 64 + trailing_zeros (NOT w)"
    have "b < unat count" "i = of_nat b"
      using Cons.prems False by (auto simp: b_def Let_def split: if_splits)
    moreover from this have "unat (of_nat b :: 32 word) = b"
      using unsigned_less [where ?'a = nat, of count] by (simp add: unat_of_nat)
    ultimately show ?thesis by (simp add: b_def)
  qed
qed simp

lemma not_all_ones:
  assumes "(w :: 64 word) \<noteq> - 1"
  shows "trailing_zeros (NOT w) < 64" "\<not> bit w (trailing_zeros (NOT w))"
    "j < trailing_zeros (NOT w) \<Longrightarrow> bit w j"
proof -
  have nz: "NOT w \<noteq> 0" using assms by (metis bit.compl_zero bit.double_compl)
  note f = trailing_zeros_first [OF nz]
  show l: "trailing_zeros (NOT w) < 64" using f(2) by simp
  show "\<not> bit w (trailing_zeros (NOT w))" using f(1) by (simp add: bit_not_iff)
  show "j < trailing_zeros (NOT w) \<Longrightarrow> bit w j" using f(3) [of j] l by (simp add: bit_not_iff)
qed

lemma first_clear_first:
  assumes "first_clear k count ws = Some i"
  obtains j where "unat i = 64 * k + j" "j < 64 * length ws" "j \<notin> bits_of ws" "\<forall>m<j. m \<in> bits_of ws"
  using assms
proof (induction ws arbitrary: k thesis)
  case (Cons w ws)
  have skip: "thesis" if w: "w = - 1" and f: "first_clear (k + 1) count ws = Some i"
  proof (rule Cons.IH [OF _ f])
    fix j assume j: "unat i = 64 * (k + 1) + j" "j < 64 * length ws" "j \<notin> bits_of ws" "\<forall>m<j. m \<in> bits_of ws"
    have "m \<in> bits_of (w # ws)" if m: "m < 64 + j" for m
    proof (cases "m < 64")
      case True
      then show ?thesis using w by (simp add: bits_of_Cons_low)
    next
      case False
      then obtain m' where "m = 64 + m'" using le_iff_add [of 64 m] by auto
      then show ?thesis using m j(4) by (simp add: bits_of_Cons_high)
    qed
    then show thesis using j by (intro Cons.prems(1) [of "64 + j"]) (simp_all add: bits_of_Cons_high)
  qed
  show ?case
  proof (cases "w = - 1")
    case True
    then show ?thesis using skip Cons.prems(2) by simp
  next
    case False
    note t = not_all_ones [OF False]
    define b where "b = k * 64 + trailing_zeros (NOT w)"
    show ?thesis
    proof (cases "b < unat count")
      case True
      then have "i = of_nat b" using Cons.prems(2) False by (simp add: b_def)
      then have "unat i = b"
        using True unsigned_less [where ?'a = nat, of count] by (simp add: unat_of_nat)
      then show ?thesis using t
        by (intro Cons.prems(1) [of "trailing_zeros (NOT w)"]) (simp_all add: b_def bits_of_Cons_low)
    next
      case nb: False
      then have "first_clear (k + 1) count ws = Some i" using Cons.prems(2) False by (simp add: b_def)
      then have "64 * (k + 1) \<le> unat i \<and> unat i < unat count" by (rule first_clear_bound)
      then show ?thesis using nb t(1) by (simp add: b_def)
    qed
  qed
qed simp

lemma first_clear_none:
  "first_clear k count ws = None \<Longrightarrow> j < 64 * length ws \<Longrightarrow> 64 * k + j < unat count \<Longrightarrow> j \<in> bits_of ws"
proof (induction ws arbitrary: k j)
  case (Cons w ws)
  show ?case
  proof (cases "j < 64")
    case True
    show ?thesis
    proof (cases "w = - 1")
      case False
      note t = not_all_ones [OF False]
      have "\<not> k * 64 + trailing_zeros (NOT w) < unat count"
        using Cons.prems(1) False by (auto simp: Let_def split: if_splits)
      then show ?thesis using Cons.prems(3) t(3) [of j] True by (simp add: bits_of_Cons_low)
    qed (simp add: bits_of_Cons_low True)
  next
    case False
    then obtain m where m: "j = 64 + m" using le_iff_add [of 64 j] by auto
    have "first_clear (k + 1) count ws = None" using Cons.prems(1) by (auto simp: Let_def split: if_splits)
    then have "m \<in> bits_of ws" using Cons.prems(2,3) m by (intro Cons.IH) auto
    then show ?thesis by (simp add: m bits_of_Cons_high)
  qed
qed simp

lemma sp_index_of_nat:
  assumes "m < unat (count :: 32 word)"
  shows "unat (of_nat m :: 32 word) = m" "(of_nat m :: 32 word) < count"
  using assms unsigned_less [where ?'a = nat, of count] by (simp_all add: unat_of_nat word_less_nat_alt)

lemma sp_full_iff:
  assumes inv: "sp_inv p"
  shows "sp_set p = {j. j < sp_bundle_count p} \<longleftrightarrow> bits_of (sp_resolved p) = {..<unat (sp_bundle_count p)}"
proof
  assume full: "sp_set p = {j. j < sp_bundle_count p}"
  have "m \<in> bits_of (sp_resolved p)" if "m < unat (sp_bundle_count p)" for m
  proof -
    have "of_nat m \<in> sp_set p" unfolding full using sp_index_of_nat(2) [OF that] by simp
    then show ?thesis using sp_index_of_nat(1) [OF that] by (simp add: sp_set_def)
  qed
  then show "bits_of (sp_resolved p) = {..<unat (sp_bundle_count p)}" using inv by (auto simp: sp_inv_def)
next
  assume "bits_of (sp_resolved p) = {..<unat (sp_bundle_count p)}"
  then show "sp_set p = {j. j < sp_bundle_count p}" by (auto simp: sp_set_def word_less_nat_alt)
qed

lemma sp_complete: "sp_inv p \<Longrightarrow> progress_is_complete p \<longleftrightarrow> sp_set p = {j. j < sp_bundle_count p}"
proof -
  assume inv: "sp_inv p"
  have "sp_resolved_count p = sp_bundle_count p \<longleftrightarrow> card (bits_of (sp_resolved p)) = card {..<unat (sp_bundle_count p)}"
    using inv by (simp add: sp_inv_def word_unat_eq_iff)
  also have "\<dots> \<longleftrightarrow> bits_of (sp_resolved p) = {..<unat (sp_bundle_count p)}"
    using inv card_subset_eq [of "{..<unat (sp_bundle_count p)}" "bits_of (sp_resolved p)"]
    by (auto simp: sp_inv_def)
  finally show ?thesis using sp_full_iff [OF inv] by (simp add: progress_is_complete_def)
qed

lemma sp_next_none:
  assumes inv: "sp_inv p"
  shows "next_unresolved p = None \<longleftrightarrow> sp_set p = {j. j < sp_bundle_count p}"
proof
  assume n: "next_unresolved p = None"
  have "m \<in> bits_of (sp_resolved p)" if m: "m < unat (sp_bundle_count p)" for m
  proof (rule first_clear_none [OF n [unfolded next_unresolved_def]])
    show "m < 64 * length (sp_resolved p)"
      using sp_index(2) [OF inv sp_index_of_nat(2) [OF m]] sp_index_of_nat(1) [OF m] by simp
  qed (simp add: m)
  then show "sp_set p = {j. j < sp_bundle_count p}"
    using inv sp_full_iff [OF inv] by (auto simp: sp_inv_def)
next
  assume full: "sp_set p = {j. j < sp_bundle_count p}"
  show "next_unresolved p = None"
  proof (rule ccontr)
    assume "next_unresolved p \<noteq> None"
    then obtain i where i: "first_clear 0 (sp_bundle_count p) (sp_resolved p) = Some i"
      by (auto simp: next_unresolved_def)
    obtain j where "unat i = 64 * 0 + j" "j \<notin> bits_of (sp_resolved p)" by (rule first_clear_first [OF i])
    then show False using first_clear_bound [OF i] full sp_full_iff [OF inv] by simp
  qed
qed

lemma sp_next_some:
  assumes inv: "sp_inv p" and n: "next_unresolved p = Some i"
  shows "i < sp_bundle_count p \<and> i \<notin> sp_set p \<and> (\<forall>j<i. j \<in> sp_set p)"
proof -
  note i = n [unfolded next_unresolved_def]
  obtain j where "unat i = 64 * 0 + j" "j \<notin> bits_of (sp_resolved p)" "\<forall>m<j. m \<in> bits_of (sp_resolved p)"
    by (rule first_clear_first [OF i])
  then show ?thesis using first_clear_bound [OF i] by (simp add: sp_set_def word_less_nat_alt)
qed

interpretation sp: bundle_tracker sp_inv sp_bundle_count sp_set mark_resolved progress_is_resolved
  next_unresolved progress_is_complete
  by unfold_locales (fact sp_below sp_test sp_mark sp_next_none sp_next_some sp_complete)+

subsection \<open>Ordered maps and least elements\<close>

definition btree :: "('k::linorder \<times> 'v) list \<Rightarrow> bool" where
  "btree m \<longleftrightarrow> sorted_wrt (<) (map fst m)"

lemma btree_Cons: "btree ((k, v) # m) \<longleftrightarrow> (\<forall>x \<in> set m. k < fst x) \<and> btree m"
  by (auto simp: btree_def)

lemma btree_distinct: "btree m \<Longrightarrow> distinct (map fst m)"
  unfolding btree_def by (simp add: strict_sorted_iff)

lemma btree_insert_keys: "fst ` set (btree_insert k v m) = insert k (fst ` set m)"
  by (induction k v m rule: btree_insert.induct) auto

lemma btree_insert_btree: "btree m \<Longrightarrow> btree (btree_insert k v m)"
proof (induction k v m rule: btree_insert.induct)
  case (2 k v k1 v1 m)
  have "\<forall>x \<in> set (btree_insert k v m). k1 < fst x" if "k1 < k"
  proof
    fix x assume "x \<in> set (btree_insert k v m)"
    then have "fst x \<in> insert k (fst ` set m)" using btree_insert_keys [of k v m] by blast
    then show "k1 < fst x" using 2 that by (auto simp: btree_Cons)
  qed
  then show ?case using 2 by (auto simp: btree_Cons)
qed (simp add: btree_def)

lemma btree_insert_lookup: "btree m \<Longrightarrow> map_of (btree_insert k v m) = (map_of m)(k \<mapsto> v)"
  by (induction k v m rule: btree_insert.induct) (auto simp: btree_Cons fun_eq_iff)

lemma btree_update: "btree m \<Longrightarrow> k \<in> fst ` set m \<Longrightarrow> btree (AList.update k v m)"
  by (simp add: btree_def AList.update_keys)

lemma btree_filter: "btree m \<Longrightarrow> btree (filter P m)"
  by (induction m) (auto simp: btree_def)

definition lowest :: "'a::linorder set \<Rightarrow> 'a option" where
  "lowest A = (if A = {} then None else Some (Min A))"

lemma lowest_eq: "finite A \<Longrightarrow> a \<in> A \<Longrightarrow> (\<And>x. x \<in> A \<Longrightarrow> a \<le> x) \<Longrightarrow> lowest A = Some a"
  by (auto simp: lowest_def intro: Min_eqI)

lemma lowest_Un:
  assumes fin: "finite (A \<union> B)" and less: "\<And>a b. a \<in> A \<Longrightarrow> b \<in> B \<Longrightarrow> a < b"
  shows "lowest (A \<union> B) = (case lowest A of None \<Rightarrow> lowest B | Some a \<Rightarrow> Some a)"
proof (cases "A = {}")
  case False
  then have m: "Min A \<in> A" "\<And>x. x \<in> A \<Longrightarrow> Min A \<le> x" using fin by simp_all
  then have "lowest (A \<union> B) = Some (Min A)" using fin less [OF m(1)] by (intro lowest_eq) (auto intro: less_imp_le)
  then show ?thesis using False by (simp add: lowest_def)
qed (simp add: lowest_def)

lemma find_sorted_lowest: "sorted_wrt (<) xs \<Longrightarrow> find P xs = lowest {x \<in> set xs. P x}"
proof (induction xs)
  case (Cons x xs)
  show ?case
  proof (cases "P x")
    case True
    then have "lowest {y \<in> set (x # xs). P y} = Some x"
      using Cons.prems by (intro lowest_eq) (auto intro: less_imp_le)
    then show ?thesis using True by simp
  next
    case False
    then have "{y \<in> set (x # xs). P y} = {y \<in> set xs. P y}" by auto
    then show ?thesis using Cons False by simp
  qed
qed (simp add: lowest_def)

subsection \<open>The next pending bundle\<close>

definition open_refs :: "(segment_seq \<times> segment_progress) list \<Rightarrow> bundle_ref set" where
  "open_refs segs = {r. \<exists>p. (segment_seq r, p) \<in> set segs \<and> bundle_index r < sp_bundle_count p \<and>
     bundle_index r \<notin> sp_set p}"

lemma open_refs_Nil [simp]: "open_refs [] = {}"
  by (simp add: open_refs_def)

lemma open_refs_Cons:
  "open_refs ((seg, p) # segs) =
     Bundle_Ref seg ` {i. i < sp_bundle_count p \<and> i \<notin> sp_set p} \<union> open_refs segs"
proof (rule set_eqI)
  fix r
  show "r \<in> open_refs ((seg, p) # segs) \<longleftrightarrow>
      r \<in> Bundle_Ref seg ` {i. i < sp_bundle_count p \<and> i \<notin> sp_set p} \<union> open_refs segs"
    by (cases r) (auto simp: open_refs_def)
qed

lemma finite_refs [simp]: "finite (A :: bundle_ref set)"
proof -
  have "A \<subseteq> (\<lambda>(s, i). Bundle_Ref s i) ` (UNIV \<times> UNIV)"
  proof
    fix r
    assume "r \<in> A"
    show "r \<in> (\<lambda>(s, i). Bundle_Ref s i) ` (UNIV \<times> UNIV)"
      by (rule image_eqI [of _ _ "(segment_seq r, bundle_index r)"]) simp_all
  qed
  then show ?thesis by (rule finite_subset) (intro finite_imageI finite_cartesian_product finite)
qed

lemma first_unclaimed_find:
  "sp_inv p \<Longrightarrow> first_unclaimed claimed seg p is =
     Some (find (\<lambda>r. bundle_index r \<notin> sp_set p \<and> r \<notin> claimed) (map (Bundle_Ref seg) is))"
  by (induction "is") (simp_all add: sp.test_law)

lemma refs_sorted: "sorted_wrt (<) (map (Bundle_Ref seg \<circ> of_nat) [a..<unat (count :: 32 word)])"
proof -
  have "sorted_wrt (\<lambda>x y. Bundle_Ref seg (of_nat x) < Bundle_Ref seg (of_nat y)) [a..<unat count]"
  proof (rule sorted_wrt_mono_rel [of _ "(<)"])
    fix x y assume "x \<in> set [a..<unat count]" "y \<in> set [a..<unat count]" "x < y"
    then show "Bundle_Ref seg (of_nat x) < Bundle_Ref seg (of_nat y)"
      using sp_index_of_nat(1) [of x count] sp_index_of_nat(1) [of y count]
      by (simp add: bundle_ref_less word_less_nat_alt)
  qed simp
  then show ?thesis by (simp add: sorted_wrt_map)
qed

lemma first_unclaimed_lowest:
  assumes inv: "sp_inv p" and i: "next_unresolved p = Some i" and cl: "Bundle_Ref seg i \<in> claimed"
  shows "first_unclaimed claimed seg p (map of_nat [unat i + 1..<unat (sp_bundle_count p)]) =
    Some (lowest (Bundle_Ref seg ` {i. i < sp_bundle_count p \<and> i \<notin> sp_set p} - claimed))"
proof -
  let ?xs = "map (Bundle_Ref seg \<circ> of_nat) [unat i + 1..<unat (sp_bundle_count p)]"
  let ?P = "\<lambda>r. bundle_index r \<notin> sp_set p \<and> r \<notin> claimed"
  have "{r \<in> set ?xs. ?P r} = Bundle_Ref seg ` {i. i < sp_bundle_count p \<and> i \<notin> sp_set p} - claimed" (is "?L = ?R")
  proof
    show "?L \<subseteq> ?R" using sp_index_of_nat(2) by fastforce
    show "?R \<subseteq> ?L"
    proof
      fix r assume r: "r \<in> ?R"
      then obtain j where j: "r = Bundle_Ref seg j" "j < sp_bundle_count p" "j \<notin> sp_set p" "r \<notin> claimed" by auto
      then have "i \<le> j" "j \<noteq> i" using sp.first_open_least [OF inv i] cl by auto
      then have "unat i + 1 \<le> unat j" "unat j < unat (sp_bundle_count p)"
        using j(2) by (auto simp: word_le_nat_alt word_less_nat_alt word_unat_eq_iff)
      then have "unat j \<in> set [unat i + 1..<unat (sp_bundle_count p)]" by simp
      then have "r \<in> set ?xs" using j(1) by (simp only: set_map) (rule image_eqI [of _ _ "unat j"], simp_all)
      then show "r \<in> ?L" using j by simp
    qed
  qed
  then show ?thesis
    using find_sorted_lowest [OF refs_sorted, of ?P seg "unat i + 1" "sp_bundle_count p"]
      first_unclaimed_find [OF inv] by simp
qed

lemma next_pending_from_lowest:
  "btree segs \<Longrightarrow> \<forall>x \<in> set segs. sp_inv (snd x) \<Longrightarrow>
   next_pending_from claimed segs = Some (lowest (open_refs segs - claimed))"
proof (induction claimed segs rule: next_pending_from.induct)
  case (1 claimed)
  then show ?case by (simp add: lowest_def)
next
  case (2 claimed seg p segs)
  let ?A = "Bundle_Ref seg ` {i. i < sp_bundle_count p \<and> i \<notin> sp_set p} - claimed"
  let ?B = "open_refs segs - claimed"
  have inv: "sp_inv p" and b: "btree segs" and bs: "\<forall>x \<in> set segs. sp_inv (snd x)"
    using "2.prems" by (simp_all add: btree_Cons)
  have "a < r" if "a \<in> ?A" "r \<in> ?B" for a r
  proof -
    have "seg < segment_seq r" using that(2) "2.prems"(1) by (force simp: open_refs_def btree_Cons)
    then show ?thesis using that(1) by (cases r) (auto simp: bundle_ref_less)
  qed
  then have split: "lowest (open_refs ((seg, p) # segs) - claimed) =
      (case lowest ?A of None \<Rightarrow> lowest ?B | Some a \<Rightarrow> Some a)"
    unfolding open_refs_Cons Un_Diff by (intro lowest_Un) simp_all
  show ?case
  proof (cases "next_unresolved p")
    case None
    then have "?A = {}" using sp.first_open_None [OF inv] by auto
    then show ?thesis using None "2.IH"(1) [OF None b bs] split by (simp add: lowest_def)
  next
    case (Some i)
    note f = sp.first_open_Some [OF inv Some]
    show ?thesis
    proof (cases "Bundle_Ref seg i \<in> claimed")
      case False
      have "lowest ?A = Some (Bundle_Ref seg i)"
        using f False sp.first_open_least [OF inv Some] by (intro lowest_eq) (auto simp: bundle_ref_less_eq)
      then show ?thesis using Some False split by simp
    next
      case True
      show ?thesis
      proof (cases "lowest ?A")
        case None
        then have fu: "first_unclaimed claimed seg p (map of_nat [unat i + 1..<unat (sp_bundle_count p)]) = Some None"
          using first_unclaimed_lowest [OF inv Some True] by simp
        then show ?thesis using Some True None split "2.IH"(2) [OF Some _ fu refl b bs] by simp
      next
        case (Some a)
        then show ?thesis using \<open>next_unresolved p = Some i\<close> True split first_unclaimed_lowest [OF inv _ True] by simp
      qed
    qed
  qed
qed

subsection \<open>Tracking as sets\<close>

record tracking =
  tk_sizes :: "segment_seq \<Rightarrow> 32 word option"
  tk_resolved :: "bundle_ref set"
  tk_claimed :: "bundle_ref set"
  tk_active :: bool

definition tk_pending :: "tracking \<Rightarrow> bundle_ref set" where
  "tk_pending t = {r. \<exists>n. tk_sizes t (segment_seq r) = Some n \<and> bundle_index r < n} - tk_resolved t"

definition tracking_of :: "subscriber_state \<Rightarrow> tracking" where
  "tracking_of s =
     \<lparr>tk_sizes = map_option sp_bundle_count \<circ> map_of (ss_segments s),
      tk_resolved = {r. \<exists>p. map_of (ss_segments s) (segment_seq r) = Some p \<and> bundle_index r \<in> sp_set p},
      tk_claimed = ss_claimed s, tk_active = ss_active s\<rparr>"

definition ss_inv :: "subscriber_state \<Rightarrow> bool" where
  "ss_inv s \<longleftrightarrow> btree (ss_segments s) \<and> (\<forall>x \<in> set (ss_segments s). sp_inv (snd x)) \<and>
     ss_claimed s \<inter> tk_resolved (tracking_of s) = {}"

datatype state_op =
    St_Add segment_seq "32 word" | St_Outcome bundle_ref ack_outcome | St_Claim bundle_ref
  | St_Release bundle_ref | St_Next | St_Force segment_seq | St_Forget segment_seq
  | St_Activate | St_Deactivate | St_Resolved bundle_ref | St_Oldest | St_Pending_Count

datatype state_out =
    Out_Unit | Out_Bool bool | Out_Ref "bundle_ref option" | Out_Seg "segment_seq option" | Out_Count nat

fun exec_state :: "state_op \<Rightarrow> subscriber_state \<Rightarrow> (state_out \<times> subscriber_state) option" where
  "exec_state (St_Add seg n) s = Some (Out_Unit, add_segment seg n s)"
| "exec_state (St_Outcome r out) s = map_option (apfst Out_Bool) (record_outcome r out s)"
| "exec_state (St_Claim r) s = map_option (apfst Out_Bool) (claim r s)"
| "exec_state (St_Release r) s = Some (Out_Unit, release r s)"
| "exec_state St_Next s = map_option (\<lambda>x. (Out_Ref x, s)) (next_pending s)"
| "exec_state (St_Force seg) s = map_option (apfst Out_Bool) (force_complete_segment seg s)"
| "exec_state (St_Forget seg) s = Some (Out_Unit, remove_completed_segments_before seg s)"
| "exec_state St_Activate s = Some (Out_Unit, state_activate s)"
| "exec_state St_Deactivate s = Some (Out_Unit, state_deactivate s)"
| "exec_state (St_Resolved r) s = map_option (\<lambda>b. (Out_Bool b, s)) (is_resolved r s)"
| "exec_state St_Oldest s = Some (Out_Seg (oldest_incomplete_segment s), s)"
| "exec_state St_Pending_Count s = Some (Out_Count (pending_count s), s)"

fun exec_tracking :: "state_op \<Rightarrow> tracking \<Rightarrow> state_out \<times> tracking" where
  "exec_tracking (St_Add seg n) t =
     (Out_Unit, if tk_sizes t seg = None then t\<lparr>tk_sizes := (tk_sizes t)(seg \<mapsto> n)\<rparr> else t)"
| "exec_tracking (St_Outcome r out) t =
     (Out_Bool (r \<in> tk_pending t),
      t\<lparr>tk_resolved := tk_resolved t \<union> ({r} \<inter> tk_pending t), tk_claimed := tk_claimed t - {r}\<rparr>)"
| "exec_tracking (St_Claim r) t =
     (if r \<in> tk_resolved t then (Out_Bool False, t)
      else (Out_Bool (r \<notin> tk_claimed t), t\<lparr>tk_claimed := insert r (tk_claimed t)\<rparr>))"
| "exec_tracking (St_Release r) t = (Out_Unit, t\<lparr>tk_claimed := tk_claimed t - {r}\<rparr>)"
| "exec_tracking St_Next t = (Out_Ref (lowest (tk_pending t - tk_claimed t)), t)"
| "exec_tracking (St_Force seg) t =
     (Out_Bool (tk_sizes t seg \<noteq> None),
      t\<lparr>tk_resolved := tk_resolved t \<union> {r \<in> tk_pending t. segment_seq r = seg},
        tk_claimed := {r \<in> tk_claimed t. segment_seq r \<noteq> seg}\<rparr>)"
| "exec_tracking (St_Forget before) t =
     (let kept = {seg. before \<le> seg} \<union> segment_seq ` tk_pending t in
      (Out_Unit, t\<lparr>tk_sizes := tk_sizes t |` kept, tk_resolved := {r \<in> tk_resolved t. segment_seq r \<in> kept}\<rparr>))"
| "exec_tracking St_Activate t = (Out_Unit, t\<lparr>tk_active := True\<rparr>)"
| "exec_tracking St_Deactivate t = (Out_Unit, t\<lparr>tk_active := False\<rparr>)"
| "exec_tracking (St_Resolved r) t = (Out_Bool (r \<in> tk_resolved t), t)"
| "exec_tracking St_Oldest t = (Out_Seg (lowest (segment_seq ` tk_pending t)), t)"
| "exec_tracking St_Pending_Count t = (Out_Count (card (tk_pending t)), t)"

subsection \<open>Simulation of each operation\<close>

lemma tracking_of_simps [simp]:
  "tk_sizes (tracking_of s) seg = map_option sp_bundle_count (map_of (ss_segments s) seg)"
  "tk_claimed (tracking_of s) = ss_claimed s" "tk_active (tracking_of s) = ss_active s"
  by (simp_all add: tracking_of_def)

lemma resolved_iff:
  "r \<in> tk_resolved (tracking_of s) \<longleftrightarrow> (\<exists>p. map_of (ss_segments s) (segment_seq r) = Some p \<and> bundle_index r \<in> sp_set p)"
  by (simp add: tracking_of_def)

lemma pending_iff:
  "r \<in> tk_pending (tracking_of s) \<longleftrightarrow>
     (\<exists>p. map_of (ss_segments s) (segment_seq r) = Some p \<and> bundle_index r < sp_bundle_count p \<and> bundle_index r \<notin> sp_set p)"
  by (auto simp: tk_pending_def resolved_iff)

lemma ss_inv_segment: "ss_inv s \<Longrightarrow> map_of (ss_segments s) seg = Some p \<Longrightarrow> sp_inv p"
  unfolding ss_inv_def using map_of_SomeD [of "ss_segments s" seg p] by force

lemma open_refs_pending:
  assumes "ss_inv s"
  shows "open_refs (ss_segments s) = tk_pending (tracking_of s)"
proof -
  have "distinct (map fst (ss_segments s))" using assms by (simp add: ss_inv_def btree_distinct)
  then have "(seg, p) \<in> set (ss_segments s) \<longleftrightarrow> map_of (ss_segments s) seg = Some p" for seg p by simp
  then show ?thesis by (auto simp: open_refs_def pending_iff)
qed

lemma tracking_eqI:
  assumes "\<And>seg. tk_sizes t seg = tk_sizes u seg" "\<And>r. r \<in> tk_resolved t \<longleftrightarrow> r \<in> tk_resolved u"
    "tk_claimed t = tk_claimed u" "tk_active t = tk_active u"
  shows "t = (u :: tracking)"
proof -
  have "tk_sizes t = tk_sizes u" "tk_resolved t = tk_resolved u" using assms(1,2) by auto
  then show ?thesis using assms(3,4) by simp
qed

lemma update_segment:
  assumes inv: "ss_inv s" and p: "map_of (ss_segments s) seg = Some p" and p': "sp_inv p'"
    and n: "sp_bundle_count p' = sp_bundle_count p"
    and cl: "\<forall>r \<in> cs. r \<in> ss_claimed s \<and> (segment_seq r = seg \<longrightarrow> bundle_index r \<notin> sp_set p')"
  defines "s' \<equiv> s\<lparr>ss_claimed := cs, ss_segments := AList.update seg p' (ss_segments s)\<rparr>"
  shows "ss_inv s'" "tracking_of s' = (tracking_of s)\<lparr>tk_claimed := cs,
    tk_resolved := {r. if segment_seq r = seg then bundle_index r \<in> sp_set p' else r \<in> tk_resolved (tracking_of s)}\<rparr>"
proof -
  have lk: "map_of (ss_segments s') = (map_of (ss_segments s))(seg \<mapsto> p')"
    by (simp add: s'_def update_conv')
  have k: "seg \<in> fst ` set (ss_segments s)" using p by (auto dest: map_of_SomeD intro: rev_image_eqI)
  have b: "btree (ss_segments s')" unfolding s'_def using inv k by (simp add: ss_inv_def btree_update)
  have "sp_inv q" if "(k, q) \<in> set (ss_segments s')" for k q
  proof -
    have "map_of (ss_segments s') k = Some q" using that b by (simp add: btree_distinct)
    then show ?thesis using lk p' ss_inv_segment [OF inv] by (auto split: if_splits)
  qed
  moreover have res: "r \<in> tk_resolved (tracking_of s') \<longleftrightarrow>
      (if segment_seq r = seg then bundle_index r \<in> sp_set p' else r \<in> tk_resolved (tracking_of s))" for r
    by (simp add: resolved_iff lk)
  moreover have "ss_claimed s' = cs" by (simp add: s'_def)
  ultimately show "ss_inv s'" using b cl inv unfolding ss_inv_def by (auto split: if_splits)
  show "tracking_of s' = (tracking_of s)\<lparr>tk_claimed := cs,
    tk_resolved := {r. if segment_seq r = seg then bundle_index r \<in> sp_set p' else r \<in> tk_resolved (tracking_of s)}\<rparr>"
    by (rule tracking_eqI) (use res p n in \<open>simp_all add: lk\<close>, simp_all add: s'_def)
qed

lemma record_outcome_tracks:
  assumes inv: "ss_inv s"
  shows "\<exists>s'. record_outcome r out s = Some (r \<in> tk_pending (tracking_of s), s') \<and> ss_inv s' \<and>
    ss_id s' = ss_id s \<and>
    tracking_of s' = (tracking_of s)\<lparr>tk_resolved := tk_resolved (tracking_of s) \<union> ({r} \<inter> tk_pending (tracking_of s)),
                          tk_claimed := ss_claimed s - {r}\<rparr>"
proof (cases "map_of (ss_segments s) (segment_seq r)")
  case None
  let ?s = "s\<lparr>ss_claimed := ss_claimed s - {r}\<rparr>"
  have np: "r \<notin> tk_pending (tracking_of s)" using None by (simp add: pending_iff)
  have "tracking_of ?s = (tracking_of s)\<lparr>tk_claimed := ss_claimed s - {r}\<rparr>" by (simp add: tracking_of_def)
  then show ?thesis using None inv np
    by (intro exI [of _ ?s]) (auto simp: record_outcome_def ss_inv_def)
next
  case (Some p)
  have pi: "sp_inv p" by (rule ss_inv_segment [OF inv Some])
  obtain p' where m: "mark_resolved (bundle_index r) p =
      Some (bundle_index r < sp_bundle_count p \<and> bundle_index r \<notin> sp_set p, p')"
    and p': "sp_inv p'" "sp_bundle_count p' = sp_bundle_count p"
    "sp_set p' = sp_set p \<union> ({bundle_index r} \<inter> {j. j < sp_bundle_count p})"
    by (rule sp.mark_cases [OF pi, of "bundle_index r"])
  have pend: "r \<in> tk_pending (tracking_of s) \<longleftrightarrow> bundle_index r < sp_bundle_count p \<and> bundle_index r \<notin> sp_set p"
    using Some by (simp add: pending_iff)
  let ?s = "s\<lparr>ss_claimed := ss_claimed s - {r}, ss_segments := AList.update (segment_seq r) p' (ss_segments s)\<rparr>"
  have cl: "\<forall>q \<in> ss_claimed s - {r}. q \<in> ss_claimed s \<and> (segment_seq q = segment_seq r \<longrightarrow> bundle_index q \<notin> sp_set p')"
  proof
    fix q assume q: "q \<in> ss_claimed s - {r}"
    have "bundle_index q \<notin> sp_set p'" if "segment_seq q = segment_seq r"
    proof -
      have "q \<notin> tk_resolved (tracking_of s)" using q inv by (auto simp: ss_inv_def)
      moreover have "bundle_index q \<noteq> bundle_index r" using q that by (auto intro: bundle_ref.expand)
      ultimately show ?thesis using Some that p'(3) by (auto simp: resolved_iff)
    qed
    then show "q \<in> ss_claimed s \<and> (segment_seq q = segment_seq r \<longrightarrow> bundle_index q \<notin> sp_set p')" using q by simp
  qed
  note u = update_segment [OF inv Some p'(1,2) cl]
  have "{q. if segment_seq q = segment_seq r then bundle_index q \<in> sp_set p' else q \<in> tk_resolved (tracking_of s)} =
      tk_resolved (tracking_of s) \<union> ({r} \<inter> tk_pending (tracking_of s))" (is "?L = ?R")
  proof (rule set_eqI)
    fix q
    have "q = r \<longleftrightarrow> segment_seq q = segment_seq r \<and> bundle_index q = bundle_index r" by (auto intro: bundle_ref.expand)
    then show "q \<in> ?L \<longleftrightarrow> q \<in> ?R" using Some p'(3) pend by (auto simp: resolved_iff)
  qed
  then show ?thesis using u m pend Some
    by (intro exI [of _ ?s]) (simp add: record_outcome_def)
qed

lemma set_indices: "set (indices count) = {j. j < count}"
proof (rule set_eqI)
  fix j
  show "j \<in> set (indices count) \<longleftrightarrow> j \<in> {j. j < count}"
  proof
    assume "j \<in> set (indices count)"
    then show "j \<in> {j. j < count}" by (auto simp: indices_def sp_index_of_nat)
  next
    assume "j \<in> {j. j < count}"
    then have "unat j \<in> {0..<unat count}" by (simp add: word_less_nat_alt)
    then show "j \<in> set (indices count)"
      unfolding indices_def set_map set_upt by (rule image_eqI [of _ _ "unat j", rotated]) simp
  qed
qed

lemma force_complete_tracks:
  assumes inv: "ss_inv s"
  shows "\<exists>s'. force_complete_segment seg s = Some (tk_sizes (tracking_of s) seg \<noteq> None, s') \<and> ss_inv s' \<and>
    ss_id s' = ss_id s \<and>
    tracking_of s' = (tracking_of s)\<lparr>tk_resolved := tk_resolved (tracking_of s) \<union> {r \<in> tk_pending (tracking_of s). segment_seq r = seg},
                          tk_claimed := {r \<in> ss_claimed s. segment_seq r \<noteq> seg}\<rparr>"
proof (cases "map_of (ss_segments s) seg")
  case None
  let ?s = "s\<lparr>ss_claimed := {r \<in> ss_claimed s. segment_seq r \<noteq> seg}\<rparr>"
  have e: "{r \<in> tk_pending (tracking_of s). segment_seq r = seg} = {}" using None by (auto simp: pending_iff)
  have t: "tracking_of ?s = (tracking_of s)\<lparr>tk_claimed := {r \<in> ss_claimed s. segment_seq r \<noteq> seg}\<rparr>"
    by (simp add: tracking_of_def)
  have "ss_inv ?s" using inv unfolding ss_inv_def t by auto
  then show ?thesis unfolding e using None t
    by (intro exI [of _ ?s]) (simp add: force_complete_segment_def)
next
  case (Some p)
  have pi: "sp_inv p" by (rule ss_inv_segment [OF inv Some])
  obtain p' where m: "mark_each mark_resolved (indices (sp_bundle_count p)) p = Some p'" and p': "sp_inv p'"
    "sp_bundle_count p' = sp_bundle_count p" and full: "progress_is_complete p'"
    using sp.mark_all_completes [OF pi, of "indices (sp_bundle_count p)"] by (auto simp: set_indices)
  have set': "sp_set p' = {j. j < sp_bundle_count p}" using sp.complete_law [OF p'(1)] full p'(2) by simp
  let ?cs = "{r \<in> ss_claimed s. segment_seq r \<noteq> seg}"
  let ?s = "s\<lparr>ss_claimed := ?cs, ss_segments := AList.update seg p' (ss_segments s)\<rparr>"
  have cl: "\<forall>q \<in> ?cs. q \<in> ss_claimed s \<and> (segment_seq q = seg \<longrightarrow> bundle_index q \<notin> sp_set p')" by simp
  note u = update_segment [OF inv Some p' cl]
  have "{q. if segment_seq q = seg then bundle_index q \<in> sp_set p' else q \<in> tk_resolved (tracking_of s)} =
      tk_resolved (tracking_of s) \<union> {r \<in> tk_pending (tracking_of s). segment_seq r = seg}" (is "?L = ?R")
  proof (rule set_eqI)
    fix q
    show "q \<in> ?L \<longleftrightarrow> q \<in> ?R"
      using Some sp.resolved_below [OF pi] by (cases "segment_seq q = seg") (auto simp: set' resolved_iff pending_iff)
  qed
  then show ?thesis using u m Some
    by (intro exI [of _ ?s]) (simp add: force_complete_segment_def)
qed

lemma add_segment_tracks:
  assumes inv: "ss_inv s"
  shows "ss_inv (add_segment seg n s)" "ss_id (add_segment seg n s) = ss_id s"
    "tracking_of (add_segment seg n s) =
       (if tk_sizes (tracking_of s) seg = None then (tracking_of s)\<lparr>tk_sizes := (tk_sizes (tracking_of s))(seg \<mapsto> n)\<rparr> else tracking_of s)"
proof -
  let ?s = "add_segment seg n s"
  have "ss_inv ?s \<and> ss_id ?s = ss_id s \<and> tracking_of ?s =
      (if tk_sizes (tracking_of s) seg = None then (tracking_of s)\<lparr>tk_sizes := (tk_sizes (tracking_of s))(seg \<mapsto> n)\<rparr> else tracking_of s)"
  proof (cases "map_of (ss_segments s) seg")
    case None
    have b: "btree (ss_segments s)" using inv by (simp add: ss_inv_def)
    have lk: "map_of (ss_segments ?s) = (map_of (ss_segments s))(seg \<mapsto> SegmentProgress_new n)"
      using None b by (simp add: add_segment_def btree_insert_lookup)
    have b': "btree (ss_segments ?s)" using None b by (simp add: add_segment_def btree_insert_btree)
    have "sp_inv q" if "(k, q) \<in> set (ss_segments ?s)" for k q
    proof -
      have "map_of (ss_segments ?s) k = Some q" using that b' by (simp add: btree_distinct)
      then show ?thesis using lk sp_inv_new ss_inv_segment [OF inv] by (auto split: if_splits)
    qed
    moreover have res: "r \<in> tk_resolved (tracking_of ?s) \<longleftrightarrow> r \<in> tk_resolved (tracking_of s)" for r
      using None by (auto simp: resolved_iff lk)
    moreover have same: "ss_claimed ?s = ss_claimed s" "ss_active ?s = ss_active s" "ss_id ?s = ss_id s"
      using None by (simp_all add: add_segment_def)
    ultimately have "ss_inv ?s" using inv b' unfolding ss_inv_def by auto
    moreover have "tracking_of ?s = (tracking_of s)\<lparr>tk_sizes := (tk_sizes (tracking_of s))(seg \<mapsto> n)\<rparr>"
      by (rule tracking_eqI) (use res same in \<open>simp_all add: lk SegmentProgress_new_def\<close>)
    ultimately show ?thesis using None same by simp
  next
    case (Some p)
    then have "?s = s" by (simp add: add_segment_def)
    then show ?thesis using Some inv by simp
  qed
  then show "ss_inv ?s" "ss_id ?s = ss_id s" "tracking_of ?s =
    (if tk_sizes (tracking_of s) seg = None then (tracking_of s)\<lparr>tk_sizes := (tk_sizes (tracking_of s))(seg \<mapsto> n)\<rparr> else tracking_of s)"
    by blast+
qed

lemma is_resolved_tracks: "ss_inv s \<Longrightarrow> is_resolved r s = Some (r \<in> tk_resolved (tracking_of s))"
  using ss_inv_segment [of s "segment_seq r"] sp.test_law
  by (cases "map_of (ss_segments s) (segment_seq r)") (auto simp: is_resolved_def resolved_iff)

lemma ss_inv_claims:
  assumes "ss_inv s" "cs \<inter> tk_resolved (tracking_of s) = {}"
  shows "ss_inv (s\<lparr>ss_claimed := cs\<rparr>)"
    "tracking_of (s\<lparr>ss_claimed := cs\<rparr>) = (tracking_of s)\<lparr>tk_claimed := cs\<rparr>"
proof -
  show t: "tracking_of (s\<lparr>ss_claimed := cs\<rparr>) = (tracking_of s)\<lparr>tk_claimed := cs\<rparr>" by (simp add: tracking_of_def)
  show "ss_inv (s\<lparr>ss_claimed := cs\<rparr>)" using assms unfolding ss_inv_def t by simp
qed

lemma claim_tracks:
  assumes "ss_inv s"
  shows "claim r s = Some (if r \<in> tk_resolved (tracking_of s) then (False, s)
    else (r \<notin> ss_claimed s, s\<lparr>ss_claimed := insert r (ss_claimed s)\<rparr>))"
  using is_resolved_tracks [OF assms] by (simp add: claim_def)

lemma next_pending_tracks:
  "ss_inv s \<Longrightarrow> next_pending s = Some (lowest (tk_pending (tracking_of s) - ss_claimed s))"
  unfolding next_pending_def open_refs_pending [symmetric]
  by (rule next_pending_from_lowest) (simp_all add: ss_inv_def)

lemma segments_of: "seg \<in> segment_seq ` A \<longleftrightarrow> (\<exists>i. Bundle_Ref seg i \<in> A)"
proof
  assume "seg \<in> segment_seq ` A"
  then obtain r where "r \<in> A" "seg = segment_seq r" by blast
  then show "\<exists>i. Bundle_Ref seg i \<in> A" by (intro exI [of _ "bundle_index r"]) simp
next
  assume "\<exists>i. Bundle_Ref seg i \<in> A"
  then obtain i where "Bundle_Ref seg i \<in> A" ..
  then show "seg \<in> segment_seq ` A" by (rule rev_image_eqI) simp
qed

lemma complete_pending:
  assumes "ss_inv s" "map_of (ss_segments s) seg = Some p"
  shows "progress_is_complete p \<longleftrightarrow> seg \<notin> segment_seq ` tk_pending (tracking_of s)"
proof -
  have pi: "sp_inv p" by (rule ss_inv_segment [OF assms])
  have "\<not> progress_is_complete p \<longleftrightarrow> (\<exists>i. i < sp_bundle_count p \<and> i \<notin> sp_set p)"
    using sp.complete_law [OF pi] sp.resolved_below [OF pi] by blast
  also have "\<dots> \<longleftrightarrow> (\<exists>i. Bundle_Ref seg i \<in> tk_pending (tracking_of s))" using assms(2) by (simp add: pending_iff)
  also have "\<dots> \<longleftrightarrow> seg \<in> segment_seq ` tk_pending (tracking_of s)"
    by (simp add: segments_of)
  finally show ?thesis by blast
qed

lemma oldest_tracks:
  assumes inv: "ss_inv s"
  shows "oldest_incomplete_segment s = lowest (segment_seq ` tk_pending (tracking_of s))"
proof -
  have gen: "map_option fst (find (\<lambda>(k, p). \<not> progress_is_complete p) m) =
      lowest {k. \<exists>p. (k, p) \<in> set m \<and> \<not> progress_is_complete p}"
    if "btree m" for m :: "(segment_seq \<times> segment_progress) list"
    using that
  proof (induction m)
    case (Cons x m)
    obtain k p where x: "x = (k, p)" by (cases x)
    show ?case
    proof (cases "progress_is_complete p")
      case True
      then have "{k'. \<exists>q. (k', q) \<in> set (x # m) \<and> \<not> progress_is_complete q} =
          {k'. \<exists>q. (k', q) \<in> set m \<and> \<not> progress_is_complete q}" using x by auto
      then show ?thesis using Cons True x by (simp add: btree_Cons)
    next
      case False
      have "lowest {k'. \<exists>q. (k', q) \<in> set (x # m) \<and> \<not> progress_is_complete q} = Some k"
      proof (rule lowest_eq)
        show "k \<in> {k'. \<exists>q. (k', q) \<in> set (x # m) \<and> \<not> progress_is_complete q}" using x False by auto
        show "k \<le> y" if "y \<in> {k'. \<exists>q. (k', q) \<in> set (x # m) \<and> \<not> progress_is_complete q}" for y
          using that Cons.prems x by (force simp: btree_Cons)
      qed simp
      then show ?thesis using False x by simp
    qed
  qed (simp add: lowest_def)
  have b: "btree (ss_segments s)" using inv by (simp add: ss_inv_def)
  have "{k. \<exists>p. (k, p) \<in> set (ss_segments s) \<and> \<not> progress_is_complete p} = segment_seq ` tk_pending (tracking_of s)"
  proof (rule set_eqI)
    fix k
    show "k \<in> {k. \<exists>p. (k, p) \<in> set (ss_segments s) \<and> \<not> progress_is_complete p} \<longleftrightarrow>
        k \<in> segment_seq ` tk_pending (tracking_of s)"
    proof (cases "map_of (ss_segments s) k")
      case None
      then have "\<nexists>p. (k, p) \<in> set (ss_segments s)" by (force simp: map_of_eq_None_iff)
      moreover have "k \<notin> segment_seq ` tk_pending (tracking_of s)" using None by (auto simp: pending_iff)
      ultimately show ?thesis by simp
    next
      case (Some p)
      then have "(k, q) \<in> set (ss_segments s) \<longleftrightarrow> q = p" for q
        using btree_distinct [OF b] by (metis map_of_eq_Some_iff option.inject)
      then show ?thesis using complete_pending [OF inv Some] by simp
    qed
  qed
  then show ?thesis using gen [OF b] by (simp add: oldest_incomplete_segment_def)
qed

lemma map_of_filter_lookup:
  "distinct (map fst m) \<Longrightarrow> map_of (filter (\<lambda>(k, v). Q k v) m) k =
     (case map_of m k of None \<Rightarrow> None | Some v \<Rightarrow> if Q k v then Some v else None)"
proof (induction m)
  case (Cons x m)
  obtain k1 v1 where x: "x = (k1, v1)" by (cases x)
  show ?case
  proof (cases "k1 = k")
    case True
    then have "map_of m k = None" using Cons.prems x by (simp add: map_of_eq_None_iff)
    then show ?thesis using Cons x True by simp
  next
    case False
    then show ?thesis using Cons x by simp
  qed
qed simp

lemma forget_tracks:
  fixes before :: segment_seq
  assumes inv: "ss_inv s"
  defines "s' \<equiv> remove_completed_segments_before before s"
  shows "ss_inv s'" "tracking_of s' = snd (exec_tracking (St_Forget before) (tracking_of s))"
proof -
  have b: "btree (ss_segments s)" using inv by (simp add: ss_inv_def)
  let ?kept = "{seg. before \<le> seg} \<union> segment_seq ` tk_pending (tracking_of s)"
  have lk: "map_of (ss_segments s') seg = (if seg \<in> ?kept then map_of (ss_segments s) seg else None)" for seg
    using map_of_filter_lookup [OF btree_distinct [OF b], of "\<lambda>seg p. before \<le> seg \<or> \<not> progress_is_complete p" seg]
      complete_pending [OF inv, of seg]
    by (auto simp: s'_def remove_completed_segments_before_def split: option.splits)
  have b': "btree (ss_segments s')" using b by (simp add: s'_def remove_completed_segments_before_def btree_filter)
  have pi: "\<forall>x \<in> set (ss_segments s'). sp_inv (snd x)"
    using inv by (auto simp: s'_def remove_completed_segments_before_def ss_inv_def)
  have same: "ss_claimed s' = ss_claimed s" "ss_active s' = ss_active s"
    by (simp_all add: s'_def remove_completed_segments_before_def)
  have res: "r \<in> tk_resolved (tracking_of s') \<longleftrightarrow> r \<in> tk_resolved (tracking_of s) \<and> segment_seq r \<in> ?kept" for r
    unfolding resolved_iff lk by simp
  show "ss_inv s'" using b' pi inv unfolding ss_inv_def same by (auto simp: res)
  show "tracking_of s' = snd (exec_tracking (St_Forget before) (tracking_of s))"
  proof (rule tracking_eqI)
    fix seg
    show "tk_sizes (tracking_of s') seg = tk_sizes (snd (exec_tracking (St_Forget before) (tracking_of s))) seg"
      by (simp add: lk restrict_map_def)
  next
    fix r
    show "r \<in> tk_resolved (tracking_of s') \<longleftrightarrow> r \<in> tk_resolved (snd (exec_tracking (St_Forget before) (tracking_of s)))"
      unfolding res by (simp add: Let_def)
  qed (simp_all add: same Let_def)
qed

lemma pending_of_one:
  assumes "sp_inv p"
  shows "unat (sp_bundle_count p - sp_resolved_count p) = card {i. i < sp_bundle_count p \<and> i \<notin> sp_set p}"
proof -
  let ?n = "unat (sp_bundle_count p)"
  have le: "card (bits_of (sp_resolved p)) \<le> ?n"
    using card_mono [of "{..<?n}" "bits_of (sp_resolved p)"] assms by (simp add: sp_inv_def)
  have "sp_resolved_count p \<le> sp_bundle_count p" using le assms by (simp add: sp_inv_def word_le_nat_alt)
  then have "unat (sp_bundle_count p - sp_resolved_count p) = ?n - card (bits_of (sp_resolved p))"
    using assms by (simp add: sp_inv_def unat_sub)
  also have "\<dots> = card ({..<?n} - bits_of (sp_resolved p))"
    using assms by (simp add: card_Diff_subset sp_inv_def)
  also have "{..<?n} - bits_of (sp_resolved p) = unat ` {i. i < sp_bundle_count p \<and> i \<notin> sp_set p}"
    (is "?L = ?R")
  proof
    show "?R \<subseteq> ?L" by (auto simp: sp_set_def word_less_nat_alt)
    show "?L \<subseteq> ?R"
    proof
      fix m assume "m \<in> ?L"
      then have m: "m < ?n" "m \<notin> bits_of (sp_resolved p)" by simp_all
      then show "m \<in> ?R" using sp_index_of_nat [OF m(1)]
        by (intro image_eqI [of _ _ "of_nat m"]) (simp_all add: sp_set_def)
    qed
  qed
  also have "card ?R = card {i. i < sp_bundle_count p \<and> i \<notin> sp_set p}"
    by (intro card_image) (simp add: inj_on_def word_unat_eq_iff)
  finally show ?thesis .
qed

lemma pending_count_tracks:
  assumes inv: "ss_inv s"
  shows "pending_count s = card (tk_pending (tracking_of s))"
proof -
  have "sum_list (map (\<lambda>(seg, p). unat (sp_bundle_count p - sp_resolved_count p)) m) = card (open_refs m)"
    if "btree m" "\<forall>x \<in> set m. sp_inv (snd x)" for m
    using that
  proof (induction m)
    case (Cons x m)
    obtain seg p where x: "x = (seg, p)" by (cases x)
    let ?A = "Bundle_Ref seg ` {i. i < sp_bundle_count p \<and> i \<notin> sp_set p}"
    have "?A \<inter> open_refs m = {}" using Cons.prems(1) x by (auto simp: open_refs_def btree_Cons)
    then have "card (open_refs (x # m)) = card ?A + card (open_refs m)"
      unfolding x open_refs_Cons by (intro card_Un_disjoint) simp_all
    moreover have "card ?A = unat (sp_bundle_count p - sp_resolved_count p)"
      using Cons.prems(2) x pending_of_one [of p] by (simp add: card_image inj_on_def)
    ultimately show ?case using Cons x by (simp add: btree_Cons)
  qed simp
  then show ?thesis using inv open_refs_pending [OF inv] by (simp add: pending_count_def ss_inv_def)
qed

lemma exec_state_simulates:
  assumes inv: "ss_inv s"
  shows "\<exists>out s'. exec_state op s = Some (out, s') \<and> ss_inv s' \<and> exec_tracking op (tracking_of s) = (out, tracking_of s')"
proof (cases op)
  case (St_Add seg n)
  then show ?thesis using add_segment_tracks [OF inv, of seg n] by auto
next
  case (St_Outcome r out)
  then show ?thesis using record_outcome_tracks [OF inv, of r out] by auto
next
  case (St_Claim r)
  show ?thesis
  proof (cases "r \<in> tk_resolved (tracking_of s)")
    case True
    then show ?thesis using inv St_Claim by (simp add: claim_tracks)
  next
    case False
    then have "insert r (ss_claimed s) \<inter> tk_resolved (tracking_of s) = {}" using inv by (auto simp: ss_inv_def)
    then show ?thesis using False St_Claim inv ss_inv_claims [OF inv] by (simp add: claim_tracks)
  qed
next
  case (St_Release r)
  have "(ss_claimed s - {r}) \<inter> tk_resolved (tracking_of s) = {}" using inv by (auto simp: ss_inv_def)
  then show ?thesis using St_Release ss_inv_claims [OF inv] by (simp add: release_def)
next
  case St_Next
  then show ?thesis using inv next_pending_tracks [OF inv] by simp
next
  case (St_Force seg)
  then show ?thesis using force_complete_tracks [OF inv, of seg] by auto
next
  case (St_Forget seg)
  then show ?thesis using forget_tracks [OF inv, of seg] by (simp add: Let_def)
next
  case (St_Resolved r)
  then show ?thesis using inv is_resolved_tracks [OF inv] by simp
next
  case St_Oldest
  then show ?thesis using inv oldest_tracks [OF inv] by simp
next
  case St_Pending_Count
  then show ?thesis using inv pending_count_tracks [OF inv] by simp
qed (use inv in \<open>simp_all add: ss_inv_def tracking_of_def state_activate_def state_deactivate_def\<close>)

primrec run_state :: "state_op list \<Rightarrow> subscriber_state \<Rightarrow> (state_out list \<times> subscriber_state) option" where
  "run_state [] s = Some ([], s)"
| "run_state (op # ops) s = do {
     (out, s1) \<leftarrow> exec_state op s;
     (outs, s2) \<leftarrow> run_state ops s1;
     Some (out # outs, s2)
   }"

lemma run_state_simulates:
  "ss_inv s \<Longrightarrow> \<exists>outs s'. run_state ops s = Some (outs, s') \<and> ss_inv s' \<and>
     run_ops exec_tracking ops (tracking_of s) = (outs, tracking_of s')"
proof (induction ops arbitrary: s)
  case (Cons op ops)
  obtain out s1 where 1: "exec_state op s = Some (out, s1)" "ss_inv s1" "exec_tracking op (tracking_of s) = (out, tracking_of s1)"
    using exec_state_simulates [OF Cons.prems, of op] by blast
  obtain outs s2 where 2: "run_state ops s1 = Some (outs, s2)" "ss_inv s2"
    "run_ops exec_tracking ops (tracking_of s1) = (outs, tracking_of s2)"
    using Cons.IH [OF 1(2)] by blast
  show ?case using 1 2 by simp
qed simp

definition tracking_new :: tracking where
  "tracking_new = \<lparr>tk_sizes = Map.empty, tk_resolved = {}, tk_claimed = {}, tk_active = False\<rparr>"

lemma tracking_of_new: "tracking_of (SubscriberState_new sid) = tracking_new"
  by (simp add: tracking_of_def SubscriberState_new_def tracking_new_def comp_def)

lemma ss_inv_new: "ss_inv (SubscriberState_new sid)"
  by (simp add: ss_inv_def SubscriberState_new_def btree_def)

text \<open>
  C6. Subscriber state refines sets. Whatever sequence of operations a subscriber state goes
  through from its creation, it never panics, and its answers and its contents are those of
  plain sets of tracked, resolved and claimed bundles; in particular the next pending bundle is
  the least one, by segment and then by index, that is neither resolved nor claimed.\<close>

theorem subscriber_refines_tracking:
  "map_option (apsnd tracking_of) (run_state ops (SubscriberState_new sid)) =
     Some (run_ops exec_tracking ops tracking_new)"
  using run_state_simulates [OF ss_inv_new, of ops sid] by (auto simp: tracking_of_new)

end
