(* ===== verification/Quiver_Files_Laws.thy ===== *)
theory Quiver_Files_Laws
  imports Quiver_Files
begin

section \<open>Atomic updates of progress files\<close>

text \<open>
  The laws of the file operations: a scan finds exactly the progress files by their names, an
  update that fails leaves every progress file as it was, an update that succeeds replaces one
  file by what was to be written, and a crash at any point of an update leaves the old or the
  new contents.
\<close>

subsection \<open>Names\<close>

definition is_final :: "path \<Rightarrow> bool" where
  \<comment> \<open>a path that a scan takes for a progress file\<close>
  "is_final p \<longleftrightarrow> scan_name (snd p) \<noteq> None"

lemma dot_not_id_char: "\<not> id_char (CHR ''.'')"
  by (simp add: id_char_def is_ascii_alphanumeric_def)

lemma strip_prefix_Some: "strip_prefix pre s = Some x \<Longrightarrow> s = pre @ x"
  by (simp add: strip_prefix_def split: if_splits) (metis append_take_drop_id)

lemma scan_name_final: "valid_id sid \<Longrightarrow> scan_name (''quiver.sub.'' @ as_str sid) = Some sid"
proof -
  assume v: "valid_id sid"
  have "\<not> ends_with (as_str sid) ''.tmp''"
  proof
    assume e: "ends_with (as_str sid) ''.tmp''"
    have "CHR ''.'' \<in> set (drop (length (as_str sid) - length ''.tmp'') (as_str sid))"
      using e unfolding ends_with_def by (metis list.set_intros(1))
    then have "CHR ''.'' \<in> set (as_str sid)" using in_set_dropD by fast
    then show False using valid_id_chars [OF v] dot_not_id_char by blast
  qed
  then show ?thesis using v by (simp add: scan_name_def strip_prefix_def valid_id_def)
qed

lemma scan_name_temp: "scan_name (''quiver.sub.'' @ s @ ''.tmp'') = None"
  by (simp add: scan_name_def strip_prefix_def ends_with_def)

lemma scan_name_sound:
  assumes "scan_name name = Some sid"
  shows "valid_id sid \<and> name = ''quiver.sub.'' @ as_str sid"
proof -
  obtain s where s: "strip_prefix ''quiver.sub.'' name = Some s" "SubscriberId_new s = Inr sid"
    using assms by (auto simp: scan_name_def split: option.splits if_splits sum.splits)
  then have "valid_id sid" "as_str sid = s" by (simp_all add: SubscriberId_new_valid)
  moreover have "name = ''quiver.sub.'' @ s" by (rule strip_prefix_Some [OF s(1)])
  ultimately show ?thesis by simp
qed

lemma final_paths:
  "valid_id sid \<Longrightarrow> is_final (progress_file_path dir sid)" "\<not> is_final (temp_progress_file_path dir sid)"
  unfolding is_final_def progress_file_path_def temp_progress_file_path_def snd_conv scan_name_temp
  by (simp_all only: scan_name_final) simp_all

subsection \<open>The disk between calls\<close>

definition disk_inv :: "disk \<Rightarrow> bool" where
  "disk_inv d \<longleftrightarrow>
     (\<forall>p i. map_of (dk_names d) p = Some i \<or> map_of (dk_stable d) p = Some i \<longrightarrow> i < dk_next d) \<and>
     (\<forall>p q i. map_of (dk_names d) p = Some i \<longrightarrow> map_of (dk_names d) q = Some i \<longrightarrow> p = q) \<and>
     (\<forall>p q i. map_of (dk_stable d) p = Some i \<longrightarrow> map_of (dk_stable d) q = Some i \<longrightarrow> p = q) \<and>
     (\<forall>p i. is_final p \<longrightarrow> map_of (dk_names d) p = Some i \<or> map_of (dk_stable d) p = Some i \<longrightarrow> dk_synced d i) \<and>
     (\<forall>p q i. \<not> is_final p \<longrightarrow> is_final q \<longrightarrow> map_of (dk_names d) p = Some i \<longrightarrow> map_of (dk_stable d) q \<noteq> Some i)"

definition same_finals :: "disk \<Rightarrow> disk \<Rightarrow> bool" where
  "same_finals d d' \<longleftrightarrow>
     (\<forall>q. is_final q \<longrightarrow> file_content q d' = file_content q d \<and> stable_content q d' = stable_content q d)"

lemma same_finals_trans: "same_finals d d1 \<Longrightarrow> same_finals d1 d2 \<Longrightarrow> same_finals d d2"
  by (simp add: same_finals_def)

lemma fs_create_inv:
  assumes inv: "disk_inv d" and t: "\<not> is_final t"
  shows "disk_inv (fs_create t d) \<and> same_finals d (fs_create t d) \<and>
    (\<exists>i. map_of (dk_names (fs_create t d)) t = Some i \<and> dk_bytes (fs_create t d) i = [])"
proof (cases "map_of (dk_names d) t")
  case None
  let ?i = "dk_next d"
  have fresh: "map_of (dk_names d) p \<noteq> Some ?i" "map_of (dk_stable d) p \<noteq> Some ?i" for p
    using inv unfolding disk_inv_def by blast+
  have names: "map_of (dk_names (fs_create t d)) = (map_of (dk_names d))(t \<mapsto> ?i)"
    using None by (simp add: fs_create_def Let_def update_conv')
  have rest: "dk_stable (fs_create t d) = dk_stable d" "dk_bytes (fs_create t d) = (dk_bytes d)(?i := [])"
    "dk_synced (fs_create t d) = (dk_synced d)(?i := False)" "dk_next (fs_create t d) = ?i + 1"
    using None by (simp_all add: fs_create_def Let_def)
  have "disk_inv (fs_create t d)"
    using inv t fresh unfolding disk_inv_def names rest by (auto simp: less_Suc_eq)
  moreover have "same_finals d (fs_create t d)"
    using t fresh unfolding same_finals_def content_at_def names rest by (auto split: option.splits intro!: map_option_cong)
  ultimately show ?thesis unfolding names rest by simp
next
  case (Some i)
  have other: "is_final q \<Longrightarrow> map_of (dk_names d) q \<noteq> Some i" "is_final q \<Longrightarrow> map_of (dk_stable d) q \<noteq> Some i" for q
    using inv Some t unfolding disk_inv_def by blast+
  have eq: "dk_names (fs_create t d) = dk_names d" "dk_stable (fs_create t d) = dk_stable d"
    "dk_bytes (fs_create t d) = (dk_bytes d)(i := [])" "dk_synced (fs_create t d) = (dk_synced d)(i := False)"
    "dk_next (fs_create t d) = dk_next d"
    using Some by (simp_all add: fs_create_def)
  have "disk_inv (fs_create t d)" using inv other unfolding disk_inv_def eq by (auto split: if_splits)
  moreover have "same_finals d (fs_create t d)"
    using other unfolding same_finals_def content_at_def eq by (auto intro!: map_option_cong)
  ultimately show ?thesis using Some unfolding eq by simp
qed

lemma temp_inode:
  assumes "disk_inv d" "\<not> is_final t" "map_of (dk_names d) t = Some i" "is_final q"
  shows "map_of (dk_names d) q \<noteq> Some i" "map_of (dk_stable d) q \<noteq> Some i"
  using assms unfolding disk_inv_def by blast+

lemma touch_inv:
  fixes bs :: bytes and b :: bool
  assumes inv: "disk_inv d" and t: "\<not> is_final t" and i: "map_of (dk_names d) t = Some i"
  defines "d' \<equiv> d\<lparr>dk_bytes := (dk_bytes d)(i := bs), dk_synced := (dk_synced d)(i := b)\<rparr>"
  shows "disk_inv d'" "same_finals d d'"
proof -
  note other = temp_inode [OF inv t i]
  have eq: "dk_names d' = dk_names d" "dk_stable d' = dk_stable d" "dk_next d' = dk_next d"
    "dk_bytes d' = (dk_bytes d)(i := bs)" "dk_synced d' = (dk_synced d)(i := b)" by (simp_all add: d'_def)
  show "disk_inv d'" using inv other unfolding disk_inv_def eq by auto
  show "same_finals d d'" using other unfolding same_finals_def content_at_def eq by (auto intro!: map_option_cong)
qed

lemma fs_write_inv:
  assumes inv: "disk_inv d" and t: "\<not> is_final t" and i: "map_of (dk_names d) t = Some i"
  shows "disk_inv (fs_write t bs d) \<and> same_finals d (fs_write t bs d) \<and>
    map_of (dk_names (fs_write t bs d)) t = Some i \<and> dk_bytes (fs_write t bs d) i = dk_bytes d i @ bs"
  using touch_inv [OF inv t i, where bs = "dk_bytes d i @ bs" and b = False] i by (simp add: fs_write_def)

lemma fs_sync_inv:
  assumes inv: "disk_inv d" and t: "\<not> is_final t" and i: "map_of (dk_names d) t = Some i"
  shows "disk_inv (fs_sync t d) \<and> same_finals d (fs_sync t d) \<and>
    map_of (dk_names (fs_sync t d)) t = Some i \<and> dk_bytes (fs_sync t d) i = dk_bytes d i \<and> dk_synced (fs_sync t d) i"
  using touch_inv [OF inv t i, where bs = "dk_bytes d i" and b = True] i by (simp add: fs_sync_def)

lemma fs_rename_inv:
  assumes inv: "disk_inv d" and t: "\<not> is_final t" and i: "map_of (dk_names d) t = Some i"
    and q: "is_final q" and s: "dk_synced d i"
  shows "disk_inv (fs_rename t q d) \<and> file_content q (fs_rename t q d) = Some (dk_bytes d i) \<and>
    (\<forall>r. r \<noteq> q \<longrightarrow> is_final r \<longrightarrow> file_content r (fs_rename t q d) = file_content r d) \<and>
    (\<forall>r. stable_content r (fs_rename t q d) = stable_content r d)"
proof -
  let ?d = "fs_rename t q d"
  have tq: "t \<noteq> q" using t q by auto
  have names: "map_of (dk_names ?d) = ((map_of (dk_names d))(t := None))(q \<mapsto> i)"
    using i by (simp add: fs_rename_def update_conv' delete_conv')
  have eq: "dk_stable ?d = dk_stable d" "dk_bytes ?d = dk_bytes d" "dk_synced ?d = dk_synced d" "dk_next ?d = dk_next d"
    using i by (simp_all add: fs_rename_def)
  have old: "map_of (dk_names d) p = Some j \<or> map_of (dk_stable d) p = Some j \<Longrightarrow> j < dk_next d"
    "map_of (dk_names d) p = Some j \<Longrightarrow> map_of (dk_names d) r = Some j \<Longrightarrow> p = r"
    "map_of (dk_stable d) p = Some j \<Longrightarrow> map_of (dk_stable d) r = Some j \<Longrightarrow> p = r"
    "is_final p \<Longrightarrow> map_of (dk_names d) p = Some j \<or> map_of (dk_stable d) p = Some j \<Longrightarrow> dk_synced d j"
    "\<not> is_final p \<Longrightarrow> is_final r \<Longrightarrow> map_of (dk_names d) p = Some j \<Longrightarrow> map_of (dk_stable d) r \<noteq> Some j" for p r j
    using inv unfolding disk_inv_def by blast+
  have new: "map_of (dk_names ?d) p = Some j \<longleftrightarrow> p = q \<and> j = i \<or> p \<noteq> q \<and> p \<noteq> t \<and> map_of (dk_names d) p = Some j" for p j
    unfolding names by auto
  have n5: "map_of (dk_stable ?d) r \<noteq> Some j" if "\<not> is_final p" "is_final r" "map_of (dk_names ?d) p = Some j" for p r j
    using that old(5) [of p r j] q unfolding eq new by blast
  have n4: "dk_synced ?d j" if "is_final p" "map_of (dk_names ?d) p = Some j \<or> map_of (dk_stable ?d) p = Some j" for p j
    using that old(4) [of p j] s unfolding eq new by blast
  have n2: "p = r" if "map_of (dk_names ?d) p = Some j" "map_of (dk_names ?d) r = Some j" for p r j
    using that old(2) [of p j r] old(2) [OF i, of p] old(2) [OF i, of r] unfolding new by blast
  have n1: "j < dk_next ?d" if "map_of (dk_names ?d) p = Some j \<or> map_of (dk_stable ?d) p = Some j" for p j
    using that old(1) [of p j] old(1) [of t i] i unfolding eq new by blast
  have n3: "p = r" if "map_of (dk_stable ?d) p = Some j" "map_of (dk_stable ?d) r = Some j" for p r j
    using that old(3) unfolding eq by blast
  have "disk_inv ?d" unfolding disk_inv_def using n1 n2 n3 n4 n5 by blast
  moreover have "file_content q ?d = Some (dk_bytes d i)" by (simp add: content_at_def names eq)
  moreover have "file_content r ?d = file_content r d" if "r \<noteq> q" "is_final r" for r
    using that t by (auto simp: content_at_def names eq)
  ultimately show ?thesis by (simp add: content_at_def eq)
qed

lemma fs_sync_dir_inv: "disk_inv d \<Longrightarrow> disk_inv (fs_sync_dir d)"
proof -
  have eq: "dk_names (fs_sync_dir d) = dk_names d" "dk_stable (fs_sync_dir d) = dk_names d"
    "dk_synced (fs_sync_dir d) = dk_synced d" "dk_next (fs_sync_dir d) = dk_next d"
    by (simp_all add: fs_sync_dir_def)
  show "disk_inv d \<Longrightarrow> disk_inv (fs_sync_dir d)" unfolding disk_inv_def eq by blast
qed

lemma fs_sync_dir_content [simp]:
  "content_at names q (fs_sync_dir d) = content_at names q d" "dk_names (fs_sync_dir d) = dk_names d"
  "dk_stable (fs_sync_dir d) = dk_names d"
  by (simp_all add: content_at_def fs_sync_dir_def)

text \<open>What one update does, for every way its calls may fail.\<close>

definition updates :: "path \<Rightarrow> bytes \<Rightarrow> disk \<Rightarrow> disk \<Rightarrow> bool" where
  "updates q bs d d' \<longleftrightarrow> file_content q d' = Some bs \<and>
     (\<forall>r. r \<noteq> q \<longrightarrow> is_final r \<longrightarrow> file_content r d' = file_content r d) \<and>
     (\<forall>r. is_final r \<longrightarrow> stable_content r d' = stable_content r d \<or> stable_content r d' = file_content r d')"

lemma write_progress_file_effect:
  assumes inv: "disk_inv d" and v: "valid_id sid"
    and w: "write_progress_file crc dir sid oldest es faults d = (res, d')"
  shows "disk_inv d' \<and> (case res of
      Inl e \<Rightarrow> same_finals d d'
    | Inr u \<Rightarrow> updates (progress_file_path dir sid) (progress_content crc oldest es) d d')"
proof -
  let ?f = "progress_file_path dir sid" and ?t = "temp_progress_file_path dir sid"
  let ?c = "progress_content crc oldest es"
  note ft = final_paths(1) [OF v, of dir] final_paths(2) [of dir sid]
  define d1 where "d1 = fs_create ?t d"
  obtain i where i1: "map_of (dk_names d1) ?t = Some i" "dk_bytes d1 i = []" "disk_inv d1" "same_finals d d1"
    using fs_create_inv [OF inv ft(2)] unfolding d1_def by blast
  note partial = fs_write_inv [OF i1(3) ft(2) i1(1)]
  define d2 where "d2 = fs_write ?t ?c d1"
  have i2: "map_of (dk_names d2) ?t = Some i" "dk_bytes d2 i = ?c" "disk_inv d2" "same_finals d d2"
    using partial [of ?c] i1(2) same_finals_trans [OF i1(4), of d2] unfolding d2_def by auto
  define d3 where "d3 = fs_sync ?t d2"
  have i3: "map_of (dk_names d3) ?t = Some i" "dk_bytes d3 i = ?c" "disk_inv d3" "same_finals d d3" "dk_synced d3 i"
    using fs_sync_inv [OF i2(3) ft(2) i2(1)] i2(2) same_finals_trans [OF i2(4), of d3] unfolding d3_def by auto
  define d4 where "d4 = fs_rename ?t ?f d3"
  have r: "disk_inv d4" "file_content ?f d4 = Some ?c"
    "\<forall>r. r \<noteq> ?f \<longrightarrow> is_final r \<longrightarrow> file_content r d4 = file_content r d3" "\<forall>r. stable_content r d4 = stable_content r d3"
    using fs_rename_inv [OF i3(3) ft(2) i3(1) ft(1) i3(5)] i3(2) unfolding d4_def by auto
  have u4: "updates ?f ?c d d4" using r i3(4) unfolding updates_def same_finals_def by simp
  have u5: "updates ?f ?c d (fs_sync_dir d4)" using r i3(4) unfolding updates_def same_finals_def by simp
  have inv5: "disk_inv (fs_sync_dir d4)" by (rule fs_sync_dir_inv [OF r(1)])
  have part: "disk_inv (fs_write ?t bs d1) \<and> same_finals d (fs_write ?t bs d1)" for bs
    using partial [of bs] same_finals_trans [OF i1(4)] by blast
  have refl: "same_finals d d" by (simp add: same_finals_def)
  have "(\<exists>e. res = Inl e) \<and> (d' = d \<or> (\<exists>bs. d' = fs_write ?t bs d1) \<or> d' = d3) \<or>
      res = Inr () \<and> (d' = d4 \<or> d' = fs_sync_dir d4)"
    using w unfolding write_progress_file_def Let_def d4_def d3_def d2_def d1_def
    by (auto split: option.splits prod.splits if_splits)
  then show ?thesis using inv refl part i3(3,4) u4 u5 r(1) inv5 by auto
qed

subsection \<open>Crashes\<close>

lemma crash_inv: "disk_inv d \<Longrightarrow> crash d d' \<Longrightarrow> disk_inv d'"
proof -
  assume inv: "disk_inv d" and c: "crash d d'"
  have s: "dk_stable d' = dk_names d'" "\<And>i. dk_synced d' i" "dk_next d' = dk_next d"
    using c by (simp_all add: crash_def)
  have "dk_names d' = dk_names d \<or> dk_names d' = dk_stable d" using c by (simp add: crash_def)
  then show "disk_inv d'"
  proof
    assume n: "dk_names d' = dk_names d"
    show ?thesis using inv s(2) unfolding disk_inv_def s(1,3) n by blast
  next
    assume n: "dk_names d' = dk_stable d"
    show ?thesis using inv s(2) unfolding disk_inv_def s(1,3) n by blast
  qed
qed

lemma crash_content:
  assumes inv: "disk_inv d" and c: "crash d d'" and q: "is_final q"
  shows "file_content q d' = file_content q d \<or> file_content q d' = stable_content q d"
proof -
  have keep: "dk_bytes d' i = dk_bytes d i"
    if "map_of (dk_names d) q = Some i \<or> map_of (dk_stable d) q = Some i" for i
  proof -
    have "dk_synced d i" using inv q that unfolding disk_inv_def by blast
    then show ?thesis using c by (simp add: crash_def)
  qed
  have "dk_names d' = dk_names d \<or> dk_names d' = dk_stable d" using c by (simp add: crash_def)
  then show ?thesis
  proof
    assume "dk_names d' = dk_names d"
    then have "file_content q d' = file_content q d"
      using keep by (cases "map_of (dk_names d) q") (simp_all add: content_at_def)
    then show ?thesis ..
  next
    assume "dk_names d' = dk_stable d"
    then have "file_content q d' = stable_content q d"
      using keep by (cases "map_of (dk_stable d) q") (simp_all add: content_at_def)
    then show ?thesis ..
  qed
qed

lemma write_crash_content:
  assumes inv: "disk_inv d" and v: "valid_id sid"
    and c: "crash (snd (write_progress_file crc dir sid oldest es faults d)) d'"
  shows "file_content (progress_file_path dir sid) d' \<in>
    {Some (progress_content crc oldest es), file_content (progress_file_path dir sid) d,
     stable_content (progress_file_path dir sid) d}"
proof -
  let ?f = "progress_file_path dir sid"
  obtain res d1 where w: "write_progress_file crc dir sid oldest es faults d = (res, d1)" by fastforce
  note e = write_progress_file_effect [OF inv v w]
  have after: "file_content ?f d' = file_content ?f d1 \<or> file_content ?f d' = stable_content ?f d1"
    using crash_content [OF _ _ final_paths(1) [OF v, of dir]] c w e by simp
  have fin: "is_final ?f" by (rule final_paths(1) [OF v])
  show ?thesis
  proof (cases res)
    case (Inl err)
    then have "same_finals d d1" using e by simp
    then have "file_content ?f d1 = file_content ?f d" "stable_content ?f d1 = stable_content ?f d"
      using fin unfolding same_finals_def by blast+
    then show ?thesis using after by auto
  next
    case (Inr u)
    then have u: "updates ?f (progress_content crc oldest es) d d1" using e by simp
    then have "file_content ?f d1 = Some (progress_content crc oldest es)" by (simp add: updates_def)
    moreover have "stable_content ?f d1 = stable_content ?f d \<or> stable_content ?f d1 = file_content ?f d1"
      using u fin unfolding updates_def by blast
    ultimately show ?thesis using after by auto
  qed
qed

lemma crash_self: "crash d (d\<lparr>dk_stable := dk_names d, dk_synced := \<lambda>i. True\<rparr>)"
  by (simp add: crash_def)

definition empty_disk :: disk where
  "empty_disk = \<lparr>dk_names = [], dk_stable = [], dk_bytes = (\<lambda>i. []), dk_synced = (\<lambda>i. False), dk_next = 0\<rparr>"

lemma disk_inv_empty: "disk_inv empty_disk"
  by (simp add: disk_inv_def empty_disk_def)

lemma valid_example: "valid_id (SubscriberId ''exporter-otlp'')"
  by (simp add: valid_id_def SubscriberId_new_def MAX_SUBSCRIBER_ID_LEN_def id_char_def is_ascii_alphanumeric_def)

text \<open>
  C7. Progress updates are atomic. Whatever call of an update fails or is the last one before a
  crash, and whatever the crash does to unsynced data, afterwards the progress file holds the
  bytes of the update, or those that a crash before the update could have left.\<close>

theorem update_survives_crash:
  assumes "disk_inv d" "valid_id sid"
    and "crash (snd (write_progress_file crc dir sid oldest es faults d)) d'"
  shows "file_content (progress_file_path dir sid) d' \<in>
    {Some (progress_content crc oldest es), file_content (progress_file_path dir sid) d,
     stable_content (progress_file_path dir sid) d}"
  by (rule write_crash_content [OF assms])

theorem update_survives_crash_witness:
  "let sid = SubscriberId ''exporter-otlp'';
       d = snd (write_progress_file (\<lambda>bs. 7) ''data'' sid 3 [] no_faults empty_disk);
       d' = d\<lparr>dk_stable := dk_names d, dk_synced := \<lambda>i. True\<rparr> in
     file_content (progress_file_path ''data'' sid) d' \<in>
       {Some (progress_content (\<lambda>bs. 7) 3 []), file_content (progress_file_path ''data'' sid) empty_disk,
        stable_content (progress_file_path ''data'' sid) empty_disk}"
  unfolding Let_def by (rule update_survives_crash [OF disk_inv_empty valid_example crash_self])

end
