(* ===== verification/Quiver_Registry_Laws.thy ===== *)
theory Quiver_Registry_Laws
  imports Quiver_Registry Quiver_Subscriber_Laws Quiver_Files_Laws
begin

section \<open>Recovery, delivery and persistence\<close>

text \<open>
  The laws of the registry: what recovery restores from a progress file, what each operation
  does to the sets that a subscriber tracks, and what a forced completion loses.
\<close>

subsection \<open>Restoring a snapshot\<close>

definition acked_refs :: "progress_entry \<Rightarrow> bundle_ref set" where
  "acked_refs e = {r. segment_seq r = pe_seg_seq e \<and> bundle_index r < pe_bundle_count e \<and>
     unat (bundle_index r) \<in> bits_of (pe_acked_bitmap e)}"

lemma restore_acked_tracks:
  assumes "ss_inv s" "ss_claimed s = {}" "words_needed (pe_bundle_count e) \<le> length (pe_acked_bitmap e)"
  shows "\<exists>s'. restore_acked e is s = Some s' \<and> ss_inv s' \<and> ss_id s' = ss_id s \<and> ss_claimed s' = {} \<and>
    tracking_of s' = (tracking_of s)\<lparr>tk_resolved := tk_resolved (tracking_of s) \<union>
      (Bundle_Ref (pe_seg_seq e) ` set is \<inter> acked_refs e \<inter> tk_pending (tracking_of s))\<rparr>"
  using assms(1,2)
proof (induction "is" arbitrary: s)
  case (Cons i "is")
  let ?r = "Bundle_Ref (pe_seg_seq e) i"
  have a: "is_acked i e = Some (?r \<in> acked_refs e)"
    using is_acked_bits [OF assms(3), of i] by (simp add: acked_refs_def)
  show ?case
  proof (cases "?r \<in> acked_refs e")
    case False
    then show ?thesis using Cons.IH [OF Cons.prems] a by auto
  next
    case True
    obtain s1 where s1: "record_outcome ?r Outcome_Acked s = Some (?r \<in> tk_pending (tracking_of s), s1)" "ss_inv s1"
      "ss_id s1 = ss_id s" and t1: "tracking_of s1 = (tracking_of s)\<lparr>
        tk_resolved := tk_resolved (tracking_of s) \<union> ({?r} \<inter> tk_pending (tracking_of s)), tk_claimed := ss_claimed s - {?r}\<rparr>"
      using record_outcome_tracks [OF Cons.prems(1), of ?r Outcome_Acked] by blast
    have c1: "ss_claimed s1 = {}" using arg_cong [OF t1, of tk_claimed] Cons.prems(2) by simp
    obtain s2 where s2: "restore_acked e is s1 = Some s2" "ss_inv s2" "ss_id s2 = ss_id s1" "ss_claimed s2 = {}"
      "tracking_of s2 = (tracking_of s1)\<lparr>tk_resolved := tk_resolved (tracking_of s1) \<union>
        (Bundle_Ref (pe_seg_seq e) ` set is \<inter> acked_refs e \<inter> tk_pending (tracking_of s1))\<rparr>"
      using Cons.IH [OF s1(2) c1] by blast
    have p1: "tk_pending (tracking_of s1) = tk_pending (tracking_of s) - {?r}" by (auto simp: t1 tk_pending_def)
    have "tracking_of s2 = (tracking_of s)\<lparr>tk_resolved := tk_resolved (tracking_of s) \<union>
        (Bundle_Ref (pe_seg_seq e) ` set (i # is) \<inter> acked_refs e \<inter> tk_pending (tracking_of s))\<rparr>"
      unfolding s2(5) p1 using True Cons.prems(2) by (intro tracking_eqI) (auto simp: t1)
    then show ?thesis using a True s1 s2 by simp
  qed
qed simp

lemma restore_entry_tracks:
  assumes inv: "ss_inv s" "ss_claimed s = {}" and w: "words_needed (pe_bundle_count e) \<le> length (pe_acked_bitmap e)"
    and new: "tk_sizes (tracking_of s) (pe_seg_seq e) = None"
  defines "s0 \<equiv> add_segment (pe_seg_seq e) (pe_bundle_count e) s"
  shows "\<exists>s'. restore_acked e (indices (pe_bundle_count e)) s0 = Some s' \<and> ss_inv s' \<and> ss_id s' = ss_id s \<and>
    ss_claimed s' = {} \<and>
    tracking_of s' = (tracking_of s)\<lparr>tk_sizes := (tk_sizes (tracking_of s))(pe_seg_seq e \<mapsto> pe_bundle_count e),
                          tk_resolved := tk_resolved (tracking_of s) \<union> acked_refs e\<rparr>"
proof -
  have i0: "ss_inv s0" "ss_id s0 = ss_id s" unfolding s0_def by (rule add_segment_tracks [OF inv(1)])+
  have t0: "tracking_of s0 = (tracking_of s)\<lparr>tk_sizes := (tk_sizes (tracking_of s))(pe_seg_seq e \<mapsto> pe_bundle_count e)\<rparr>"
    unfolding s0_def using add_segment_tracks(3) [OF inv(1)] new by simp
  have c0: "ss_claimed s0 = {}" using arg_cong [OF t0, of tk_claimed] inv(2) by simp
  have none: "r \<notin> tk_resolved (tracking_of s)" if "segment_seq r = pe_seg_seq e" for r
    using new that by (auto simp: resolved_iff)
  have "acked_refs e \<subseteq> tk_pending (tracking_of s0)" unfolding tk_pending_def using none by (auto simp: t0 acked_refs_def)
  moreover have "acked_refs e \<subseteq> Bundle_Ref (pe_seg_seq e) ` set (indices (pe_bundle_count e))"
  proof
    fix r assume "r \<in> acked_refs e"
    then show "r \<in> Bundle_Ref (pe_seg_seq e) ` set (indices (pe_bundle_count e))"
      by (intro image_eqI [of _ _ "bundle_index r"]) (auto simp: acked_refs_def set_indices intro: bundle_ref.expand)
  qed
  ultimately have "Bundle_Ref (pe_seg_seq e) ` set (indices (pe_bundle_count e)) \<inter> acked_refs e \<inter> tk_pending (tracking_of s0) =
      acked_refs e" by blast
  then show ?thesis
    using restore_acked_tracks [OF i0(1) c0 w, of "indices (pe_bundle_count e)"] i0(2) t0 by simp
qed

definition covers_bitmap :: "progress_entry \<Rightarrow> bool" where
  "covers_bitmap e \<longleftrightarrow> words_needed (pe_bundle_count e) \<le> length (pe_acked_bitmap e)"

lemma storable_covers: "storable e \<Longrightarrow> covers_bitmap e"
  by (simp add: storable_def covers_bitmap_def)

definition entry_sizes :: "progress_entry list \<Rightarrow> segment_seq \<Rightarrow> 32 word option" where
  "entry_sizes es = map_of (map (\<lambda>e. (pe_seg_seq e, pe_bundle_count e)) es)"

lemma restore_entries_tracks:
  assumes "ss_inv s" "ss_claimed s = {}" "list_all covers_bitmap es" "distinct (map pe_seg_seq es)"
    "\<forall>e \<in> set es. tk_sizes (tracking_of s) (pe_seg_seq e) = None"
  shows "\<exists>s'. restore_entries es s = Some s' \<and> ss_inv s' \<and> ss_id s' = ss_id s \<and> ss_claimed s' = {} \<and>
    tracking_of s' = (tracking_of s)\<lparr>tk_sizes := tk_sizes (tracking_of s) ++ entry_sizes es,
                          tk_resolved := tk_resolved (tracking_of s) \<union> \<Union> (acked_refs ` set es)\<rparr>"
  using assms
proof (induction es arbitrary: s)
  case Nil
  then show ?case by (intro exI [of _ s] conjI tracking_eqI) (simp_all add: entry_sizes_def)
next
  case (Cons e es)
  have c: "words_needed (pe_bundle_count e) \<le> length (pe_acked_bitmap e)"
    using Cons.prems(3) by (simp add: covers_bitmap_def)
  obtain s1 where s1: "restore_acked e (indices (pe_bundle_count e)) (add_segment (pe_seg_seq e) (pe_bundle_count e) s) = Some s1"
    "ss_inv s1" "ss_id s1 = ss_id s" "ss_claimed s1 = {}" and t1: "tracking_of s1 = (tracking_of s)\<lparr>
      tk_sizes := (tk_sizes (tracking_of s))(pe_seg_seq e \<mapsto> pe_bundle_count e),
      tk_resolved := tk_resolved (tracking_of s) \<union> acked_refs e\<rparr>"
    using restore_entry_tracks [OF Cons.prems(1,2) c] Cons.prems(5) by auto
  have new: "\<forall>e' \<in> set es. tk_sizes (tracking_of s1) (pe_seg_seq e') = None"
  proof
    fix e' assume e': "e' \<in> set es"
    then have "pe_seg_seq e' \<noteq> pe_seg_seq e" using Cons.prems(4) imageI [OF e', of pe_seg_seq] by (metis distinct.simps(2) list.map(2) list.set_map)
    then show "tk_sizes (tracking_of s1) (pe_seg_seq e') = None" unfolding t1 using e' Cons.prems(5) by simp
  qed
  have d: "list_all covers_bitmap es" "distinct (map pe_seg_seq es)" using Cons.prems(3,4) by simp_all
  obtain s2 where s2: "restore_entries es s1 = Some s2" "ss_inv s2" "ss_id s2 = ss_id s1" "ss_claimed s2 = {}"
    "tracking_of s2 = (tracking_of s1)\<lparr>tk_sizes := tk_sizes (tracking_of s1) ++ entry_sizes es,
                          tk_resolved := tk_resolved (tracking_of s1) \<union> \<Union> (acked_refs ` set es)\<rparr>"
    using Cons.IH [OF s1(2,4) d new] by blast
  have "entry_sizes (e # es) = [pe_seg_seq e \<mapsto> pe_bundle_count e] ++ entry_sizes es"
  proof -
    have "entry_sizes es (pe_seg_seq e) = None" using Cons.prems(4) by (auto simp: entry_sizes_def map_of_eq_None_iff)
    then show ?thesis by (auto simp: entry_sizes_def fun_eq_iff map_add_def split: option.splits)
  qed
  then have "tracking_of s2 = (tracking_of s)\<lparr>tk_sizes := tk_sizes (tracking_of s) ++ entry_sizes (e # es),
      tk_resolved := tk_resolved (tracking_of s) \<union> \<Union> (acked_refs ` set (e # es))\<rparr>"
    unfolding s2(5) t1 by (intro tracking_eqI) (auto simp: map_add_def split: option.splits)
  then show ?case using s1 s2(1-4) by (simp del: tracking_of_simps)
qed

lemma add_missing_tracks:
  "ss_inv s \<Longrightarrow> ss_inv (add_missing oldest highest available s) \<and>
     ss_id (add_missing oldest highest available s) = ss_id s \<and>
     tracking_of (add_missing oldest highest available s) = (tracking_of s)\<lparr>tk_sizes := (\<lambda>seg.
       case tk_sizes (tracking_of s) seg of Some n \<Rightarrow> Some n
       | None \<Rightarrow> if completed_before_snapshot oldest highest seg then None else map_of available seg)\<rparr>"
proof (induction available arbitrary: s)
  case Nil
  then show ?case by (auto intro!: tracking_eqI split: option.splits)
next
  case (Cons x xs)
  let ?skip = "map_of (ss_segments s) (fst x) \<noteq> None \<or> completed_before_snapshot oldest highest (fst x)"
  define s1 where "s1 = (if ?skip then s else add_segment (fst x) (snd x) s)"
  have eq: "add_missing oldest highest (x # xs) s = add_missing oldest highest xs s1" by (simp add: s1_def)
  have i1: "ss_inv s1" "ss_id s1 = ss_id s"
    using Cons.prems add_segment_tracks [OF Cons.prems, of "fst x" "snd x"] by (simp_all add: s1_def)
  have t1: "tracking_of s1 = (if ?skip then tracking_of s
      else (tracking_of s)\<lparr>tk_sizes := (tk_sizes (tracking_of s))(fst x \<mapsto> snd x)\<rparr>)"
    using add_segment_tracks(3) [OF Cons.prems, of "fst x" "snd x"] by (simp add: s1_def)
  have "tracking_of (add_missing oldest highest xs s1) = (tracking_of s)\<lparr>tk_sizes := (\<lambda>seg.
       case tk_sizes (tracking_of s) seg of Some n \<Rightarrow> Some n
       | None \<Rightarrow> if completed_before_snapshot oldest highest seg then None else map_of (x # xs) seg)\<rparr>"
    using Cons.IH [OF i1(1)] unfolding t1
    by (cases x) (auto intro!: tracking_eqI split: option.splits)
  then show ?case using Cons.IH [OF i1(1)] i1(2) unfolding eq by simp
qed

lemma snapshot_entries:
  assumes inv: "ss_inv s"
  shows "distinct (map pe_seg_seq (to_progress_entries s))" "list_all covers_bitmap (to_progress_entries s)"
    "entry_sizes (to_progress_entries s) = tk_sizes (tracking_of s)"
    "\<Union> (acked_refs ` set (to_progress_entries s)) = tk_resolved (tracking_of s)"
proof -
  have b: "btree (ss_segments s)" and pi: "\<forall>x \<in> set (ss_segments s). sp_inv (snd x)" using inv by (simp_all add: ss_inv_def)
  have keys: "map pe_seg_seq (to_progress_entries s) = map fst (ss_segments s)"
    by (auto simp: to_progress_entries_def entry_from_bitmap_def)
  then show "distinct (map pe_seg_seq (to_progress_entries s))" using btree_distinct [OF b] by simp
  show "list_all covers_bitmap (to_progress_entries s)"
    using pi by (auto simp: to_progress_entries_def list_all_iff covers_bitmap_def entry_from_bitmap_def sp_inv_def)
  have "map (\<lambda>e. (pe_seg_seq e, pe_bundle_count e)) (to_progress_entries s) =
      map (\<lambda>(seg, p). (seg, sp_bundle_count p)) (ss_segments s)"
    by (auto simp: to_progress_entries_def entry_from_bitmap_def)
  then show "entry_sizes (to_progress_entries s) = tk_sizes (tracking_of s)"
    by (simp add: entry_sizes_def tracking_of_def map_of_map comp_def)
  show "\<Union> (acked_refs ` set (to_progress_entries s)) = tk_resolved (tracking_of s)" (is "?L = ?R")
  proof (rule set_eqI)
    fix r
    have "r \<in> ?L \<longleftrightarrow> (\<exists>p. (segment_seq r, p) \<in> set (ss_segments s) \<and> bundle_index r < sp_bundle_count p \<and> bundle_index r \<in> sp_set p)"
      by (force simp: to_progress_entries_def acked_refs_def entry_from_bitmap_def sp_set_def)
    also have "\<dots> \<longleftrightarrow> (\<exists>p. map_of (ss_segments s) (segment_seq r) = Some p \<and> bundle_index r < sp_bundle_count p \<and> bundle_index r \<in> sp_set p)"
      using btree_distinct [OF b] by simp
    also have "\<dots> \<longleftrightarrow> r \<in> ?R" using ss_inv_segment [OF inv] sp.resolved_below by (auto simp: resolved_iff)
    finally show "r \<in> ?L \<longleftrightarrow> r \<in> ?R" .
  qed
qed

lemma restore_subscriber_tracks:
  assumes "list_all covers_bitmap es" "distinct (map pe_seg_seq es)"
  shows "\<exists>s'. restore_subscriber sid oldest es available = Some s' \<and> ss_inv s' \<and> ss_id s' = sid \<and>
    tracking_of s' = \<lparr>tk_sizes = (\<lambda>seg. case entry_sizes es seg of Some n \<Rightarrow> Some n
                    | None \<Rightarrow> if completed_before_snapshot oldest (highest_persisted es) seg then None else map_of available seg),
                 tk_resolved = \<Union> (acked_refs ` set es), tk_claimed = {}, tk_active = False\<rparr>"
proof -
  have c: "ss_claimed (SubscriberState_new sid) = {}" by (simp add: SubscriberState_new_def)
  have n: "\<forall>e \<in> set es. tk_sizes (tracking_of (SubscriberState_new sid)) (pe_seg_seq e) = None"
    by (simp add: SubscriberState_new_def)
  obtain s1 where s1: "restore_entries es (SubscriberState_new sid) = Some s1" "ss_inv s1"
    "ss_id s1 = ss_id (SubscriberState_new sid)" and t1: "tracking_of s1 = (tracking_of (SubscriberState_new sid))\<lparr>
      tk_sizes := tk_sizes (tracking_of (SubscriberState_new sid)) ++ entry_sizes es,
      tk_resolved := tk_resolved (tracking_of (SubscriberState_new sid)) \<union> \<Union> (acked_refs ` set es)\<rparr>"
    using restore_entries_tracks [OF ss_inv_new c assms n] by blast
  let ?s = "add_missing oldest (highest_persisted es) available s1"
  note m = add_missing_tracks [OF s1(2), of oldest "highest_persisted es" available]
  have "tracking_of ?s = \<lparr>tk_sizes = (\<lambda>seg. case entry_sizes es seg of Some n \<Rightarrow> Some n
      | None \<Rightarrow> if completed_before_snapshot oldest (highest_persisted es) seg then None else map_of available seg),
     tk_resolved = \<Union> (acked_refs ` set es), tk_claimed = {}, tk_active = False\<rparr>"
    using m unfolding t1 tracking_of_new by (simp add: tracking_new_def)
  then show ?thesis using m s1 by (intro exI [of _ ?s]) (simp add: restore_subscriber_def SubscriberState_new_def)
qed

lemma load_subscribers_lookup:
  assumes "load_subscribers crc fault dir d available sids acc = Some res"
  shows "map_of (fst res) sid =
    (if sid \<in> set sids then
       (case read_progress_file crc fault (progress_file_path dir sid) d of
          Inl e \<Rightarrow> map_of (fst acc) sid
        | Inr (oldest, es) \<Rightarrow> restore_subscriber sid oldest es available)
     else map_of (fst acc) sid)"
  using assms
proof (induction sids arbitrary: acc)
  case (Cons x sids)
  show ?case
  proof (cases "read_progress_file crc fault (progress_file_path dir x) d")
    case (Inl e)
    then show ?thesis using Cons by auto
  next
    case (Inr y)
    obtain oldest es where y: "y = (oldest, es)" by (cases y)
    obtain s acc' where s: "restore_subscriber x oldest es available = Some s"
      and acc': "fst acc' = AList.update x s (fst acc)" "load_subscribers crc fault dir d available sids acc' = Some res"
      using Cons.prems Inr y by (auto simp: Let_def split: bind_splits)
    show ?thesis using Cons.IH [OF acc'(2)] s Inr y acc'(1) by (auto simp: update_conv split: sum.split prod.split)
  qed
qed simp

subsection \<open>Opening a directory of progress files\<close>

definition subs_inv :: "(subscriber_id \<times> subscriber_state) list \<Rightarrow> bool" where
  "subs_inv subs \<longleftrightarrow> distinct (map fst subs) \<and> (\<forall>x \<in> set subs. ss_inv (snd x) \<and> ss_id (snd x) = fst x)"

definition reg_inv :: "registry \<Rightarrow> bool" where
  "reg_inv rg \<longleftrightarrow> subs_inv (rg_subscribers rg)"

lemma subs_inv_lookup: "subs_inv subs \<Longrightarrow> map_of subs sid = Some s \<Longrightarrow> ss_inv s \<and> ss_id s = sid"
proof -
  assume inv: "subs_inv subs" and s: "map_of subs sid = Some s"
  have "ss_inv (snd (sid, s)) \<and> ss_id (snd (sid, s)) = fst (sid, s)"
    using inv map_of_SomeD [OF s] unfolding subs_inv_def by blast
  then show ?thesis by simp
qed

lemma subs_inv_update: "subs_inv subs \<Longrightarrow> ss_inv s \<Longrightarrow> ss_id s = sid \<Longrightarrow> subs_inv (AList.update sid s subs)"
proof -
  assume inv: "subs_inv subs" and s: "ss_inv s" "ss_id s = sid"
  have d: "distinct (map fst (AList.update sid s subs))" using inv by (simp add: subs_inv_def distinct_update)
  have "ss_inv (snd x) \<and> ss_id (snd x) = fst x" if "x \<in> set (AList.update sid s subs)" for x
  proof -
    have "map_of (AList.update sid s subs) (fst x) = Some (snd x)" using that d by simp
    then show ?thesis using subs_inv_lookup [OF inv] s by (auto simp: update_conv' split: if_splits)
  qed
  then show ?thesis using d by (simp add: subs_inv_def)
qed

definition restorable :: "progress_entry list \<Rightarrow> bool" where
  "restorable es \<longleftrightarrow> list_all covers_bitmap es \<and> distinct (map pe_seg_seq es)"

lemma load_subscribers_total:
  assumes "\<And>sid oldest es. sid \<in> set sids \<Longrightarrow>
      read_progress_file crc fault (progress_file_path dir sid) d = Inr (oldest, es) \<Longrightarrow> restorable es"
    and "subs_inv (fst acc)"
  shows "\<exists>res. load_subscribers crc fault dir d available sids acc = Some res \<and> subs_inv (fst res)"
  using assms
proof (induction sids arbitrary: acc)
  case (Cons x sids)
  have ih: "\<exists>res. load_subscribers crc fault dir d available sids acc' = Some res \<and> subs_inv (fst res)"
    if "subs_inv (fst acc')" for acc'
    by (rule Cons.IH [OF Cons.prems(1) that]) simp_all
  show ?case
  proof (cases "read_progress_file crc fault (progress_file_path dir x) d")
    case (Inl e)
    then show ?thesis using ih [OF Cons.prems(2)] by simp
  next
    case (Inr y)
    obtain oldest es where y: "y = (oldest, es)" by (cases y)
    have "restorable es" using Cons.prems(1) [of x] Inr y by simp
    then obtain s where s: "restore_subscriber x oldest es available = Some s" "ss_inv s" "ss_id s = x"
      using restore_subscriber_tracks [of es x oldest available] by (auto simp: restorable_def)
    have "subs_inv (fst (AList.update x s (fst acc), h))" for h :: "segment_seq option"
      using subs_inv_update [OF Cons.prems(2) s(2,3)] by simp
    note ih = ih [OF this]
    show ?thesis using ih s(1) Inr y by (simp add: Let_def)
  qed
qed simp

lemma scan_exact:
  "scan_progress_files None dir d = Inr sids \<Longrightarrow>
   sid \<in> set sids \<longleftrightarrow> valid_id sid \<and> file_content (progress_file_path dir sid) d \<noteq> None"
proof -
  assume "scan_progress_files None dir d = Inr sids"
  then have sids: "sids = List.map_filter scan_name [snd p. p \<leftarrow> map fst (dk_names d), fst p = dir]"
    by (simp add: scan_progress_files_def)
  have "sid \<in> set sids \<longleftrightarrow> (\<exists>name. (dir, name) \<in> fst ` set (dk_names d) \<and> scan_name name = Some sid)"
    unfolding sids by (force simp: List.map_filter_def)
  also have "\<dots> \<longleftrightarrow> valid_id sid \<and> progress_file_path dir sid \<in> fst ` set (dk_names d)"
    unfolding progress_file_path_def using scan_name_sound scan_name_final by blast
  finally show ?thesis by (simp add: content_at_def map_of_eq_None_iff)
qed

lemma open_total:
  assumes c: "\<exists>available. collect_counts pr (pr_available_segments pr) = Inr available"
    and r: "\<And>sid oldest es. valid_id sid \<Longrightarrow>
      read_progress_file crc fault (progress_file_path dir sid) d = Inr (oldest, es) \<Longrightarrow> restorable es"
  shows "\<exists>rg. registry_open crc None fault dir ex pr d = Some (Inr rg) \<and> reg_inv rg \<and> rg_data_dir rg = dir"
proof (cases ex)
  case True
  obtain sids where sids: "scan_progress_files None dir d = Inr sids" by (simp add: scan_progress_files_def)
  obtain available where a: "(if sids = [] then Inr [] else collect_counts pr (pr_available_segments pr)) = Inr available"
    using c by (cases "sids = []") auto
  have "restorable es" if "sid \<in> set sids" "read_progress_file crc fault (progress_file_path dir sid) d = Inr (oldest, es)"
    for sid oldest es
    using r [of sid] that scan_exact [OF sids] by blast
  then obtain res where "load_subscribers crc fault dir d available sids ([], None) = Some res" "subs_inv (fst res)"
    using load_subscribers_total [of sids crc fault dir d "([], None)" available] by (auto simp: subs_inv_def)
  then show ?thesis using True sids a by (cases res) (auto simp: registry_open_def reg_inv_def Let_def)
qed (simp add: registry_open_def reg_inv_def subs_inv_def)

lemma open_lookup:
  assumes o: "registry_open crc None fault dir True pr d = Some (Inr rg)" and v: "valid_id sid"
    and f: "file_content (progress_file_path dir sid) d \<noteq> None"
  obtains available where "collect_counts pr (pr_available_segments pr) = Inr available"
    "map_of (rg_subscribers rg) sid = (case read_progress_file crc fault (progress_file_path dir sid) d of
       Inl e \<Rightarrow> None | Inr (oldest, es) \<Rightarrow> restore_subscriber sid oldest es available)"
proof -
  obtain sids where sids: "scan_progress_files None dir d = Inr sids" by (simp add: scan_progress_files_def)
  have m: "sid \<in> set sids" using scan_exact [OF sids] v f by blast
  then have ne: "sids \<noteq> []" by auto
  obtain available res where a: "collect_counts pr (pr_available_segments pr) = Inr available"
    and l: "load_subscribers crc fault dir d available sids ([], None) = Some res" "rg_subscribers rg = fst res"
    using o sids ne by (auto simp: registry_open_def Let_def split: sum.splits)
  show ?thesis using load_subscribers_lookup [OF l(1), of sid] m a l(2) by (intro that) (simp_all split: sum.splits prod.splits)
qed

subsection \<open>Progress across a restart\<close>

lemma written_content:
  assumes inv: "disk_inv d" and v: "valid_id sid"
    and w: "write_progress_file crc dir sid oldest es faults d = (Inr (), d')"
  shows "file_content (progress_file_path dir sid) d' = Some (progress_content crc oldest es)"
  using write_progress_file_effect [OF inv v w] by (simp add: updates_def)

lemma entries_length [simp]: "length (to_progress_entries s) = segment_count s"
  by (simp add: to_progress_entries_def segment_count_def)

lemma restart_restores:
  assumes inv: "ss_inv s" and v: "valid_id sid" and d: "disk_inv d"
    and st: "list_all storable (to_progress_entries s)" and n: "segment_count s \<le> unat MAX_ENTRY_COUNT"
    and w: "write_progress_file crc dir sid oldest (to_progress_entries s) faults d = (Inr (), d')"
    and o: "registry_open crc None (\<lambda>p. None) dir True pr d' = Some (Inr rg)"
  shows "\<exists>s'. map_of (rg_subscribers rg) sid = Some s' \<and> ss_inv s' \<and> tk_claimed (tracking_of s') = {} \<and>
    tk_resolved (tracking_of s') = tk_resolved (tracking_of s) \<and>
    tk_sizes (tracking_of s) \<subseteq>\<^sub>m tk_sizes (tracking_of s')"
proof -
  let ?es = "to_progress_entries s"
  have fc: "file_content (progress_file_path dir sid) d' = Some (progress_content crc oldest ?es)"
    by (rule written_content [OF d v w])
  have "parse_progress crc (progress_file_path dir sid) (progress_content crc oldest ?es) = Inr (oldest, ?es)"
    using parse_content [of ?es crc _ oldest] entries_roundtrip [OF st, of _ "[]"] n by simp
  then have r: "read_progress_file crc (\<lambda>p. None) (progress_file_path dir sid) d' = Inr (oldest, ?es)"
    using fc by (simp add: read_progress_file_def)
  obtain available where m: "map_of (rg_subscribers rg) sid = restore_subscriber sid oldest ?es available"
    using open_lookup [OF o v] fc r by auto
  note e = snapshot_entries [OF inv]
  obtain s' where s': "restore_subscriber sid oldest ?es available = Some s'" "ss_inv s'" and t: "tracking_of s' =
      \<lparr>tk_sizes = (\<lambda>seg. case entry_sizes ?es seg of Some n \<Rightarrow> Some n
          | None \<Rightarrow> if completed_before_snapshot oldest (highest_persisted ?es) seg then None else map_of available seg),
       tk_resolved = \<Union> (acked_refs ` set ?es), tk_claimed = {}, tk_active = False\<rparr>"
    using restore_subscriber_tracks [OF e(2,1)] by blast
  have "tk_sizes (tracking_of s) \<subseteq>\<^sub>m tk_sizes (tracking_of s')"
    unfolding t e(3) [symmetric] by (auto simp: map_le_def)
  then show ?thesis using m s' t e(4) by (intro exI [of _ s']) (simp del: tracking_of_simps add: t)
qed

lemma small_storable:
  assumes "sp_inv p"
  shows "storable (entry_from_bitmap seg (sp_bundle_count p) (sp_resolved p)) \<longleftrightarrow> unat (sp_bundle_count p) \<le> 65536"
proof -
  let ?n = "unat (sp_bundle_count p)"
  have "div_ceil ?n 64 \<le> 1024 \<longleftrightarrow> ?n \<le> 65536"
  proof
    assume "div_ceil ?n 64 \<le> 1024"
    then have "div_ceil ?n 64 * 64 \<le> 1024 * 64" by (rule mult_right_mono) simp
    then show "?n \<le> 65536" using div_ceil_covers [of 64 ?n] by simp
  next
    assume "?n \<le> 65536"
    then have "div_ceil ?n 64 * 64 < 1025 * 64" using div_ceil_tight [of 64 ?n] by simp
    then show "div_ceil ?n 64 \<le> 1024" by simp
  qed
  then show ?thesis using assms
    by (simp add: storable_def entry_from_bitmap_def sp_inv_def words_needed_def MAX_BITMAP_WORDS_def)
qed

lemma entry_unreadable:
  assumes "sp_inv p" "65536 < unat (sp_bundle_count p)" "unat (sp_bundle_count p) \<le> 4194240"
  shows "MAX_BITMAP_WORDS < (of_nat (length (sp_resolved p)) :: 16 word)"
proof -
  let ?n = "unat (sp_bundle_count p)"
  have l: "length (sp_resolved p) = div_ceil ?n 64" using assms(1) by (simp add: sp_inv_def words_needed_def)
  have "div_ceil ?n 64 * 64 < 65536 * 64" using div_ceil_tight [of 64 ?n] assms(3) by simp
  then have "div_ceil ?n 64 < 65536" by simp
  moreover have "1024 * 64 < div_ceil ?n 64 * 64" using div_ceil_covers [of 64 ?n] assms(2) by simp
  then have "1024 < div_ceil ?n 64" by simp
  ultimately show ?thesis by (simp add: l MAX_BITMAP_WORDS_def word_less_nat_alt unat_of_nat)
qed

lemma oversized_unreadable:
  assumes inv: "ss_inv s" and n: "segment_count s \<le> unat MAX_ENTRY_COUNT"
    and small: "\<forall>seg m. tk_sizes (tracking_of s) seg = Some m \<longrightarrow> unat m \<le> 4194240"
    and big: "tk_sizes (tracking_of s) seg = Some m" "65536 < unat m"
  shows "\<exists>err. parse_progress crc pth (progress_content crc oldest (to_progress_entries s)) = Inl err"
proof -
  let ?es = "to_progress_entries s"
  obtain p where p: "map_of (ss_segments s) seg = Some p" "sp_bundle_count p = m" using big(1) by auto
  have "\<exists>e \<in> set ?es. \<not> storable e"
    using small_storable [OF ss_inv_segment [OF inv p(1)], of seg] big(2) p map_of_SomeD [OF p(1)]
    by (intro bexI [of _ "entry_from_bitmap seg m (sp_resolved p)"]) (force simp: to_progress_entries_def)+
  then obtain es1 e es2 where es: "?es = es1 @ e # es2" "\<not> storable e" "\<forall>x \<in> set es1. storable x"
    using split_list_first_prop [of ?es "\<lambda>e. \<not> storable e"] by auto
  have "e \<in> set ?es" using es(1) by simp
  then obtain k q where q: "(k, q) \<in> set (ss_segments s)" "e = entry_from_bitmap k (sp_bundle_count q) (sp_resolved q)"
    by (auto simp: to_progress_entries_def)
  then have mq: "map_of (ss_segments s) k = Some q" using inv by (simp add: ss_inv_def btree_distinct)
  have qi: "sp_inv q" by (rule ss_inv_segment [OF inv mq])
  have "65536 < unat (sp_bundle_count q)" "unat (sp_bundle_count q) \<le> 4194240"
    using es(2) q(2) small_storable [OF qi, of k] small mq by auto
  then have un: "MAX_BITMAP_WORDS < (of_nat (length (pe_acked_bitmap e)) :: 16 word)"
    using entry_unreadable [OF qi] q(2) by (simp add: entry_from_bitmap_def)
  have l: "length ?es = length es1 + Suc (length es2)" unfolding es(1) by simp
  have c: "concat (map entry_serialize ?es) =
      concat (map entry_serialize es1) @ entry_serialize e @ concat (map entry_serialize es2)" unfolding es(1) by simp
  have bad: "read_entries (length ?es) pth (concat (map entry_serialize ?es)) =
      Inl (Err_ProgressCorrupted pth (Bitmap_Words_Too_Large (of_nat (length (pe_acked_bitmap e)))))"
    unfolding l c using es(3) by (intro read_entries_error entry_too_large [OF un]) (simp add: list_all_iff)
  have le: "length ?es \<le> unat MAX_ENTRY_COUNT" using n by simp
  show ?thesis by (simp only: parse_content [OF le] bad map_sum.simps) simp
qed

lemma restart_loses_oversized:
  assumes inv: "ss_inv s" and v: "valid_id sid" and d: "disk_inv d"
    and n: "segment_count s \<le> unat MAX_ENTRY_COUNT"
    and small: "\<forall>seg m. tk_sizes (tracking_of s) seg = Some m \<longrightarrow> unat m \<le> 4194240"
    and big: "tk_sizes (tracking_of s) seg = Some m" "65536 < unat m"
    and w: "write_progress_file crc dir sid oldest (to_progress_entries s) faults d = (Inr (), d')"
    and o: "registry_open crc None (\<lambda>p. None) dir True pr d' = Some (Inr rg)"
  shows "map_of (rg_subscribers rg) sid = None"
proof -
  let ?es = "to_progress_entries s"
  have fc: "file_content (progress_file_path dir sid) d' = Some (progress_content crc oldest ?es)"
    by (rule written_content [OF d v w])
  obtain err where "parse_progress crc (progress_file_path dir sid) (progress_content crc oldest ?es) = Inl err"
    using oversized_unreadable [OF inv n small big] by blast
  then have err: "read_progress_file crc (\<lambda>p. None) (progress_file_path dir sid) d' = Inl err"
    using fc by (simp add: read_progress_file_def)
  have ex: "file_content (progress_file_path dir sid) d' \<noteq> None" using fc by simp
  obtain available where "map_of (rg_subscribers rg) sid =
      (case read_progress_file crc (\<lambda>p. None) (progress_file_path dir sid) d' of
       Inl e \<Rightarrow> None | Inr (oldest, es) \<Rightarrow> restore_subscriber sid oldest es available)"
    by (rule open_lookup [OF o v ex])
  then show ?thesis by (simp add: err)
qed

subsection \<open>Forced completion\<close>

definition pending_in :: "segment_seq \<Rightarrow> subscriber_state \<Rightarrow> bundle_index set" where
  "pending_in seg s = {i. Bundle_Ref seg i \<in> tk_pending (tracking_of s)}"

lemma collect_unresolved_set:
  "sp_inv p \<Longrightarrow> collect_unresolved is p = Some {i \<in> set is. i \<notin> sp_set p}"
  by (induction "is") (auto simp: sp.test_law)

lemma collect_unresolved_pending:
  assumes "ss_inv s" "map_of (ss_segments s) seg = Some p"
  shows "collect_unresolved (indices (sp_bundle_count p)) p = Some (pending_in seg s)"
  using collect_unresolved_set [OF ss_inv_segment [OF assms], of "indices (sp_bundle_count p)"] assms(2)
  by (simp add: set_indices pending_in_def pending_iff)

definition completed :: "segment_seq set \<Rightarrow> tracking \<Rightarrow> tracking" where
  "completed S t = t\<lparr>tk_resolved := tk_resolved t \<union> {r \<in> tk_pending t. segment_seq r \<in> S},
                     tk_claimed := {r \<in> tk_claimed t. segment_seq r \<notin> S}\<rparr>"

lemma completed_pending: "tk_pending (completed S t) = {r \<in> tk_pending t. segment_seq r \<notin> S}"
  by (auto simp: completed_def tk_pending_def)

lemma completed_completed: "completed S (completed T t) = completed (S \<union> T) t"
proof (rule tracking_eqI)
  fix r
  show "r \<in> tk_resolved (completed S (completed T t)) \<longleftrightarrow> r \<in> tk_resolved (completed (S \<union> T) t)"
    using completed_pending [of T t] by (auto simp: completed_def)
qed (auto simp: completed_def)

lemma completed_none: "completed {} t = t"
  by (simp add: completed_def)

lemma complete_segments_effect:
  assumes "ss_inv s" "set segs \<subseteq> dom (map_of loss)"
  shows "\<exists>loss' flag s'. complete_segments segs loss flag0 s = Some (loss', flag, s') \<and> ss_inv s' \<and> ss_id s' = ss_id s \<and>
    tracking_of s' = completed (set segs) (tracking_of s) \<and>
    flag = (flag0 \<or> (\<exists>seg \<in> set segs. tk_sizes (tracking_of s) seg \<noteq> None)) \<and>
    (\<forall>seg. map_of loss' seg = map_option (\<lambda>A. if seg \<in> set segs then A \<union> pending_in seg s else A) (map_of loss seg))"
  using assms
proof (induction segs arbitrary: s loss flag0)
  case Nil
  then show ?case by (simp add: completed_none option.map_ident)
next
  case (Cons g segs)
  obtain s1 where s1: "force_complete_segment g s = Some (tk_sizes (tracking_of s) g \<noteq> None, s1)" "ss_inv s1"
    "ss_id s1 = ss_id s" and t1: "tracking_of s1 = completed {g} (tracking_of s)"
    using force_complete_tracks [OF Cons.prems(1), of g] by (auto simp: completed_def)
  obtain A where A: "map_of loss g = Some A" using Cons.prems(2) by auto
  define loss1 where "loss1 = (if map_of (ss_segments s) g = None then loss else AList.update g (A \<union> pending_in g s) loss)"
  have no: "pending_in g s = {}" if "map_of (ss_segments s) g = None"
    using that by (simp add: pending_in_def pending_iff)
  have m1: "map_of loss1 = (map_of loss)(g \<mapsto> A \<union> pending_in g s)"
    using A no by (auto simp: loss1_def update_conv' fun_eq_iff)
  have step: "complete_segments (g # segs) loss flag0 s =
      complete_segments segs loss1 (flag0 \<or> tk_sizes (tracking_of s) g \<noteq> None) s1"
    using s1(1) A collect_unresolved_pending [OF Cons.prems(1), of g]
    by (cases "map_of (ss_segments s) g") (simp_all add: loss1_def)
  have dom1: "set segs \<subseteq> dom (map_of loss1)" using Cons.prems(2) by (auto simp: m1)
  obtain loss' flag s' where r: "complete_segments segs loss1 (flag0 \<or> tk_sizes (tracking_of s) g \<noteq> None) s1 = Some (loss', flag, s')"
    "ss_inv s'" "ss_id s' = ss_id s1" "tracking_of s' = completed (set segs) (tracking_of s1)"
    "flag = ((flag0 \<or> tk_sizes (tracking_of s) g \<noteq> None) \<or> (\<exists>seg \<in> set segs. tk_sizes (tracking_of s1) seg \<noteq> None))"
    "\<forall>seg. map_of loss' seg = map_option (\<lambda>A. if seg \<in> set segs then A \<union> pending_in seg s1 else A) (map_of loss1 seg)"
    using Cons.IH [OF s1(2) dom1] by blast
  have p1: "pending_in seg s1 = (if seg = g then {} else pending_in seg s)" for seg
    unfolding pending_in_def t1 completed_pending by auto
  have "map_of loss' seg = map_option (\<lambda>A. if seg \<in> set (g # segs) then A \<union> pending_in seg s else A) (map_of loss seg)" for seg
    using r(6) p1 A by (cases "map_of loss seg") (auto simp: m1)
  moreover have "tracking_of s' = completed (set (g # segs)) (tracking_of s)"
    unfolding r(4) t1 completed_completed by simp
  moreover have "tk_sizes (tracking_of s1) seg = tk_sizes (tracking_of s) seg" for seg
    unfolding t1 by (simp add: completed_def)
  ultimately show ?case using r s1(3) unfolding step by auto
qed

definition touched :: "segment_seq list \<Rightarrow> subscriber_state \<Rightarrow> bool" where
  "touched segs s \<longleftrightarrow> (\<exists>seg \<in> set segs. tk_sizes (tracking_of s) seg \<noteq> None)"

definition pending_of_any :: "segment_seq \<Rightarrow> (subscriber_id \<times> subscriber_state) list \<Rightarrow> bundle_index set" where
  "pending_of_any seg subs = (\<Union>x \<in> set subs. pending_in seg (snd x))"

lemma complete_for_all_effect:
  assumes "\<forall>x \<in> set subs. ss_inv (snd x)" "set segs \<subseteq> dom (map_of loss)"
  shows "\<exists>subs' loss' dirty'. complete_for_all segs subs loss dirty = Some (subs', loss', dirty') \<and>
    list_all2 (\<lambda>x y. fst y = fst x \<and> ss_inv (snd y) \<and> ss_id (snd y) = ss_id (snd x) \<and>
                     tracking_of (snd y) = completed (set segs) (tracking_of (snd x))) subs subs' \<and>
    (\<forall>seg. map_of loss' seg = map_option (\<lambda>A. if seg \<in> set segs then A \<union> pending_of_any seg subs else A) (map_of loss seg)) \<and>
    set dirty' = set dirty \<union> (\<lambda>x. ss_id (snd x)) ` {x \<in> set subs. touched segs (snd x)}"
  using assms
proof (induction subs arbitrary: loss dirty)
  case Nil
  have "map_option (\<lambda>A. if seg \<in> set segs then A \<union> pending_of_any seg [] else A) z = z" for seg z
    by (cases z) (simp_all add: pending_of_any_def)
  then show ?case by simp
next
  case (Cons x xs)
  have ix: "ss_inv (snd x)" and ixs: "\<forall>x \<in> set xs. ss_inv (snd x)" using Cons.prems(1) by simp_all
  obtain loss1 flag s1 where 1: "complete_segments segs loss False (snd x) = Some (loss1, flag, s1)" "ss_inv s1" "ss_id s1 = ss_id (snd x)"
    "tracking_of s1 = completed (set segs) (tracking_of (snd x))"
    "flag = touched segs (snd x)"
    "\<forall>seg. map_of loss1 seg = map_option (\<lambda>A. if seg \<in> set segs then A \<union> pending_in seg (snd x) else A) (map_of loss seg)"
    using complete_segments_effect [OF ix Cons.prems(2), of False] by (auto simp: touched_def)
  have d1: "set segs \<subseteq> dom (map_of loss1)" using Cons.prems(2) 1(6) by (auto simp: dom_def)
  let ?dirty = "if flag then List.insert (ss_id s1) dirty else dirty"
  obtain subs2 loss2 dirty2 where 2: "complete_for_all segs xs loss1 ?dirty = Some (subs2, loss2, dirty2)"
    "list_all2 (\<lambda>x y. fst y = fst x \<and> ss_inv (snd y) \<and> ss_id (snd y) = ss_id (snd x) \<and>
                     tracking_of (snd y) = completed (set segs) (tracking_of (snd x))) xs subs2"
    "\<forall>seg. map_of loss2 seg = map_option (\<lambda>A. if seg \<in> set segs then A \<union> pending_of_any seg xs else A) (map_of loss1 seg)"
    "set dirty2 = set ?dirty \<union> (\<lambda>x. ss_id (snd x)) ` {x \<in> set xs. touched segs (snd x)}"
    using Cons.IH [OF ixs d1, of ?dirty] by blast
  have "map_of loss2 seg = map_option (\<lambda>A. if seg \<in> set segs then A \<union> pending_of_any seg (x # xs) else A) (map_of loss seg)" for seg
    using 1(6) 2(3) by (cases "map_of loss seg") (auto simp: pending_of_any_def)
  moreover have "set dirty2 = set dirty \<union> (\<lambda>x. ss_id (snd x)) ` {y \<in> set (x # xs). touched segs (snd y)}"
  proof -
    have "{y \<in> set (x # xs). touched segs (snd y)} =
        (if flag then insert x {y \<in> set xs. touched segs (snd y)} else {y \<in> set xs. touched segs (snd y)})"
      using 1(5) by auto
    then show ?thesis unfolding 2(4) using 1(3) by simp
  qed
  ultimately show ?case using 1(1-4) 2(1,2) by simp
qed

lemma entry_complete_iff:
  assumes "sp_inv p"
  shows "entry_is_complete (entry_from_bitmap seg (sp_bundle_count p) (sp_resolved p)) \<longleftrightarrow> progress_is_complete p"
proof -
  have "acked_count (entry_from_bitmap seg (sp_bundle_count p) (sp_resolved p)) = of_nat (unat (sp_resolved_count p))"
    using assms by (simp add: acked_count_bits entry_from_bitmap_def sp_inv_def)
  then show ?thesis by (simp add: entry_is_complete_def progress_is_complete_def) (simp add: entry_from_bitmap_def)
qed

lemma incomplete_entries:
  assumes inv: "ss_inv s"
  shows "pe_seg_seq ` set (filter (\<lambda>e. \<not> entry_is_complete e) (to_progress_entries s)) = segment_seq ` tk_pending (tracking_of s)"
proof (rule set_eqI)
  fix seg
  have d: "distinct (map fst (ss_segments s))" using inv by (simp add: ss_inv_def btree_distinct)
  have "seg \<in> pe_seg_seq ` set (filter (\<lambda>e. \<not> entry_is_complete e) (to_progress_entries s)) \<longleftrightarrow>
      (\<exists>p. (seg, p) \<in> set (ss_segments s) \<and> \<not> entry_is_complete (entry_from_bitmap seg (sp_bundle_count p) (sp_resolved p)))"
    by (force simp: to_progress_entries_def entry_from_bitmap_def)
  also have "\<dots> \<longleftrightarrow> (\<exists>p. map_of (ss_segments s) seg = Some p \<and> \<not> progress_is_complete p)"
    using d ss_inv_segment [OF inv, of seg] entry_complete_iff by auto
  also have "\<dots> \<longleftrightarrow> seg \<in> segment_seq ` tk_pending (tracking_of s)"
    using complete_pending [OF inv, of seg] by (cases "map_of (ss_segments s) seg") (auto simp: pending_iff)
  finally show "seg \<in> pe_seg_seq ` set (filter (\<lambda>e. \<not> entry_is_complete e) (to_progress_entries s)) \<longleftrightarrow>
      seg \<in> segment_seq ` tk_pending (tracking_of s)" .
qed

definition claims_pending :: "(subscriber_id \<times> subscriber_state) list \<Rightarrow> bool" where
  \<comment> \<open>subscribers hold claims only on tracked, unresolved bundles\<close>
  "claims_pending subs \<longleftrightarrow> (\<forall>x \<in> set subs. ss_claimed (snd x) \<subseteq> tk_pending (tracking_of (snd x)))"

definition read_by_any :: "segment_seq \<Rightarrow> (subscriber_id \<times> subscriber_state) list \<Rightarrow> bool" where
  "read_by_any seg subs \<longleftrightarrow> (\<exists>x \<in> set subs. has_claimed_in_segment seg (snd x))"

text \<open>
  The survey looks for readers of the segments that are pending so far, so a claim counts only if
  its holder or a subscriber visited earlier has pending bundles in the segment.
\<close>

definition seen_reader :: "segment_seq \<Rightarrow> (subscriber_id \<times> subscriber_state) list \<Rightarrow> bool" where
  "seen_reader seg subs \<longleftrightarrow>
     (\<exists>earlier x later. subs = earlier @ x # later \<and> has_claimed_in_segment seg (snd x) \<and>
        pending_of_any seg (earlier @ [x]) \<noteq> {})"

lemma seen_reader_Cons:
  "seen_reader seg (x # xs) \<longleftrightarrow>
     has_claimed_in_segment seg (snd x) \<and> pending_in seg (snd x) \<noteq> {} \<or> seen_reader seg xs \<or>
     read_by_any seg xs \<and> pending_in seg (snd x) \<noteq> {}"
proof
  assume "seen_reader seg (x # xs)"
  then obtain e y l where e: "x # xs = e @ y # l" "has_claimed_in_segment seg (snd y)" "pending_of_any seg (e @ [y]) \<noteq> {}"
    unfolding seen_reader_def by blast
  show "has_claimed_in_segment seg (snd x) \<and> pending_in seg (snd x) \<noteq> {} \<or> seen_reader seg xs \<or>
     read_by_any seg xs \<and> pending_in seg (snd x) \<noteq> {}"
  proof (cases e)
    case Nil
    then show ?thesis using e by (simp add: pending_of_any_def)
  next
    case (Cons z e')
    then have "xs = e' @ y # l" "z = x" using e(1) by simp_all
    moreover have "pending_in seg (snd x) \<noteq> {} \<or> pending_of_any seg (e' @ [y]) \<noteq> {}"
      using e(3) Cons \<open>z = x\<close> by (auto simp: pending_of_any_def)
    moreover have "seen_reader seg xs" if "pending_of_any seg (e' @ [y]) \<noteq> {}"
      unfolding seen_reader_def using \<open>xs = e' @ y # l\<close> e(2) that by blast
    moreover have "read_by_any seg xs" unfolding read_by_any_def using \<open>xs = e' @ y # l\<close> e(2) by auto
    ultimately show ?thesis by blast
  qed
next
  assume "has_claimed_in_segment seg (snd x) \<and> pending_in seg (snd x) \<noteq> {} \<or> seen_reader seg xs \<or>
     read_by_any seg xs \<and> pending_in seg (snd x) \<noteq> {}"
  then consider "has_claimed_in_segment seg (snd x)" "pending_in seg (snd x) \<noteq> {}" | "seen_reader seg xs"
    | y where "y \<in> set xs" "has_claimed_in_segment seg (snd y)" "pending_in seg (snd x) \<noteq> {}"
    unfolding read_by_any_def by blast
  then show "seen_reader seg (x # xs)"
  proof cases
    case 1
    then show ?thesis unfolding seen_reader_def
      by (intro exI [of _ "[]"] exI [of _ x] exI [of _ xs]) (simp add: pending_of_any_def)
  next
    case 2
    then obtain e y l where "xs = e @ y # l" "has_claimed_in_segment seg (snd y)" "pending_of_any seg (e @ [y]) \<noteq> {}"
      unfolding seen_reader_def by blast
    then show ?thesis unfolding seen_reader_def
      by (intro exI [of _ "x # e"] exI [of _ y] exI [of _ l]) (auto simp: pending_of_any_def)
  next
    case 3
    from split_list [OF 3(1)] obtain e l where "xs = e @ y # l" by blast
    with 3 show ?thesis unfolding seen_reader_def
      by (intro exI [of _ "x # e"] exI [of _ y] exI [of _ l]) (auto simp: pending_of_any_def)
  qed
qed

lemma survey_pending_exact:
  assumes "\<forall>x \<in> set subs. ss_inv (snd x)"
  shows "survey_pending subs (P, R) =
    (P \<union> {seg. pending_of_any seg subs \<noteq> {}}, R \<union> {seg. seen_reader seg subs \<or> seg \<in> P \<and> read_by_any seg subs})"
  using assms
proof (induction subs arbitrary: P R)
  case Nil
  then show ?case by (simp add: pending_of_any_def read_by_any_def seen_reader_def)
next
  case (Cons x xs)
  let ?s = "snd x"
  have inv: "ss_inv ?s" and xs: "\<forall>x \<in> set xs. ss_inv (snd x)" using Cons.prems by simp_all
  have seg: "segment_seq ` tk_pending (tracking_of ?s) = {seg. pending_in seg ?s \<noteq> {}}"
    unfolding pending_in_def by (rule set_eqI) (simp add: segments_of)
  let ?P = "P \<union> {seg. pending_in seg ?s \<noteq> {}}"
  have step: "survey_pending (x # xs) (P, R) = survey_pending xs (?P, R \<union> {g \<in> ?P. has_claimed_in_segment g ?s})"
    unfolding survey_pending.simps Let_def prod.case incomplete_entries [OF inv] seg by simp
  have "?P \<union> {seg. pending_of_any seg xs \<noteq> {}} = P \<union> {seg. pending_of_any seg (x # xs) \<noteq> {}}"
    by (auto simp: pending_of_any_def)
  moreover have "R \<union> {g \<in> ?P. has_claimed_in_segment g ?s} \<union> {seg. seen_reader seg xs \<or> seg \<in> ?P \<and> read_by_any seg xs} =
      R \<union> {seg. seen_reader seg (x # xs) \<or> seg \<in> P \<and> read_by_any seg (x # xs)}"
    unfolding seen_reader_Cons by (auto simp: read_by_any_def)
  ultimately show ?case unfolding step Cons.IH [OF xs] by simp
qed

text \<open>A reader with pending bundles in the segment is always seen.\<close>

lemma pending_reader_seen:
  assumes "x \<in> set subs" "has_claimed_in_segment seg (snd x)" "pending_in seg (snd x) \<noteq> {}"
  shows "seen_reader seg subs"
proof -
  obtain e l where "subs = e @ x # l" using split_list [OF assms(1)] by blast
  then show ?thesis using assms(2,3) unfolding seen_reader_def
    by (intro exI [of _ e] exI [of _ x] exI [of _ l]) (auto simp: pending_of_any_def)
qed

lemma seen_reader_reads: "seen_reader seg subs \<Longrightarrow> read_by_any seg subs"
  by (auto simp: seen_reader_def read_by_any_def)

lemma claims_pending_seen:
  assumes "claims_pending subs"
  shows "seen_reader seg subs \<longleftrightarrow> read_by_any seg subs"
proof
  assume "read_by_any seg subs"
  then obtain x where x: "x \<in> set subs" "has_claimed_in_segment seg (snd x)" by (auto simp: read_by_any_def)
  have "ss_claimed (snd x) \<subseteq> tk_pending (tracking_of (snd x))" using assms x(1) by (simp add: claims_pending_def)
  then have "seg \<in> segment_seq ` tk_pending (tracking_of (snd x))" using x(2) by (auto simp: has_claimed_in_segment_def)
  then have "pending_in seg (snd x) \<noteq> {}" unfolding pending_in_def by (simp add: segments_of)
  then show "seen_reader seg subs" by (rule pending_reader_seen [OF x])
qed (rule seen_reader_reads)

lemma hd_filter_find: "(if filter P xs = [] then None else Some (hd (filter P xs))) = find P xs"
  by (induction xs) auto

lemma droppable_lowest:
  fixes A :: "segment_seq set"
  shows "(if filter P (sorted_list_of_set A) = [] then None else Some (hd (filter P (sorted_list_of_set A)))) =
    lowest {x \<in> A. P x}"
  unfolding hd_filter_find by (simp add: find_sorted_lowest)

definition droppable :: "registry \<Rightarrow> segment_seq set" where
  "droppable rg = {seg. pending_of_any seg (rg_subscribers rg) \<noteq> {} \<and> \<not> seen_reader seg (rg_subscribers rg)}"

lemma completed_in_registry:
  assumes inv: "reg_inv rg" and segs: "set segs \<subseteq> dom (map_of loss)"
  shows "\<exists>loss' rg'. complete_in_registry segs loss rg = Some (loss', rg') \<and> reg_inv rg' \<and>
    rg_data_dir rg' = rg_data_dir rg \<and>
    list_all2 (\<lambda>x y. fst y = fst x \<and> tracking_of (snd y) = completed (set segs) (tracking_of (snd x)))
      (rg_subscribers rg) (rg_subscribers rg') \<and>
    set (rg_dirty rg') = set (rg_dirty rg) \<union> fst ` {x \<in> set (rg_subscribers rg). touched segs (snd x)} \<and>
    (\<forall>seg. map_of loss' seg = map_option (\<lambda>A. if seg \<in> set segs then A \<union> pending_of_any seg (rg_subscribers rg) else A) (map_of loss seg))"
proof -
  let ?subs = "rg_subscribers rg"
  have i: "\<forall>x \<in> set ?subs. ss_inv (snd x)" and ids: "\<forall>x \<in> set ?subs. ss_id (snd x) = fst x" and d: "distinct (map fst ?subs)"
    using inv by (simp_all add: reg_inv_def subs_inv_def)
  obtain subs' loss' dirty' where e: "complete_for_all segs ?subs loss (rg_dirty rg) = Some (subs', loss', dirty')"
    and l: "list_all2 (\<lambda>x y. fst y = fst x \<and> ss_inv (snd y) \<and> ss_id (snd y) = ss_id (snd x) \<and>
                     tracking_of (snd y) = completed (set segs) (tracking_of (snd x))) ?subs subs'"
    and m: "\<forall>seg. map_of loss' seg = map_option (\<lambda>A. if seg \<in> set segs then A \<union> pending_of_any seg ?subs else A) (map_of loss seg)"
    and dr: "set dirty' = set (rg_dirty rg) \<union> (\<lambda>x. ss_id (snd x)) ` {x \<in> set ?subs. touched segs (snd x)}"
    using complete_for_all_effect [OF i segs, of "rg_dirty rg"] by blast
  have "map fst subs' = map fst ?subs" using l by (induction rule: list_all2_induct) simp_all
  moreover have "\<forall>y \<in> set subs'. ss_inv (snd y) \<and> ss_id (snd y) = fst y"
  proof
    fix y assume "y \<in> set subs'"
    then obtain k where k: "k < length subs'" "y = subs' ! k" by (auto simp: in_set_conv_nth)
    have "k < length ?subs" using k(1) list_all2_lengthD [OF l] by simp
    then show "ss_inv (snd y) \<and> ss_id (snd y) = fst y"
      using list_all2_nthD2 [OF l k(1)] k(2) ids nth_mem [of k ?subs] by simp
  qed
  ultimately have "subs_inv subs'" using d by (simp add: subs_inv_def)
  moreover have "list_all2 (\<lambda>x y. fst y = fst x \<and> tracking_of (snd y) = completed (set segs) (tracking_of (snd x))) ?subs subs'"
    by (rule list_all2_mono [OF l]) simp
  moreover have "(\<lambda>x. ss_id (snd x)) ` {x \<in> set ?subs. touched segs (snd x)} = fst ` {x \<in> set ?subs. touched segs (snd x)}"
    using ids by (intro image_cong) auto
  ultimately show ?thesis using e m dr by (simp add: complete_in_registry_def reg_inv_def)
qed

lemma force_drop_effect:
  assumes inv: "reg_inv rg"
  shows "\<exists>rg' loss. force_drop_oldest_pending_segments rg =
      Some ((case lowest (droppable rg) of None \<Rightarrow> [] | Some g \<Rightarrow> [g], loss), rg') \<and> reg_inv rg' \<and>
    (\<forall>seg. map_of loss seg = (if lowest (droppable rg) = Some seg then Some (pending_of_any seg (rg_subscribers rg)) else None)) \<and>
    list_all2 (\<lambda>x y. fst y = fst x \<and>
        tracking_of (snd y) = completed (set_option (lowest (droppable rg))) (tracking_of (snd x)))
      (rg_subscribers rg) (rg_subscribers rg')"
proof -
  let ?subs = "rg_subscribers rg"
  have i: "\<forall>x \<in> set ?subs. ss_inv (snd x)" using inv by (simp add: reg_inv_def subs_inv_def)
  define P where "P = {seg. pending_of_any seg ?subs \<noteq> {}}"
  define R where "R = {seg. seen_reader seg ?subs}"
  have sv: "survey_pending ?subs ({}, {}) = (P, R)" unfolding P_def R_def using survey_pending_exact [OF i, of "{}" "{}"] by simp
  let ?l = "filter (\<lambda>seg. seg \<notin> R) (sorted_list_of_set P)"
  have low: "(if ?l = [] then None else Some (hd ?l)) = lowest (droppable rg)"
  proof -
    have "{seg \<in> P. seg \<notin> R} = droppable rg" by (auto simp: P_def R_def droppable_def)
    then show ?thesis unfolding droppable_lowest by simp
  qed
  show ?thesis
  proof (cases "?l = []")
    case True
    then have "lowest (droppable rg) = None" using low by simp
    moreover have "list_all2 (\<lambda>x y. fst y = fst x \<and> tracking_of (snd y) = completed {} (tracking_of (snd x))) ?subs ?subs"
      by (rule list_all2_refl) (simp add: completed_none)
    ultimately show ?thesis using True inv sv by (simp add: force_drop_oldest_pending_segments_def)
  next
    case False
    then have lo: "lowest (droppable rg) = Some (hd ?l)" using low by simp
    obtain loss rg' where c: "complete_in_registry [hd ?l] [(hd ?l, {})] rg = Some (loss, rg')" "reg_inv rg'"
      "list_all2 (\<lambda>x y. fst y = fst x \<and> tracking_of (snd y) = completed {hd ?l} (tracking_of (snd x))) ?subs (rg_subscribers rg')"
      "\<forall>seg. map_of loss seg = map_option (\<lambda>A. if seg \<in> {hd ?l} then A \<union> pending_of_any seg ?subs else A) (map_of [(hd ?l, {})] seg)"
      using completed_in_registry [OF inv, of "[hd ?l]" "[(hd ?l, {})]"] by auto
    have "force_drop_oldest_pending_segments rg = Some (([hd ?l], loss), rg')"
      using False sv c(1) by (simp add: force_drop_oldest_pending_segments_def)
    then show ?thesis unfolding lo using c by simp
  qed
qed

end
