(* ===== verification/Quiver_System.thy ===== *)
theory Quiver_System
  imports Quiver_Registry_Laws
begin

section \<open>Registry, files and crashes together\<close>

text \<open>
  A history of the registry together with its disk: any sequence of calls, with failing reads
  and writes, and of crashes followed by a restart from what the crash left. Along a history the
  set of resolutions (a subscriber acked or rejected a bundle, or the segment was forcibly
  completed) is recorded. Histories are restricted to segments of at most 65,536 bundles, the
  largest that the progress file can hold.
\<close>

datatype 'b reg_op =
    R_Register subscriber_id
  | R_Activate "'b segment_provider" subscriber_id
  | R_Deactivate subscriber_id
  | R_Unregister subscriber_id "io_error option"
  | R_Finalized segment_seq "32 word"
  | R_Poll "'b segment_provider" subscriber_id
  | R_Claim "'b segment_provider" subscriber_id bundle_ref
  | R_Resolve ack_outcome "'b bundle_handle"
  | R_Defer "'b bundle_handle"
  | R_Drop "'b bundle_handle"
  | R_Flush "subscriber_id \<Rightarrow> write_faults"
  | R_Cleanup segment_seq
  | R_Force_Drop
  | R_Force_Complete "segment_seq list"
  | R_Restart disk "'b segment_provider" "path \<Rightarrow> io_error option"

type_synonym resolutions = "(subscriber_id \<times> bundle_ref) set"

definition of_segments :: "segment_seq list \<Rightarrow> resolutions" where
  "of_segments segs = {x. segment_seq (snd x) \<in> set segs}"

fun exec_reg :: "crc32 \<Rightarrow> 'b reg_op \<Rightarrow> registry \<times> disk \<Rightarrow> (resolutions \<times> registry \<times> disk) option" where
  "exec_reg crc (R_Register sid) (rg, d) = Some ({}, register sid rg, d)"
| "exec_reg crc (R_Activate pr sid) (rg, d) = Some ({}, snd (activate pr sid rg), d)"
| "exec_reg crc (R_Deactivate sid) (rg, d) = Some ({}, snd (deactivate sid rg), d)"
| "exec_reg crc (R_Unregister sid fault) (rg, d) = Some ({}, snd (unregister_subscriber sid fault rg d))"
| "exec_reg crc (R_Finalized seg n) (rg, d) = Some ({}, on_segment_finalized seg n rg, d)"
| "exec_reg crc (R_Poll pr sid) (rg, d) = map_option (\<lambda>(res, rg'). ({}, rg', d)) (poll_next_bundle pr sid rg)"
| "exec_reg crc (R_Claim pr sid r) (rg, d) = map_option (\<lambda>(res, rg'). ({}, rg', d)) (claim_bundle pr sid r rg)"
| "exec_reg crc (R_Resolve out h) (rg, d) =
     map_option (\<lambda>rg'. ({(bh_subscriber_id h, bh_bundle_ref h)}, rg', d)) (handle_resolve out h rg)"
| "exec_reg crc (R_Defer h) (rg, d) = Some ({}, snd (handle_defer h rg), d)"
| "exec_reg crc (R_Drop h) (rg, d) = Some ({}, handle_drop h rg, d)"
| "exec_reg crc (R_Flush faults) (rg, d) = Some ({}, snd (flush_progress crc faults rg d))"
| "exec_reg crc (R_Cleanup seg) (rg, d) = Some ({}, cleanup_segments_before seg rg, d)"
| "exec_reg crc R_Force_Drop (rg, d) =
     map_option (\<lambda>((segs, loss), rg'). (of_segments segs, rg', d)) (force_drop_oldest_pending_segments rg)"
| "exec_reg crc (R_Force_Complete segs) (rg, d) =
     map_option (\<lambda>(loss, rg'). (of_segments segs, rg', d)) (force_complete_segments segs rg)"
| "exec_reg crc (R_Restart d' pr fault) (rg, d) =
     (case registry_open crc None fault (rg_data_dir rg) True pr d' of
        Some (Inr rg') \<Rightarrow> Some ({}, rg', d')
      | _ \<Rightarrow> None)"

definition small :: "32 word \<Rightarrow> bool" where
  "small n \<longleftrightarrow> unat n \<le> 65536"

definition small_provider :: "'b segment_provider \<Rightarrow> bool" where
  "small_provider pr \<longleftrightarrow> (\<forall>seg n. pr_bundle_count pr seg = Inr n \<longrightarrow> small n)"

fun enabled :: "'b reg_op \<Rightarrow> disk \<Rightarrow> bool" where
  "enabled (R_Register sid) d \<longleftrightarrow> valid_id sid"
| "enabled (R_Activate pr sid) d \<longleftrightarrow> small_provider pr"
| "enabled (R_Finalized seg n) d \<longleftrightarrow> small n"
| "enabled (R_Restart d' pr fault) d \<longleftrightarrow> crash d d' \<and> small_provider pr \<and>
     (\<exists>available. collect_counts pr (pr_available_segments pr) = Inr available)"
| "enabled op d \<longleftrightarrow> True"

definition registry_new :: "string \<Rightarrow> registry" where
  "registry_new dir = \<lparr>rg_data_dir = dir, rg_subscribers = [], rg_dirty = [], rg_wakeups = 0, rg_highest_progress_segment = None\<rparr>"

inductive reg_reach :: "crc32 \<Rightarrow> string \<Rightarrow> 'b itself \<Rightarrow> resolutions \<Rightarrow> registry \<Rightarrow> disk \<Rightarrow> bool" for crc dir ty where
  start: "reg_reach crc dir ty {} (registry_new dir) empty_disk"
| step: "reg_reach crc dir ty H rg d \<Longrightarrow> enabled op d \<Longrightarrow> exec_reg crc (op :: 'b reg_op) (rg, d) = Some (E, rg', d') \<Longrightarrow>
    reg_reach crc dir ty (H \<union> E) rg' d'"

subsection \<open>The invariant\<close>

definition sub_ok :: "resolutions \<Rightarrow> subscriber_id \<Rightarrow> subscriber_state \<Rightarrow> bool" where
  "sub_ok H sid s \<longleftrightarrow> ss_inv s \<and> ss_id s = sid \<and> valid_id sid \<and>
     (\<forall>r \<in> tk_resolved (tracking_of s). (sid, r) \<in> H) \<and>
     (\<forall>seg n. tk_sizes (tracking_of s) seg = Some n \<longrightarrow> small n)"

definition reg_ok :: "resolutions \<Rightarrow> registry \<Rightarrow> bool" where
  "reg_ok H rg \<longleftrightarrow> distinct (map fst (rg_subscribers rg)) \<and> (\<forall>x \<in> set (rg_subscribers rg). sub_ok H (fst x) (snd x))"

definition file_ok :: "crc32 \<Rightarrow> resolutions \<Rightarrow> subscriber_id \<Rightarrow> bytes \<Rightarrow> bool" where
  "file_ok crc H sid bs \<longleftrightarrow> (\<forall>p oldest es. parse_progress crc p bs = Inr (oldest, es) \<longrightarrow>
     restorable es \<and> (\<forall>e \<in> set es. small (pe_bundle_count e) \<and> (\<forall>r \<in> acked_refs e. (sid, r) \<in> H)))"

definition disk_ok :: "crc32 \<Rightarrow> string \<Rightarrow> resolutions \<Rightarrow> disk \<Rightarrow> bool" where
  "disk_ok crc dir H d \<longleftrightarrow> disk_inv d \<and> (\<forall>sid bs. valid_id sid \<longrightarrow>
     file_content (progress_file_path dir sid) d = Some bs \<or> stable_content (progress_file_path dir sid) d = Some bs \<longrightarrow>
     file_ok crc H sid bs)"

definition sys_inv :: "crc32 \<Rightarrow> string \<Rightarrow> resolutions \<Rightarrow> registry \<Rightarrow> disk \<Rightarrow> bool" where
  "sys_inv crc dir H rg d \<longleftrightarrow> reg_ok H rg \<and> disk_ok crc dir H d \<and> rg_data_dir rg = dir"

lemma sub_ok_mono: "sub_ok H sid s \<Longrightarrow> H \<subseteq> H' \<Longrightarrow> sub_ok H' sid s"
  unfolding sub_ok_def by blast

lemma reg_ok_mono: "reg_ok H rg \<Longrightarrow> H \<subseteq> H' \<Longrightarrow> reg_ok H' rg"
  unfolding reg_ok_def using sub_ok_mono by blast

lemma disk_ok_mono: "disk_ok crc dir H d \<Longrightarrow> H \<subseteq> H' \<Longrightarrow> disk_ok crc dir H' d"
  unfolding disk_ok_def file_ok_def by blast

lemma reg_ok_inv: "reg_ok H rg \<Longrightarrow> reg_inv rg"
  by (auto simp: reg_ok_def reg_inv_def subs_inv_def sub_ok_def)

lemma reg_ok_lookup: "reg_ok H rg \<Longrightarrow> map_of (rg_subscribers rg) sid = Some s \<Longrightarrow> sub_ok H sid s"
  unfolding reg_ok_def by (drule map_of_SomeD) auto

lemma reg_ok_update:
  assumes "reg_ok H rg" "sub_ok H sid s"
  shows "reg_ok H (set_subscriber sid s rg)"
proof -
  let ?m = "AList.update sid s (rg_subscribers rg)"
  have d: "distinct (map fst ?m)" using assms(1) by (simp add: reg_ok_def distinct_update)
  have "sub_ok H (fst x) (snd x)" if "x \<in> set ?m" for x
  proof -
    have "map_of ?m (fst x) = Some (snd x)" using that d by simp
    then show ?thesis using reg_ok_lookup [OF assms(1), of "fst x" "snd x"] assms(2) by (auto simp: update_conv' split: if_splits)
  qed
  then show ?thesis using d by (simp add: reg_ok_def set_subscriber_def)
qed

lemma reg_ok_same: "rg_subscribers rg' = rg_subscribers rg \<Longrightarrow> reg_ok H rg' \<longleftrightarrow> reg_ok H rg"
  by (simp add: reg_ok_def)

lemma reg_ok_map:
  assumes "reg_ok H rg" "\<And>sid s. sub_ok H sid s \<Longrightarrow> sub_ok H sid (f s)"
    and "rg_subscribers rg' = map (\<lambda>(sid, s). (sid, f s)) (rg_subscribers rg)"
  shows "reg_ok H rg'"
  using assms by (auto simp: reg_ok_def comp_def case_prod_beta)

subsection \<open>Subscriber states stay accounted for\<close>

lemma sub_ok_new: "valid_id sid \<Longrightarrow> sub_ok H sid (SubscriberState_new sid)"
  using tracking_of_new [of sid] ss_inv_new [of sid]
  by (simp add: sub_ok_def tracking_new_def del: tracking_of_simps) (simp add: SubscriberState_new_def)

lemma sub_ok_add: "sub_ok H sid s \<Longrightarrow> small n \<Longrightarrow> sub_ok H sid (add_segment seg n s)"
proof -
  assume ok: "sub_ok H sid s" and n: "small n"
  have inv: "ss_inv s" using ok by (simp add: sub_ok_def)
  note t = add_segment_tracks [OF inv, of seg n]
  show ?thesis using ok n t(1,2) unfolding sub_ok_def t(3)
    by (auto simp del: tracking_of_simps split: if_splits)
qed

lemma sub_ok_outcome:
  assumes "sub_ok H sid s"
  shows "\<exists>fresh s'. record_outcome r out s = Some (fresh, s') \<and> sub_ok (H \<union> {(sid, r)}) sid s'"
proof -
  have inv: "ss_inv s" using assms by (simp add: sub_ok_def)
  obtain s' where r: "record_outcome r out s = Some (r \<in> tk_pending (tracking_of s), s')" "ss_inv s'" "ss_id s' = ss_id s"
    and t: "tracking_of s' = (tracking_of s)\<lparr>tk_resolved := tk_resolved (tracking_of s) \<union> ({r} \<inter> tk_pending (tracking_of s)),
      tk_claimed := ss_claimed s - {r}\<rparr>"
    using record_outcome_tracks [OF inv, of r out] by blast
  have "sub_ok (H \<union> {(sid, r)}) sid s'"
    using assms r(2,3) unfolding sub_ok_def t by (auto simp del: tracking_of_simps)
  then show ?thesis using r(1) by blast
qed

lemma sub_ok_claims:
  assumes "sub_ok H sid s" "cs \<inter> tk_resolved (tracking_of s) = {}"
  shows "sub_ok H sid (s\<lparr>ss_claimed := cs\<rparr>)"
proof -
  have inv: "ss_inv s" using assms(1) by (simp add: sub_ok_def)
  show ?thesis using assms(1) ss_inv_claims(1) [OF inv assms(2)]
    unfolding sub_ok_def ss_inv_claims(2) [OF inv assms(2)] by simp
qed

lemma sub_ok_release: "sub_ok H sid s \<Longrightarrow> sub_ok H sid (release r s)"
  unfolding release_def by (rule sub_ok_claims) (auto simp: sub_ok_def ss_inv_def)

lemma sub_ok_claim:
  assumes "sub_ok H sid s"
  shows "\<exists>ok s'. claim r s = Some (ok, s') \<and> sub_ok H sid s'"
proof -
  have inv: "ss_inv s" using assms by (simp add: sub_ok_def)
  show ?thesis
  proof (cases "r \<in> tk_resolved (tracking_of s)")
    case True
    then show ?thesis using claim_tracks [OF inv, of r] assms by auto
  next
    case False
    then have "insert r (ss_claimed s) \<inter> tk_resolved (tracking_of s) = {}" using inv by (auto simp: ss_inv_def)
    then show ?thesis using claim_tracks [OF inv, of r] False sub_ok_claims [OF assms] by simp
  qed
qed

lemma sub_ok_active: "sub_ok H sid s \<Longrightarrow> sub_ok H sid (state_activate s)" "sub_ok H sid s \<Longrightarrow> sub_ok H sid (state_deactivate s)"
  by (simp_all add: sub_ok_def ss_inv_def tracking_of_def state_activate_def state_deactivate_def)

lemma sub_ok_forget: "sub_ok H sid s \<Longrightarrow> sub_ok H sid (remove_completed_segments_before seg s)"
proof -
  assume ok: "sub_ok H sid s"
  have inv: "ss_inv s" using ok by (simp add: sub_ok_def)
  have "ss_id (remove_completed_segments_before seg s) = ss_id s" by (simp add: remove_completed_segments_before_def)
  then show ?thesis using ok forget_tracks(1) [OF inv, of seg] unfolding sub_ok_def forget_tracks(2) [OF inv]
    by (auto simp: Let_def restrict_map_def split: if_splits)
qed

lemma sub_ok_track:
  "sub_ok H sid s \<Longrightarrow> small_provider pr \<Longrightarrow> sub_ok H sid (snd (track_segments pr segs s))"
proof (induction segs arbitrary: s)
  case (Cons seg segs)
  show ?case
  proof (cases "pr_bundle_count pr seg")
    case (Inl e)
    then show ?thesis using Cons.prems by simp
  next
    case (Inr n)
    have "small n" using Cons.prems(2) Inr by (simp add: small_provider_def)
    then show ?thesis using Cons.IH [OF sub_ok_add [OF Cons.prems(1)] Cons.prems(2)] Inr by simp
  qed
qed simp

lemma sub_ok_completed:
  assumes ok: "sub_ok H sid s" and s': "ss_inv s'" "ss_id s' = sid"
    and t: "tracking_of s' = completed (set segs) (tracking_of s)"
  shows "sub_ok (H \<union> of_segments segs) sid s'"
  using ok s' unfolding sub_ok_def t by (auto simp: completed_def of_segments_def simp del: tracking_of_simps)

subsection \<open>Each call keeps the registry accounted for\<close>

lemma reg_ok_register: "reg_ok H rg \<Longrightarrow> valid_id sid \<Longrightarrow> reg_ok H (register sid rg)"
  by (simp add: register_def reg_ok_update sub_ok_new)

lemma reg_ok_activate: "reg_ok H rg \<Longrightarrow> small_provider pr \<Longrightarrow> reg_ok H (snd (activate pr sid rg))"
proof -
  assume ok: "reg_ok H rg" and pr: "small_provider pr"
  show ?thesis
  proof (cases "map_of (rg_subscribers rg) sid")
    case None
    then show ?thesis using ok by (simp add: activate_def)
  next
    case (Some s)
    obtain e s' where t: "track_segments pr (pr_available_segments pr) s = (e, s')" by fastforce
    have "sub_ok H sid s'" using sub_ok_track [OF reg_ok_lookup [OF ok Some] pr, of "pr_available_segments pr"] t by simp
    then show ?thesis using ok Some t sub_ok_active(1) [of H sid s'] reg_ok_update [OF ok]
      by (cases e) (simp_all add: activate_def)
  qed
qed

lemma reg_ok_deactivate: "reg_ok H rg \<Longrightarrow> reg_ok H (snd (deactivate sid rg))"
  using reg_ok_lookup [of H rg sid] sub_ok_active(2) [of H sid] reg_ok_update [of H rg sid]
  by (cases "map_of (rg_subscribers rg) sid") (simp_all add: deactivate_def)

lemma reg_ok_finalized: "reg_ok H rg \<Longrightarrow> small n \<Longrightarrow> reg_ok H (on_segment_finalized seg n rg)"
  by (erule reg_ok_map [where f = "\<lambda>s. if ss_active s then add_segment seg n s else s"])
    (simp_all add: sub_ok_add on_segment_finalized_def)

lemma reg_ok_cleanup: "reg_ok H rg \<Longrightarrow> reg_ok H (cleanup_segments_before seg rg)"
  by (erule reg_ok_map [where f = "remove_completed_segments_before seg"])
    (simp_all add: sub_ok_forget cleanup_segments_before_def)

lemma reg_ok_release: "reg_ok H rg \<Longrightarrow> reg_ok H (release_bundle sid r rg)"
  using reg_ok_lookup [of H rg sid] sub_ok_release [of H sid] reg_ok_update [of H rg sid]
  by (cases "map_of (rg_subscribers rg) sid") (simp_all add: release_bundle_def)

lemma reg_ok_drop: "reg_ok H rg \<Longrightarrow> reg_ok H (handle_drop h rg)"
  by (simp add: handle_drop_def reg_ok_release)

lemma reg_ok_poll:
  assumes ok: "reg_ok H rg"
  shows "\<exists>res rg'. poll_next_bundle pr sid rg = Some (res, rg') \<and> reg_ok H rg' \<and> rg_data_dir rg' = rg_data_dir rg"
proof (cases "map_of (rg_subscribers rg) sid")
  case None
  then show ?thesis using ok by (simp add: poll_next_bundle_def)
next
  case (Some s)
  have s: "sub_ok H sid s" by (rule reg_ok_lookup [OF ok Some])
  then have np: "next_pending s = Some (lowest (tk_pending (tracking_of s) - ss_claimed s))"
    by (simp add: sub_ok_def next_pending_tracks)
  show ?thesis
  proof (cases "lowest (tk_pending (tracking_of s) - ss_claimed s)")
    case None
    then show ?thesis using ok Some np by (simp add: poll_next_bundle_def)
  next
    case (Some r)
    obtain b s' where c: "claim r s = Some (b, s')" "sub_ok H sid s'" using sub_ok_claim [OF s, of r] by blast
    show ?thesis
      using ok \<open>map_of (rg_subscribers rg) sid = Some s\<close> np Some c(1) reg_ok_update [OF ok c(2)]
      by (simp add: poll_next_bundle_def set_subscriber_def)
  qed
qed

lemma reg_ok_claim:
  assumes ok: "reg_ok H rg"
  shows "\<exists>res rg'. claim_bundle pr sid r rg = Some (res, rg') \<and> reg_ok H rg' \<and> rg_data_dir rg' = rg_data_dir rg"
proof (cases "map_of (rg_subscribers rg) sid")
  case None
  then show ?thesis using ok by (simp add: claim_bundle_def)
next
  case (Some s)
  have s: "sub_ok H sid s" by (rule reg_ok_lookup [OF ok Some])
  then have ir: "is_resolved r s = Some (r \<in> tk_resolved (tracking_of s))" by (simp add: sub_ok_def is_resolved_tracks)
  obtain b s' where c: "claim r s = Some (b, s')" "sub_ok H sid s'" using sub_ok_claim [OF s, of r] by blast
  show ?thesis using ok Some ir c(1) reg_ok_update [OF ok c(2)] by (simp add: claim_bundle_def set_subscriber_def)
qed

lemma reg_ok_resolve:
  assumes ok: "reg_ok H rg"
  shows "\<exists>rg'. handle_resolve out h rg = Some rg' \<and> reg_ok (H \<union> {(bh_subscriber_id h, bh_bundle_ref h)}) rg' \<and>
    rg_data_dir rg' = rg_data_dir rg"
proof -
  let ?sid = "bh_subscriber_id h" and ?r = "bh_bundle_ref h"
  let ?H = "H \<union> {(?sid, ?r)}"
  have ok': "reg_ok ?H rg" using reg_ok_mono [OF ok] by blast
  show ?thesis
  proof (cases "map_of (rg_subscribers rg) ?sid")
    case None
    then show ?thesis using ok' reg_ok_same [of "mark_dirty ?sid rg" rg]
      by (simp add: handle_resolve_def record_resolution_def handle_drop_def mark_dirty_def Let_def)
  next
    case (Some s)
    obtain fresh s' where r: "record_outcome ?r out s = Some (fresh, s')" "sub_ok ?H ?sid s'"
      using sub_ok_outcome [OF reg_ok_lookup [OF ok Some], of ?r out] by blast
    have "reg_ok ?H (mark_dirty ?sid (set_subscriber ?sid s' rg))"
      using reg_ok_update [OF ok' r(2)] reg_ok_same [of "mark_dirty ?sid (set_subscriber ?sid s' rg)" "set_subscriber ?sid s' rg"]
      by (simp add: mark_dirty_def)
    then show ?thesis using Some r(1)
      by (simp add: handle_resolve_def record_resolution_def handle_drop_def Let_def) (simp add: mark_dirty_def set_subscriber_def)
  qed
qed

lemma reg_ok_completed:
  assumes ok: "reg_ok H rg" and inv: "reg_inv rg'"
    and l: "list_all2 (\<lambda>x y. fst y = fst x \<and> tracking_of (snd y) = completed (set segs) (tracking_of (snd x)))
      (rg_subscribers rg) (rg_subscribers rg')"
  shows "reg_ok (H \<union> of_segments segs) rg'"
proof -
  let ?subs = "rg_subscribers rg" and ?subs' = "rg_subscribers rg'"
  have "sub_ok (H \<union> of_segments segs) (fst y) (snd y)" if y: "y \<in> set ?subs'" for y
  proof -
    obtain k where k: "k < length ?subs'" "y = ?subs' ! k" using y by (metis in_set_conv_nth)
    let ?x = "?subs ! k"
    have x: "?x \<in> set ?subs" using k(1) list_all2_lengthD [OF l] by simp
    have e: "fst y = fst ?x" "tracking_of (snd y) = completed (set segs) (tracking_of (snd ?x))"
      using list_all2_nthD2 [OF l k(1)] k(2) by simp_all
    have "ss_inv (snd y)" "ss_id (snd y) = fst ?x" using inv y e(1) by (auto simp: reg_inv_def subs_inv_def)
    moreover have "sub_ok H (fst ?x) (snd ?x)" using ok x by (simp add: reg_ok_def)
    ultimately show ?thesis unfolding e(1) using e(2) by (intro sub_ok_completed)
  qed
  then show ?thesis using inv by (simp add: reg_ok_def reg_inv_def subs_inv_def)
qed

lemma reg_ok_force_drop:
  assumes ok: "reg_ok H rg"
  shows "\<exists>segs loss rg'. force_drop_oldest_pending_segments rg = Some ((segs, loss), rg') \<and>
    reg_ok (H \<union> of_segments segs) rg' \<and> rg_data_dir rg' = rg_data_dir rg"
proof -
  obtain P R where sv: "survey_pending (rg_subscribers rg) ({}, {}) = (P, R)" by fastforce
  let ?l = "filter (\<lambda>seg. seg \<notin> R) (sorted_list_of_set P)"
  show ?thesis
  proof (cases "?l = []")
    case True
    then show ?thesis using ok sv by (simp add: force_drop_oldest_pending_segments_def of_segments_def)
  next
    case False
    obtain loss rg' where c: "complete_in_registry [hd ?l] [(hd ?l, {})] rg = Some (loss, rg')" "reg_inv rg'"
      "rg_data_dir rg' = rg_data_dir rg"
      "list_all2 (\<lambda>x y. fst y = fst x \<and> tracking_of (snd y) = completed (set [hd ?l]) (tracking_of (snd x)))
        (rg_subscribers rg) (rg_subscribers rg')"
      using completed_in_registry [OF reg_ok_inv [OF ok], of "[hd ?l]" "[(hd ?l, {})]"] by auto
    then show ?thesis using False sv reg_ok_completed [OF ok c(2,4)]
      by (simp add: force_drop_oldest_pending_segments_def)
  qed
qed

lemma loss_map_keys: "set segs \<subseteq> dom (map_of (fold (\<lambda>seg m. btree_insert seg {} m) segs (m :: loss)))"
proof -
  have "fst ` set (fold (\<lambda>seg m. btree_insert seg {} m) segs (m :: loss)) = fst ` set m \<union> set segs" for m
    by (induction segs arbitrary: m) (auto simp: btree_insert_keys)
  then show ?thesis by (simp add: dom_map_of_conv_image_fst)
qed

lemma reg_ok_force_complete:
  assumes ok: "reg_ok H rg"
  shows "\<exists>loss rg'. force_complete_segments segs rg = Some (loss, rg') \<and>
    reg_ok (H \<union> of_segments segs) rg' \<and> rg_data_dir rg' = rg_data_dir rg"
proof (cases "segs = [] \<or> rg_subscribers rg = []")
  case True
  then show ?thesis using reg_ok_mono [OF ok, of "H \<union> of_segments segs"] by (auto simp: force_complete_segments_def)
next
  case False
  obtain loss rg' where c: "complete_in_registry segs (fold (\<lambda>seg m. btree_insert seg {} m) segs []) rg = Some (loss, rg')"
    "reg_inv rg'" "rg_data_dir rg' = rg_data_dir rg"
    "list_all2 (\<lambda>x y. fst y = fst x \<and> tracking_of (snd y) = completed (set segs) (tracking_of (snd x)))
      (rg_subscribers rg) (rg_subscribers rg')"
    using completed_in_registry [OF reg_ok_inv [OF ok] loss_map_keys, of segs "[]"] by blast
  then show ?thesis using False reg_ok_completed [OF ok c(2,4)] by (simp add: force_complete_segments_def)
qed

subsection \<open>What the writer stores\<close>

lemma header_too_many:
  "\<not> count \<le> MAX_ENTRY_COUNT \<Longrightarrow> \<exists>err. header_deserialize (header_serialize (ProgressHeader_new oldest count)) p = Inl err"
  by (simp add: header_deserialize_def header_serialize_def ProgressHeader_new_def PROGRESS_MAGIC_def
      HEADER_MIN_SIZE_def HEADER_V1_SIZE_def slice_range_def le_roundtrip not_le)

lemma entries_prefix:
  assumes "list_all storable es" "k \<le> length es"
  shows "\<exists>rest. read_entries k p (concat (map entry_serialize es)) = Inr (take k es, rest)"
proof -
  have "list_all storable (take k es)" using assms(1) by (auto simp: list_all_iff dest: in_set_takeD)
  then have "read_entries (length (take k es)) p (concat (map entry_serialize (take k es)) @ concat (map entry_serialize (drop k es))) =
      Inr (take k es, concat (map entry_serialize (drop k es)))" by (rule entries_roundtrip)
  moreover have "concat (map entry_serialize (take k es)) @ concat (map entry_serialize (drop k es)) = concat (map entry_serialize es)"
    by (metis append_take_drop_id concat_append map_append)
  ultimately show ?thesis using assms(2) by simp
qed

lemma parse_content_prefix:
  assumes st: "list_all storable es"
    and parse: "parse_progress crc p (progress_content crc oldest es) = Inr (o', es')"
  shows "\<exists>k. es' = take k es"
proof -
  define hdr where "hdr = ProgressHeader_new oldest (of_nat (length es))"
  define body where "body = header_serialize hdr @ concat (map entry_serialize es)"
  have c: "progress_content crc oldest es = body @ to_le_bytes 4 (crc body)"
    by (simp add: progress_content_def body_def hdr_def Let_def)
  have t: "take HEADER_V1_SIZE (body @ x) = header_serialize hdr" "take HEADER_V1_SIZE body = header_serialize hdr"
    "slice_range HEADER_V1_SIZE (length body) (body @ x) = concat (map entry_serialize es)" for x
    by (simp_all add: body_def slice_range_def)
  have l: "HEADER_V1_SIZE \<le> length body" by (simp add: body_def)
  have hs: "unat (hd_header_size hdr) = HEADER_V1_SIZE" by (simp add: hdr_def ProgressHeader_new_def HEADER_V1_SIZE_def)
  have "(of_nat (length es) :: 32 word) \<le> MAX_ENTRY_COUNT"
  proof (rule ccontr)
    assume "\<not> (of_nat (length es) :: 32 word) \<le> MAX_ENTRY_COUNT"
    then obtain err where "header_deserialize (header_serialize hdr) p = Inl err"
      using header_too_many unfolding hdr_def by blast
    then show False using parse l unfolding c parse_progress_def by (simp add: FOOTER_SIZE_def Let_def codec_simps t)
  qed
  then have h: "header_deserialize (header_serialize hdr) p = Inr hdr" unfolding hdr_def by (rule header_roundtrip)
  let ?k = "unat (of_nat (length es) :: 32 word)"
  have k: "hd_entry_count hdr = of_nat (length es)" "?k \<le> length es"
    by (simp_all add: hdr_def ProgressHeader_new_def unat_of_nat)
  obtain rest where "read_entries ?k p (concat (map entry_serialize es)) = Inr (take ?k es, rest)"
    using entries_prefix [OF st k(2)] by blast
  then have "es' = take ?k es"
    using parse l unfolding c parse_progress_def by (simp add: FOOTER_SIZE_def Let_def codec_simps t h hs k(1))
  then show ?thesis by blast
qed

lemma snapshot_file_ok:
  assumes ok: "sub_ok H sid s"
  shows "file_ok crc H sid (progress_content crc oldest (to_progress_entries s))"
  unfolding file_ok_def
proof (intro allI impI)
  fix p o' es'
  assume parse: "parse_progress crc p (progress_content crc oldest (to_progress_entries s)) = Inr (o', es')"
  have inv: "ss_inv s" using ok by (simp add: sub_ok_def)
  note e = snapshot_entries [OF inv]
  have sz: "small (pe_bundle_count x)" if "x \<in> set (to_progress_entries s)" for x
  proof -
    have "entry_sizes (to_progress_entries s) (pe_seg_seq x) = Some (pe_bundle_count x)"
      using that e(1) by (auto simp: entry_sizes_def comp_def intro: map_of_is_SomeI)
    then show ?thesis using ok unfolding sub_ok_def e(3) by blast
  qed
  have "storable x" if x: "x \<in> set (to_progress_entries s)" for x
  proof -
    obtain k q where q: "(k, q) \<in> set (ss_segments s)" "x = entry_from_bitmap k (sp_bundle_count q) (sp_resolved q)"
      using x by (auto simp: to_progress_entries_def)
    have "sp_inv q" using inv q(1) by (auto simp: ss_inv_def)
    then show ?thesis using small_storable [of q k] sz [OF x] q(2) by (simp add: small_def entry_from_bitmap_def)
  qed
  then obtain n where es': "es' = take n (to_progress_entries s)"
    using parse_content_prefix [OF _ parse] by (auto simp: list_all_iff)
  have sub: "set es' \<subseteq> set (to_progress_entries s)" unfolding es' by (rule set_take_subset)
  have "restorable es'"
    using e(1,2) sub unfolding restorable_def es' list_all_iff by (auto simp: take_map [symmetric])
  moreover have "(sid, r) \<in> H" if "x \<in> set es'" "r \<in> acked_refs x" for x r
  proof -
    have "r \<in> tk_resolved (tracking_of s)" using that sub e(4) by blast
    then show ?thesis using ok unfolding sub_ok_def by blast
  qed
  ultimately show "restorable es' \<and> (\<forall>e \<in> set es'. small (pe_bundle_count e) \<and> (\<forall>r \<in> acked_refs e. (sid, r) \<in> H))"
    using sz sub by blast
qed

subsection \<open>Each call keeps the disk accounted for\<close>

lemma disk_ok_write:
  assumes ok: "disk_ok crc dir H d" and s: "sub_ok H sid s"
    and w: "write_progress_file crc dir sid oldest (to_progress_entries s) faults d = (res, d')"
  shows "disk_ok crc dir H d'"
proof -
  have v: "valid_id sid" and inv: "disk_inv d" using s ok by (simp_all add: sub_ok_def disk_ok_def)
  let ?f = "progress_file_path dir sid" and ?c = "progress_content crc oldest (to_progress_entries s)"
  note e = write_progress_file_effect [OF inv v w]
  have old: "file_content (progress_file_path dir sid') d = Some bs \<or> stable_content (progress_file_path dir sid') d = Some bs
      \<Longrightarrow> valid_id sid' \<Longrightarrow> file_ok crc H sid' bs" for sid' bs
    using ok unfolding disk_ok_def by blast
  have new: "file_ok crc H sid ?c" by (rule snapshot_file_ok [OF s])
  have "file_ok crc H sid' bs" if v': "valid_id sid'"
    and c: "file_content (progress_file_path dir sid') d' = Some bs \<or> stable_content (progress_file_path dir sid') d' = Some bs" for sid' bs
  proof (cases res)
    case (Inl err)
    then have "same_finals d d'" using e by simp
    then show ?thesis using old [OF _ v'] c final_paths(1) [OF v', of dir] unfolding same_finals_def by metis
  next
    case (Inr u)
    then have u: "updates ?f ?c d d'" using e by simp
    have "file_content (progress_file_path dir sid') d' = Some bs \<or> stable_content (progress_file_path dir sid') d = Some bs"
      using c u final_paths(1) [OF v', of dir] unfolding updates_def by metis
    then show ?thesis
    proof
      assume "stable_content (progress_file_path dir sid') d = Some bs"
      then show ?thesis using old v' by blast
    next
      assume f: "file_content (progress_file_path dir sid') d' = Some bs"
      show ?thesis
      proof (cases "progress_file_path dir sid' = ?f")
        case True
        then have "sid' = sid" by (simp add: progress_file_path_def subscriber_id.expand)
        moreover have "bs = ?c" using f True u by (simp add: updates_def)
        ultimately show ?thesis using new by simp
      next
        case False
        then have "file_content (progress_file_path dir sid') d = Some bs"
          using u f final_paths(1) [OF v', of dir] unfolding updates_def by metis
        then show ?thesis using old v' by blast
      qed
    qed
  qed
  then show ?thesis using e unfolding disk_ok_def by blast
qed

lemma disk_ok_flush_each:
  assumes "\<forall>x \<in> set xs. sub_ok H (fst x) (snd x)" "disk_ok crc dir H d"
  shows "\<exists>n e dirty d'. flush_each crc faults dir xs (n0, e0, dirty0, d) = (n, e, dirty, d') \<and> disk_ok crc dir H d'"
  using assms
proof (induction xs arbitrary: n0 e0 dirty0 d)
  case (Cons x xs)
  obtain sid s where x: "x = (sid, s)" by (cases x)
  let ?o = "case oldest_incomplete_segment s of Some seg \<Rightarrow> seg | None \<Rightarrow> 0"
  obtain res d1 where w: "write_progress_file crc dir sid ?o (to_progress_entries s) (faults sid) d = (res, d1)" by fastforce
  have d1: "disk_ok crc dir H d1" using disk_ok_write [OF Cons.prems(2) _ w] Cons.prems(1) x by simp
  have "\<forall>x \<in> set xs. sub_ok H (fst x) (snd x)" using Cons.prems(1) by simp
  note ih = Cons.IH [OF this d1]
  show ?case
  proof (cases res)
    case (Inl e)
    then show ?thesis
      using ih [of n0 "if e0 = None then Some e else e0" "List.insert sid dirty0"] w x by (simp add: Let_def)
  next
    case (Inr u)
    then show ?thesis using ih [of "n0 + 1" e0 dirty0] w x by (simp add: Let_def)
  qed
qed simp

lemma sys_inv_flush:
  assumes "sys_inv crc dir H rg d" and f: "flush_progress crc faults rg d = (res, rg', d')"
  shows "sys_inv crc dir H rg' d'"
proof (cases "rg_dirty rg = []")
  case True
  then show ?thesis using assms by (simp add: flush_progress_def)
next
  case False
  have ok: "reg_ok H rg" "disk_ok crc dir H d" "rg_data_dir rg = dir" using assms(1) by (simp_all add: sys_inv_def)
  let ?xs = "List.map_filter (\<lambda>sid. map_option (\<lambda>s. (sid, s)) (map_of (rg_subscribers rg) sid)) (rg_dirty rg)"
  have "\<forall>x \<in> set ?xs. sub_ok H (fst x) (snd x)" using reg_ok_lookup [OF ok(1)] by (auto simp: List.map_filter_def)
  then obtain n e dirty d1 where "flush_each crc faults dir ?xs (0, None, [], d) = (n, e, dirty, d1)" "disk_ok crc dir H d1"
    using disk_ok_flush_each [OF _ ok(2)] by blast
  then show ?thesis using False f ok(1,3) by (auto simp: flush_progress_def sys_inv_def reg_ok_def)
qed

lemma fs_remove_inv: "disk_inv d \<Longrightarrow> disk_inv (fs_remove p d)"
proof -
  have m: "map_of (dk_names (fs_remove p d)) q = Some i \<longleftrightarrow> q \<noteq> p \<and> map_of (dk_names d) q = Some i" for q i
    by (auto simp: fs_remove_def delete_conv')
  have eq: "dk_stable (fs_remove p d) = dk_stable d" "dk_synced (fs_remove p d) = dk_synced d" "dk_next (fs_remove p d) = dk_next d"
    by (simp_all add: fs_remove_def)
  show "disk_inv d \<Longrightarrow> disk_inv (fs_remove p d)" unfolding disk_inv_def m eq by blast
qed

lemma disk_ok_remove: "disk_ok crc dir H d \<Longrightarrow> disk_ok crc dir H (fs_remove p d)"
proof -
  assume ok: "disk_ok crc dir H d"
  have f: "file_content q (fs_remove p d) = Some bs \<Longrightarrow> file_content q d = Some bs" for q bs
    by (auto simp: content_at_def fs_remove_def delete_conv' split: if_splits)
  have s: "stable_content q (fs_remove p d) = stable_content q d" for q by (simp add: content_at_def fs_remove_def)
  show ?thesis using ok f fs_remove_inv unfolding disk_ok_def s by blast
qed

lemma sys_inv_unregister:
  assumes "sys_inv crc dir H rg d"
  shows "sys_inv crc dir H (fst (snd (unregister_subscriber sid fault rg d))) (snd (snd (unregister_subscriber sid fault rg d)))"
proof (cases "map_of (rg_subscribers rg) sid = None")
  case True
  then show ?thesis using assms by (simp add: unregister_subscriber_def)
next
  case False
  have ok: "reg_ok H rg" "disk_ok crc dir H d" "rg_data_dir rg = dir" using assms by (simp_all add: sys_inv_def)
  obtain res d' where del: "delete_progress_file (rg_data_dir rg) sid fault d = (res, d')" by fastforce
  have "d' = d \<or> d' = fs_remove (progress_file_path dir sid) d"
    using del ok(3) by (auto simp: delete_progress_file_def Let_def split: option.splits io_error.splits)
  then have "disk_ok crc dir H d'" using ok(2) disk_ok_remove by blast
  moreover have "reg_ok H (rg\<lparr>rg_subscribers := AList.delete sid (rg_subscribers rg), rg_dirty := filter (\<lambda>x. x \<noteq> sid) (rg_dirty rg)\<rparr>)"
    using ok(1) by (auto simp: reg_ok_def AList.delete_eq distinct_map_filter)
  ultimately show ?thesis using False del ok(3) by (auto simp: unregister_subscriber_def sys_inv_def)
qed

lemma collect_counts_small:
  "collect_counts pr segs = Inr xs \<Longrightarrow> small_provider pr \<Longrightarrow> map_of xs seg = Some n \<Longrightarrow> small n"
  by (induction segs arbitrary: xs) (auto simp: small_provider_def split: sum.splits if_splits)

lemma sys_inv_restart:
  assumes inv: "sys_inv crc dir H rg d" and c: "crash d d'" and pr: "small_provider pr"
    and a: "collect_counts pr (pr_available_segments pr) = Inr available"
  shows "\<exists>rg'. registry_open crc None fault dir True pr d' = Some (Inr rg') \<and> sys_inv crc dir H rg' d'"
proof -
  have ok: "disk_ok crc dir H d" using inv by (simp add: sys_inv_def)
  have di: "disk_inv d" using ok by (simp add: disk_ok_def)
  have di': "disk_inv d'" by (rule crash_inv [OF di c])
  have fo: "file_ok crc H sid bs" if v: "valid_id sid" and f: "file_content (progress_file_path dir sid) d' = Some bs" for sid bs
    using crash_content [OF di c final_paths(1) [OF v]] ok f v unfolding disk_ok_def by metis
  have st: "stable_content q d' = file_content q d'" for q using c by (simp add: crash_def)
  have dok: "disk_ok crc dir H d'" unfolding disk_ok_def st using di' fo by blast
  have rdf: "\<exists>bs. file_content (progress_file_path dir sid) d' = Some bs \<and> parse_progress crc (progress_file_path dir sid) bs = Inr y"
    if "read_progress_file crc fault (progress_file_path dir sid) d' = Inr y" for sid y
    using that by (auto simp: read_progress_file_def split: option.splits)
  have r: "restorable es" if "valid_id sid" "read_progress_file crc fault (progress_file_path dir sid) d' = Inr (oldest, es)" for sid oldest es
    using rdf [OF that(2)] fo [OF that(1)] unfolding file_ok_def by blast
  obtain rg' where o: "registry_open crc None fault dir True pr d' = Some (Inr rg')" and ri: "reg_inv rg'" and rd: "rg_data_dir rg' = dir"
    using open_total [of pr crc fault dir d' True] a r by blast
  obtain sids where sids: "scan_progress_files None dir d' = Inr sids" by (simp add: scan_progress_files_def)
  have "sub_ok H sid s" if m: "map_of (rg_subscribers rg') sid = Some s" for sid s
  proof -
    define avail where "avail = (if sids = [] then [] else available)"
    have av: "\<forall>seg n. map_of avail seg = Some n \<longrightarrow> small n"
      using collect_counts_small [OF a pr] by (auto simp: avail_def)
    have "(if sids = [] then Inr [] else collect_counts pr (pr_available_segments pr)) = (Inr avail :: subscriber_error + _)"
      using a by (simp add: avail_def)
    then obtain res where l: "load_subscribers crc fault dir d' avail sids ([], None) = Some res" "rg_subscribers rg' = fst res"
      using o sids by (auto simp: registry_open_def Let_def)
    have sid: "sid \<in> set sids" using load_subscribers_lookup [OF l(1), of sid] m l(2) by (auto split: if_splits)
    then have v: "valid_id sid" using scan_exact [OF sids] by blast
    obtain oldest es where rd': "read_progress_file crc fault (progress_file_path dir sid) d' = Inr (oldest, es)"
      and rs: "restore_subscriber sid oldest es avail = Some s"
      using load_subscribers_lookup [OF l(1), of sid] m l(2) sid by (auto split: sum.splits)
    have re: "list_all covers_bitmap es" "distinct (map pe_seg_seq es)" using r [OF v rd'] by (simp_all add: restorable_def)
    have t: "ss_inv s" "ss_id s = sid" "tracking_of s =
        \<lparr>tk_sizes = (\<lambda>seg. case entry_sizes es seg of Some n \<Rightarrow> Some n
            | None \<Rightarrow> if completed_before_snapshot oldest (highest_persisted es) seg then None else map_of avail seg),
         tk_resolved = \<Union> (acked_refs ` set es), tk_claimed = {}, tk_active = False\<rparr>"
      using restore_subscriber_tracks [OF re, of sid oldest avail] rs by auto
    have es: "\<forall>e \<in> set es. small (pe_bundle_count e) \<and> (\<forall>r \<in> acked_refs e. (sid, r) \<in> H)"
      using rdf [OF rd'] fo [OF v] unfolding file_ok_def by blast
    have "small n" if "entry_sizes es seg = Some n" for seg n
      using that es by (auto simp: entry_sizes_def dest!: map_of_SomeD)
    then have "small n" if "tk_sizes (tracking_of s) seg = Some n" for seg n
      using that av unfolding t(3) by (auto split: option.splits if_splits)
    moreover have "(sid, q) \<in> H" if "q \<in> tk_resolved (tracking_of s)" for q using that es unfolding t(3) by auto
    ultimately show ?thesis using t(1,2) v unfolding sub_ok_def by blast
  qed
  then have "reg_ok H rg'" using ri unfolding reg_ok_def reg_inv_def subs_inv_def by (metis map_of_is_SomeI prod.collapse)
  then show ?thesis using o dok rd by (auto simp: sys_inv_def)
qed

subsection \<open>Histories\<close>

lemma set_subscriber_dir [simp]: "rg_data_dir (set_subscriber sid s rg) = rg_data_dir rg"
  by (simp add: set_subscriber_def)

lemma registry_dirs [simp]:
  "rg_data_dir (register sid rg) = rg_data_dir rg" "rg_data_dir (snd (activate pr sid rg)) = rg_data_dir rg"
  "rg_data_dir (snd (deactivate sid rg)) = rg_data_dir rg" "rg_data_dir (on_segment_finalized seg n rg) = rg_data_dir rg"
  "rg_data_dir (release_bundle sid r rg) = rg_data_dir rg" "rg_data_dir (handle_drop h rg) = rg_data_dir rg"
  "rg_data_dir (cleanup_segments_before seg rg) = rg_data_dir rg"
  by (simp_all add: register_def activate_def deactivate_def on_segment_finalized_def release_bundle_def
      handle_drop_def cleanup_segments_before_def split: option.split prod.split)

lemma exec_reg_inv:
  assumes inv: "sys_inv crc dir H rg d" and en: "enabled op d"
  shows "\<exists>E rg' d'. exec_reg crc op (rg, d) = Some (E, rg', d') \<and> sys_inv crc dir (H \<union> E) rg' d'"
proof -
  have ok: "reg_ok H rg" and dk: "disk_ok crc dir H d" and dd: "rg_data_dir rg = dir" using inv by (simp_all add: sys_inv_def)
  have dk': "disk_ok crc dir (H \<union> E) d" for E by (rule disk_ok_mono [OF dk]) simp
  note calls = reg_ok_register [OF ok] reg_ok_activate [OF ok] reg_ok_deactivate [OF ok] reg_ok_finalized [OF ok]
    reg_ok_drop [OF ok] reg_ok_cleanup [OF ok]
  show ?thesis
  proof (cases op)
    case (R_Unregister sid fault)
    then show ?thesis using sys_inv_unregister [OF inv, of sid fault]
      by (cases "unregister_subscriber sid fault rg d") simp
  next
    case (R_Poll pr sid)
    then show ?thesis using reg_ok_poll [OF ok, of pr sid] dk dd by (auto simp: sys_inv_def)
  next
    case (R_Claim pr sid r)
    then show ?thesis using reg_ok_claim [OF ok, of pr sid r] dk dd by (auto simp: sys_inv_def)
  next
    case (R_Resolve out h)
    then show ?thesis using reg_ok_resolve [OF ok, of out h] dk' [of "{(bh_subscriber_id h, bh_bundle_ref h)}"] dd
      by (auto simp: sys_inv_def)
  next
    case (R_Defer h)
    then show ?thesis using reg_ok_release [OF ok] reg_ok_drop [OF reg_ok_release [OF ok]] dk dd
      by (simp add: sys_inv_def handle_defer_def Let_def)
  next
    case (R_Flush faults)
    then show ?thesis using sys_inv_flush [OF inv] by (cases "flush_progress crc faults rg d") simp
  next
    case R_Force_Drop
    obtain segs loss rg' where "force_drop_oldest_pending_segments rg = Some ((segs, loss), rg')"
      "reg_ok (H \<union> of_segments segs) rg'" "rg_data_dir rg' = rg_data_dir rg"
      using reg_ok_force_drop [OF ok] by blast
    then show ?thesis using R_Force_Drop dk' [of "of_segments segs"] dd by (simp add: sys_inv_def)
  next
    case (R_Force_Complete segs)
    obtain loss rg' where "force_complete_segments segs rg = Some (loss, rg')"
      "reg_ok (H \<union> of_segments segs) rg'" "rg_data_dir rg' = rg_data_dir rg"
      using reg_ok_force_complete [OF ok] by blast
    then show ?thesis using R_Force_Complete dk' [of "of_segments segs"] dd by (simp add: sys_inv_def)
  next
    case (R_Restart d' pr fault)
    then obtain available where "crash d d'" "small_provider pr" "collect_counts pr (pr_available_segments pr) = Inr available"
      using en by auto
    then obtain rg' where "registry_open crc None fault dir True pr d' = Some (Inr rg')" "sys_inv crc dir H rg' d'"
      using sys_inv_restart [OF inv] by blast
    then show ?thesis using R_Restart dd by simp
  qed (use calls dk dd en in \<open>simp_all add: sys_inv_def\<close>)
qed

lemma sys_inv_start: "sys_inv crc dir {} (registry_new dir) empty_disk"
  by (simp add: sys_inv_def registry_new_def reg_ok_def disk_ok_def disk_inv_empty) (simp add: content_at_def empty_disk_def)

lemma reg_reach_inv: "reg_reach crc dir ty H rg d \<Longrightarrow> sys_inv crc dir H rg d"
proof (induction rule: reg_reach.induct)
  case (step H rg d op E rg' d')
  then show ?case using exec_reg_inv [OF step.IH step.hyps(2)] by auto
qed (rule sys_inv_start)

definition example_id :: subscriber_id where
  "example_id = SubscriberId ''exporter-otlp''"

definition example_provider :: "unit segment_provider" where
  "example_provider = \<lparr>pr_available_segments = [5], pr_bundle_count = (\<lambda>seg. Inr 3),
     pr_read_bundle = (\<lambda>r. Inr ()), pr_bundle_item_count = (\<lambda>r. Inr 1)\<rparr>"

definition example_registry :: registry where
  \<comment> \<open>a subscriber that was registered and activated when segment 5 with three bundles was there\<close>
  "example_registry = snd (activate example_provider example_id (register example_id (registry_new ''data'')))"

definition example_subscriber :: subscriber_state where
  "example_subscriber = \<lparr>ss_id = example_id, ss_segments = [(5, SegmentProgress_new 3)], ss_claimed = {}, ss_active = True\<rparr>"

lemma example_reach: "reg_reach crc ''data'' TYPE(unit) {} example_registry empty_disk"
proof -
  have v: "valid_id example_id" using valid_example by (simp add: example_id_def)
  have 1: "reg_reach crc ''data'' TYPE(unit) ({} \<union> {}) (register example_id (registry_new ''data'')) empty_disk"
    by (rule reg_reach.step [OF reg_reach.start, where op = "R_Register example_id"]) (simp_all add: v)
  have sp: "small_provider example_provider" by (simp add: small_provider_def example_provider_def small_def)
  have "reg_reach crc ''data'' TYPE(unit) ({} \<union> {} \<union> {}) example_registry empty_disk"
    by (rule reg_reach.step [OF 1, where op = "R_Activate example_provider example_id"])
      (simp_all add: sp example_registry_def)
  then show ?thesis by simp
qed

lemma example_lookup: "map_of (rg_subscribers example_registry) example_id = Some example_subscriber"
  by (simp add: example_registry_def register_def registry_new_def set_subscriber_def activate_def example_provider_def
      SubscriberState_new_def add_segment_def state_activate_def example_subscriber_def)

text \<open>
  C3. Nothing unresolved is lost. In every history of registry calls with failing reads and
  writes, crashes that keep or lose unsynced data, and restarts, over segments of at most 65,536
  bundles, a bundle of a segment that a subscriber tracks is still pending for it unless that
  subscriber acked or rejected it or the segment was forcibly completed.\<close>

theorem unresolved_bundles_survive:
  assumes "reg_reach crc dir ty H rg d" "map_of (rg_subscribers rg) sid = Some s"
    and "tk_sizes (tracking_of s) seg = Some n" "i < n" "(sid, Bundle_Ref seg i) \<notin> H"
  shows "Bundle_Ref seg i \<in> tk_pending (tracking_of s)"
proof -
  have "sub_ok H sid s" using reg_reach_inv [OF assms(1)] reg_ok_lookup assms(2) unfolding sys_inv_def by blast
  then have "Bundle_Ref seg i \<notin> tk_resolved (tracking_of s)" using assms(5) unfolding sub_ok_def by blast
  then show ?thesis using assms(3,4) by (auto simp: tk_pending_def)
qed

theorem unresolved_bundles_survive_witness:
  "Bundle_Ref 5 1 \<in> tk_pending (tracking_of example_subscriber)"
proof -
  have "tk_sizes (tracking_of example_subscriber) 5 = Some 3"
    by (simp add: example_subscriber_def SegmentProgress_new_def)
  then show ?thesis
    using unresolved_bundles_survive [OF example_reach [where crc = "\<lambda>bs. 0"] example_lookup, of 5 3 1] by simp
qed

text \<open>
  C30. The registry never panics. In every state that a history of calls, crashes and restarts
  can reach over segments of at most 65,536 bundles, no call indexes a bitmap out of range or fails
  an expectation, whatever file operations fail and whatever a crash leaves, and neither does a
  restart with a provider that can count the bundles of its segments.\<close>

theorem registry_never_panics:
  assumes "reg_reach crc dir ty H rg d" "enabled (op :: 'b reg_op) d"
  shows "exec_reg crc op (rg, d) \<noteq> None"
  using exec_reg_inv [OF reg_reach_inv [OF assms(1)] assms(2)] by auto

theorem registry_never_panics_witness:
  "exec_reg (\<lambda>bs. 0) (R_Restart (empty_disk\<lparr>dk_stable := dk_names empty_disk, dk_synced := \<lambda>i. True\<rparr>)
     example_provider (\<lambda>p. None)) (example_registry, empty_disk) \<noteq> None"
proof (rule registry_never_panics [OF example_reach])
  show "enabled (R_Restart (empty_disk\<lparr>dk_stable := dk_names empty_disk, dk_synced := \<lambda>i. True\<rparr>) example_provider (\<lambda>p. None)) empty_disk"
    using crash_self [of empty_disk] by (simp add: small_provider_def example_provider_def small_def)
qed

subsection \<open>Deletion, delivery and persistence\<close>

lemma opt_min_list_lowest: "opt_min_list xs = lowest (set xs)"
proof (cases xs)
  case (Cons y ys)
  have "fold min ys y = Min (set (y # ys))" by (rule Min.set_eq_fold [symmetric])
  then show ?thesis using Cons by (simp add: opt_min_list_def lowest_def)
qed (simp add: opt_min_list_def lowest_def)

lemma lowest_None: "lowest A = None \<longleftrightarrow> A = {}"
  by (simp add: lowest_def)

lemma lowest_least: "lowest (A :: 'a::{linorder,finite} set) = Some a \<Longrightarrow> x \<in> A \<Longrightarrow> a \<le> x"
  by (auto simp: lowest_def split: if_splits)

lemma lowest_in: "finite A \<Longrightarrow> lowest A = Some a \<Longrightarrow> a \<in> A"
  by (cases "A = {}") (auto simp: lowest_def intro: Min_in)

lemma poll_exact:
  assumes inv: "reg_inv rg" and s: "map_of (rg_subscribers rg) sid = Some s" and a: "ss_active s"
  shows "poll_next_bundle pr sid rg =
    Some (case lowest (tk_pending (tracking_of s) - ss_claimed s) of
        None \<Rightarrow> (Inr None, rg)
      | Some r \<Rightarrow> (map_sum id Some (make_handle pr sid r),
                 set_subscriber sid (s\<lparr>ss_claimed := insert r (ss_claimed s)\<rparr>) rg))"
proof -
  have si: "ss_inv s" using subs_inv_lookup inv s unfolding reg_inv_def by blast
  note np = next_pending_tracks [OF si]
  show ?thesis
  proof (cases "lowest (tk_pending (tracking_of s) - ss_claimed s)")
    case None
    then show ?thesis using s a np by (simp add: poll_next_bundle_def)
  next
    case (Some r)
    have "r \<in> tk_pending (tracking_of s)" using lowest_in [OF finite_refs Some] by blast
    then have "r \<notin> tk_resolved (tracking_of s)" by (simp add: tk_pending_def)
    then show ?thesis using s a np Some claim_tracks [OF si, of r] by (simp add: poll_next_bundle_def)
  qed
qed

definition write_fails :: "write_faults \<Rightarrow> bool" where
  "write_fails f \<longleftrightarrow> wf_open f \<noteq> None \<or> wf_write f \<noteq> None \<or> wf_flush f \<noteq> None \<or> wf_sync f \<noteq> None \<or> wf_rename f \<noteq> None"

lemma write_fails_iff: "(\<exists>e. fst (write_progress_file crc dir sid oldest es f d) = Inl e) \<longleftrightarrow> write_fails f"
  by (auto simp: write_progress_file_def Let_def write_fails_def split: option.split prod.split)

lemma flush_each_report:
  "flush_each crc faults dir xs (n0, e0, dirty0, d0) = (n, e, dirty, d) \<Longrightarrow>
   n = n0 + length (filter (\<lambda>x. \<not> write_fails (faults (fst x))) xs) \<and>
   (e = None \<longleftrightarrow> e0 = None \<and> (\<forall>x \<in> set xs. \<not> write_fails (faults (fst x)))) \<and>
   set dirty = set dirty0 \<union> {fst x | x. x \<in> set xs \<and> write_fails (faults (fst x))}"
proof (induction xs arbitrary: n0 e0 dirty0 d0)
  case (Cons x xs)
  obtain sid s where x: "x = (sid, s)" by (cases x)
  let ?w = "write_progress_file crc dir sid (case oldest_incomplete_segment s of Some seg \<Rightarrow> seg | None \<Rightarrow> 0)
    (to_progress_entries s) (faults sid) d0"
  obtain res d1 where w: "?w = (res, d1)" by fastforce
  have iff: "(\<exists>e. res = Inl e) \<longleftrightarrow> write_fails (faults sid)" using write_fails_iff [of crc dir sid _ _ "faults sid" d0] w by (metis fst_conv)
  show ?case
  proof (cases res)
    case (Inl err)
    then have "write_fails (faults sid)" using iff by blast
    then show ?thesis using Cons.IH [of n0 "if e0 = None then Some err else e0" "List.insert sid dirty0" d1] Cons.prems w x Inl
      by (auto simp: Let_def split: if_splits)
  next
    case (Inr u)
    then have "\<not> write_fails (faults sid)" using iff by (metis sum.distinct(1))
    then show ?thesis using Cons.IH [of "n0 + 1" e0 dirty0 d1] Cons.prems w x Inr by (auto simp: Let_def)
  qed
qed simp

subsection \<open>Restarts\<close>

lemma write_no_faults: "\<exists>d'. write_progress_file crc dir sid oldest es no_faults d = (Inr (), d')"
  by (simp add: write_progress_file_def no_faults_def Let_def)

lemma single_file_open:
  assumes v: "valid_id sid" and w: "write_progress_file crc dir sid oldest es no_faults empty_disk = (Inr (), d)"
    and p: "\<And>o' es'. parse_progress crc (progress_file_path dir sid) (progress_content crc oldest es) = Inr (o', es') \<Longrightarrow> restorable es'"
    and c: "\<exists>available. collect_counts pr (pr_available_segments pr) = Inr available"
  shows "\<exists>rg. registry_open crc None (\<lambda>p. None) dir True pr d = Some (Inr rg) \<and> reg_inv rg"
proof -
  have u: "updates (progress_file_path dir sid) (progress_content crc oldest es) empty_disk d"
    using write_progress_file_effect [OF disk_inv_empty v w] by simp
  have "restorable es'"
    if v': "valid_id sid'" and r: "read_progress_file crc (\<lambda>p. None) (progress_file_path dir sid') d = Inr (o', es')" for sid' o' es'
  proof (cases "sid' = sid")
    case True
    then show ?thesis using r u p by (simp add: read_progress_file_def updates_def)
  next
    case False
    then have "progress_file_path dir sid' \<noteq> progress_file_path dir sid"
      by (auto simp: progress_file_path_def subscriber_id.expand)
    then have "file_content (progress_file_path dir sid') d = file_content (progress_file_path dir sid') empty_disk"
      using u final_paths(1) [OF v', of dir] unfolding updates_def by metis
    then show ?thesis using r by (simp add: read_progress_file_def content_at_def empty_disk_def)
  qed
  then show ?thesis using open_total [OF c, of crc "\<lambda>p. None" dir d True] by blast
qed

lemma track_segments_ok:
  "ss_inv s \<Longrightarrow> \<forall>x \<in> set segs. \<exists>m. pr_bundle_count pr x = Inr m \<Longrightarrow>
   \<exists>s'. track_segments pr segs s = (None, s') \<and> ss_inv s' \<and> tk_resolved (tracking_of s') = tk_resolved (tracking_of s) \<and>
     (\<forall>seg n. seg \<in> set segs \<longrightarrow> pr_bundle_count pr seg = Inr n \<longrightarrow> tk_sizes (tracking_of s) seg = None \<longrightarrow>
        tk_sizes (tracking_of s') seg = Some n) \<and>
     (\<forall>seg n. tk_sizes (tracking_of s) seg = Some n \<longrightarrow> tk_sizes (tracking_of s') seg = Some n)"
proof (induction segs arbitrary: s)
  case (Cons x segs)
  obtain m where m: "pr_bundle_count pr x = Inr m" using Cons.prems(2) by auto
  let ?s = "add_segment x m s"
  note a = add_segment_tracks [OF Cons.prems(1), of x m]
  obtain s' where s': "track_segments pr segs ?s = (None, s')" "ss_inv s'"
    "tk_resolved (tracking_of s') = tk_resolved (tracking_of ?s)"
    "\<forall>seg n. seg \<in> set segs \<longrightarrow> pr_bundle_count pr seg = Inr n \<longrightarrow> tk_sizes (tracking_of ?s) seg = None \<longrightarrow>
        tk_sizes (tracking_of s') seg = Some n"
    "\<forall>seg n. tk_sizes (tracking_of ?s) seg = Some n \<longrightarrow> tk_sizes (tracking_of s') seg = Some n"
    using Cons.IH [OF a(1)] Cons.prems(2) by auto
  have res: "tk_resolved (tracking_of ?s) = tk_resolved (tracking_of s)" unfolding a(3) by simp
  have sz: "tk_sizes (tracking_of ?s) seg =
      (if seg = x \<and> tk_sizes (tracking_of s) x = None then Some m else tk_sizes (tracking_of s) seg)" for seg
    unfolding a(3) by (simp del: tracking_of_simps)
  have 1: "tk_sizes (tracking_of s') seg = Some n"
    if "seg \<in> set (x # segs)" "pr_bundle_count pr seg = Inr n" "tk_sizes (tracking_of s) seg = None" for seg n
  proof (cases "seg = x")
    case True
    then have "tk_sizes (tracking_of ?s) seg = Some n" unfolding sz using that m by simp
    then show ?thesis using s'(5) by blast
  next
    case False
    then have "tk_sizes (tracking_of ?s) seg = None" "seg \<in> set segs" unfolding sz using that by simp_all
    then show ?thesis using s'(4) that(2) by blast
  qed
  have 2: "tk_sizes (tracking_of s') seg = Some n" if "tk_sizes (tracking_of s) seg = Some n" for seg n
  proof -
    have "tk_sizes (tracking_of ?s) seg = Some n" unfolding sz using that by auto
    then show ?thesis using s'(5) by blast
  qed
  have "track_segments pr (x # segs) s = (None, s')" using m s'(1) by simp
  then show ?case using s'(2,3) res 1 2 by (intro exI [of _ s']) blast
qed simp

lemma activate_pending:
  assumes inv: "reg_inv rg" and s: "map_of (rg_subscribers rg) sid = Some s" "\<not> ss_active s"
    and ok: "\<forall>x \<in> set (pr_available_segments pr). \<exists>m. pr_bundle_count pr x = Inr m"
    and seg: "seg \<in> set (pr_available_segments pr)" "tk_sizes (tracking_of s) seg = None" "pr_bundle_count pr seg = Inr n" "i < n"
  shows "\<exists>s'. map_of (rg_subscribers (snd (activate pr sid rg))) sid = Some s' \<and> Bundle_Ref seg i \<in> tk_pending (tracking_of s')"
proof -
  have si: "ss_inv s" using subs_inv_lookup inv s(1) unfolding reg_inv_def by blast
  obtain s' where s': "track_segments pr (pr_available_segments pr) s = (None, s')"
    "tk_resolved (tracking_of s') = tk_resolved (tracking_of s)" "tk_sizes (tracking_of s') seg = Some n"
    using track_segments_ok [OF si ok] seg by blast
  have "Bundle_Ref seg i \<notin> tk_resolved (tracking_of s')" unfolding s'(2) using seg(2) by (auto simp: resolved_iff)
  moreover have "tk_sizes (tracking_of (state_activate s')) = tk_sizes (tracking_of s')"
    "tk_resolved (tracking_of (state_activate s')) = tk_resolved (tracking_of s')"
    by (simp_all add: state_activate_def tracking_of_def)
  ultimately have "Bundle_Ref seg i \<in> tk_pending (tracking_of (state_activate s'))"
    unfolding tk_pending_def using s'(3) seg(4) by (simp del: tracking_of_simps)
  then show ?thesis using s s'(1) by (simp add: activate_def set_subscriber_def update_conv')
qed

lemma restored_boundary:
  assumes o: "registry_open crc None (\<lambda>p. None) dir True pr d = Some (Inr rg)" and v: "valid_id sid"
    and r: "read_progress_file crc (\<lambda>p. None) (progress_file_path dir sid) d = Inr (oldest, es)" "restorable es"
    and seg: "entry_sizes es seg = None" "completed_before_snapshot oldest (highest_persisted es) seg"
  shows "\<exists>s. map_of (rg_subscribers rg) sid = Some s \<and> \<not> ss_active s \<and> tk_sizes (tracking_of s) seg = None"
proof -
  have ex: "file_content (progress_file_path dir sid) d \<noteq> None" using r(1) by (auto simp: read_progress_file_def split: option.splits)
  obtain available where m: "map_of (rg_subscribers rg) sid = (case read_progress_file crc (\<lambda>p. None) (progress_file_path dir sid) d of
       Inl e \<Rightarrow> None | Inr (oldest, es) \<Rightarrow> restore_subscriber sid oldest es available)"
    by (rule open_lookup [OF o v ex])
  obtain s where s: "restore_subscriber sid oldest es available = Some s" and t: "tracking_of s =
      \<lparr>tk_sizes = (\<lambda>seg. case entry_sizes es seg of Some n \<Rightarrow> Some n
          | None \<Rightarrow> if completed_before_snapshot oldest (highest_persisted es) seg then None else map_of available seg),
       tk_resolved = \<Union> (acked_refs ` set es), tk_claimed = {}, tk_active = False\<rparr>"
    using restore_subscriber_tracks [of es sid oldest available] r(2) unfolding restorable_def by blast
  have "ss_active s = tk_active (tracking_of s)" by simp
  then have "\<not> ss_active s" unfolding t by simp
  moreover have "tk_sizes (tracking_of s) seg = None" unfolding t using seg by simp
  ultimately show ?thesis using m r(1) s by simp
qed

subsection \<open>What users of the registry rely on\<close>

lemma example_inv: "reg_inv example_registry"
  using reg_reach_inv [OF example_reach [where crc = "\<lambda>bs. 0"]] reg_ok_inv unfolding sys_inv_def by blast

lemma example_valid: "valid_id example_id"
  using valid_example by (simp add: example_id_def)

lemma example_sub_inv: "ss_inv example_subscriber"
  using subs_inv_lookup [OF example_inv [unfolded reg_inv_def] example_lookup] by blast

lemma example_pending: "tk_pending (tracking_of example_subscriber) = {r. segment_seq r = 5 \<and> bundle_index r < 3}"
  by (auto simp: tk_pending_def resolved_iff example_subscriber_def SegmentProgress_new_def sp_set_def split: if_splits)

lemma example_first: "lowest (tk_pending (tracking_of example_subscriber) - ss_claimed example_subscriber) = Some (Bundle_Ref 5 0)"
proof (rule lowest_eq)
  show "Bundle_Ref 5 0 \<in> tk_pending (tracking_of example_subscriber) - ss_claimed example_subscriber"
    unfolding example_pending by (simp add: example_subscriber_def)
  show "Bundle_Ref 5 0 \<le> x" if "x \<in> tk_pending (tracking_of example_subscriber) - ss_claimed example_subscriber" for x
    using that unfolding example_pending by (cases x) (simp add: bundle_ref_less_eq)
qed simp

text \<open>
  C31. Delivery. Polling an active subscriber returns the least bundle, by segment and index, that
  it has neither resolved nor claimed, and claims it; if there is none it returns none and
  changes nothing. So a bundle is never handed out again while it is claimed.\<close>

theorem delivery_is_exact:
  assumes "reg_inv rg" "map_of (rg_subscribers rg) sid = Some s" "ss_active s"
  shows "poll_next_bundle pr sid rg =
    Some (case lowest (tk_pending (tracking_of s) - ss_claimed s) of
        None \<Rightarrow> (Inr None, rg)
      | Some r \<Rightarrow> (map_sum id Some (make_handle pr sid r),
                 set_subscriber sid (s\<lparr>ss_claimed := insert r (ss_claimed s)\<rparr>) rg))"
  by (rule poll_exact [OF assms])

theorem delivery_is_exact_witness:
  "map_option (\<lambda>(res, rg). map_sum id (map_option bh_bundle_ref) res)
     (poll_next_bundle example_provider example_id example_registry) = Some (Inr (Some (Bundle_Ref 5 0)))"
  using delivery_is_exact [OF example_inv example_lookup, of example_provider] example_first
  by (simp add: example_subscriber_def make_handle_def BundleHandle_new_def example_provider_def)

text \<open>
  C36. A failed read keeps the claim. When the segment store cannot read the bundle that a poll
  chose, the poll returns the error and no handle, but the bundle stays claimed while it is still
  pending, although no handle exists whose resolution or drop would end the claim.\<close>

theorem read_error_keeps_claim:
  assumes "reg_inv rg" "map_of (rg_subscribers rg) sid = Some s" "ss_active s"
    and "lowest (tk_pending (tracking_of s) - ss_claimed s) = Some r" "pr_read_bundle pr r = Inl e"
  shows "\<exists>rg' s'. poll_next_bundle pr sid rg = Some (Inl e, rg') \<and> map_of (rg_subscribers rg') sid = Some s' \<and>
    r \<in> tk_pending (tracking_of s') \<and> r \<in> ss_claimed s'"
proof -
  let ?s = "s\<lparr>ss_claimed := insert r (ss_claimed s)\<rparr>"
  have "poll_next_bundle pr sid rg = Some (Inl e, set_subscriber sid ?s rg)"
    using poll_exact [OF assms(1-3), of pr] assms(4,5) by (simp add: make_handle_def)
  moreover have "map_of (rg_subscribers (set_subscriber sid ?s rg)) sid = Some ?s"
    by (simp add: set_subscriber_def update_conv')
  moreover have "tk_pending (tracking_of ?s) = tk_pending (tracking_of s)" by (simp add: tk_pending_def tracking_of_def)
  moreover have "r \<in> tk_pending (tracking_of s)" using lowest_in [OF finite_refs assms(4)] by blast
  ultimately show ?thesis by auto
qed

theorem read_error_keeps_claim_witness:
  "\<exists>rg' s'. poll_next_bundle (example_provider\<lparr>pr_read_bundle := \<lambda>r. Inl Err_ShuttingDown\<rparr>) example_id example_registry =
       Some (Inl Err_ShuttingDown, rg') \<and> map_of (rg_subscribers rg') example_id = Some s' \<and>
     Bundle_Ref 5 0 \<in> tk_pending (tracking_of s') \<and> Bundle_Ref 5 0 \<in> ss_claimed s'"
  by (rule read_error_keeps_claim [OF example_inv example_lookup _ example_first]) (simp_all add: example_subscriber_def)

definition partly_acked :: subscriber_state where
  \<comment> \<open>the example subscriber after bundle 1 of segment 5 was acked\<close>
  "partly_acked = snd (the (record_outcome (Bundle_Ref 5 1) Outcome_Acked example_subscriber))"

lemma partly_acked_inv: "ss_inv partly_acked" "tk_sizes (tracking_of partly_acked) = tk_sizes (tracking_of example_subscriber)"
  using record_outcome_tracks [OF example_sub_inv, of "Bundle_Ref 5 1" Outcome_Acked]
  by (auto simp: partly_acked_def simp del: tracking_of_simps)

lemma one_segment_count:
  assumes "ss_inv s" "tk_sizes (tracking_of s) = [seg \<mapsto> n]"
  shows "segment_count s = 1" "list_all storable (to_progress_entries s) \<longleftrightarrow> unat n \<le> 65536"
proof -
  have d: "distinct (map fst (ss_segments s))" and b: "btree (ss_segments s)" using assms(1) by (simp_all add: ss_inv_def btree_distinct)
  have "fst ` set (ss_segments s) = dom (map_of (ss_segments s))" by (rule dom_map_of_conv_image_fst [symmetric])
  also have "\<dots> = dom (tk_sizes (tracking_of s))" by (auto simp: dom_def)
  also have "\<dots> = {seg}" unfolding assms(2) by simp
  finally have k: "set (map fst (ss_segments s)) = {seg}" by simp
  then have "length (map fst (ss_segments s)) = 1" using distinct_card [OF d] by simp
  then show sc: "segment_count s = 1" by (simp add: segment_count_def)
  then obtain p where p: "ss_segments s = [(seg, p)]"
    using k by (cases "ss_segments s") (auto simp: segment_count_def)
  have "sp_bundle_count p = n" using fun_cong [OF assms(2), of seg] p by simp
  then show "list_all storable (to_progress_entries s) \<longleftrightarrow> unat n \<le> 65536"
    using small_storable [of p seg] assms(1) p by (simp add: to_progress_entries_def ss_inv_def)
qed

lemma example_sizes: "tk_sizes (tracking_of example_subscriber) = [5 \<mapsto> 3]"
  by (auto simp: example_subscriber_def SegmentProgress_new_def fun_eq_iff)

lemma example_counts: "\<exists>available. collect_counts example_provider (pr_available_segments example_provider) = Inr available"
  by (simp add: example_provider_def)

text \<open>
  C13. Recovery restores progress. If a subscriber tracks at most 1,000,000 segments, each of at
  most 65,536 bundles (its entry is storable), and its snapshot was written successfully, then
  the registry opened from that directory without read errors holds the subscriber with exactly the resolved bundles of the
  snapshot, at least the tracked segments of the snapshot, and no claims.\<close>

theorem recovery_restores_progress:
  assumes "ss_inv s" "valid_id sid" "disk_inv d"
    and "list_all storable (to_progress_entries s)" "segment_count s \<le> unat MAX_ENTRY_COUNT"
    and "write_progress_file crc dir sid oldest (to_progress_entries s) faults d = (Inr (), d')"
    and "registry_open crc None (\<lambda>p. None) dir True pr d' = Some (Inr rg)"
  shows "\<exists>s'. map_of (rg_subscribers rg) sid = Some s' \<and> tk_resolved (tracking_of s') = tk_resolved (tracking_of s) \<and>
    tk_sizes (tracking_of s) \<subseteq>\<^sub>m tk_sizes (tracking_of s') \<and> tk_claimed (tracking_of s') = {}"
  using restart_restores [OF assms] by blast

theorem recovery_restores_progress_witness:
  "\<exists>d rg s'. write_progress_file (\<lambda>bs. 7) ''data'' example_id 5 (to_progress_entries partly_acked) no_faults empty_disk = (Inr (), d) \<and>
     registry_open (\<lambda>bs. 7) None (\<lambda>p. None) ''data'' True example_provider d = Some (Inr rg) \<and>
     map_of (rg_subscribers rg) example_id = Some s' \<and>
     tk_resolved (tracking_of s') = tk_resolved (tracking_of partly_acked)"
proof -
  note inv = partly_acked_inv
  note one = one_segment_count [OF inv(1) inv(2) [unfolded example_sizes]]
  have st: "list_all storable (to_progress_entries partly_acked)" using one(2) by simp
  have n: "segment_count partly_acked \<le> unat MAX_ENTRY_COUNT" using one(1) by (simp add: MAX_ENTRY_COUNT_def)
  obtain d where w: "write_progress_file (\<lambda>bs. 7) ''data'' example_id 5 (to_progress_entries partly_acked) no_faults empty_disk = (Inr (), d)"
    using write_no_faults by blast
  have "restorable es'" if "parse_progress (\<lambda>bs. 7) p (progress_content (\<lambda>bs. 7) 5 (to_progress_entries partly_acked)) = Inr (o', es')" for p o' es'
  proof -
    have "es' = to_progress_entries partly_acked"
      using that parse_content [of "to_progress_entries partly_acked" "\<lambda>bs. 7" p 5] entries_roundtrip [OF st, of p "[]"] n by simp
    then show ?thesis using snapshot_entries [OF inv(1)] by (simp add: restorable_def)
  qed
  then obtain rg where o: "registry_open (\<lambda>bs. 7) None (\<lambda>p. None) ''data'' True example_provider d = Some (Inr rg)"
    using single_file_open [OF example_valid w _ example_counts] by blast
  show ?thesis
    using recovery_restores_progress [OF inv(1) example_valid disk_inv_empty st n w o] w o by blast
qed

definition big_subscriber :: subscriber_state where
  \<comment> \<open>a subscriber of one segment with 65,537 bundles\<close>
  "big_subscriber = add_segment 5 65537 (SubscriberState_new example_id)"

lemma big_subscriber_facts: "ss_inv big_subscriber" "tk_sizes (tracking_of big_subscriber) = [5 \<mapsto> 65537]"
proof -
  note t = add_segment_tracks [OF ss_inv_new, of 5 65537 example_id, folded big_subscriber_def]
  show "ss_inv big_subscriber" by (rule t(1))
  show "tk_sizes (tracking_of big_subscriber) = [5 \<mapsto> 65537]" unfolding t(3) tracking_of_new by (simp add: tracking_new_def)
qed

text \<open>
  C34. Progress of large segments is lost. If a subscriber tracks a segment with more than 65,536
  bundles, and at most 1,000,000 segments, none with more than 4,194,240 bundles (where the
  length field itself would wrap), its snapshot is written successfully, but the next start does not know the subscriber any more:
  the reader refuses the file that the writer produced.\<close>

theorem oversized_progress_is_lost:
  assumes "ss_inv s" "valid_id sid" "disk_inv d" "segment_count s \<le> unat MAX_ENTRY_COUNT"
    and "\<forall>seg m. tk_sizes (tracking_of s) seg = Some m \<longrightarrow> unat m \<le> 4194240"
    and "tk_sizes (tracking_of s) seg = Some m" "65536 < unat m"
    and "write_progress_file crc dir sid oldest (to_progress_entries s) faults d = (Inr (), d')"
    and "registry_open crc None (\<lambda>p. None) dir True pr d' = Some (Inr rg)"
  shows "map_of (rg_subscribers rg) sid = None"
  by (rule restart_loses_oversized [OF assms])

theorem oversized_progress_is_lost_witness:
  "\<exists>d rg. write_progress_file (\<lambda>bs. 7) ''data'' example_id 5 (to_progress_entries big_subscriber) no_faults empty_disk = (Inr (), d) \<and>
     registry_open (\<lambda>bs. 7) None (\<lambda>p. None) ''data'' True example_provider d = Some (Inr rg) \<and>
     map_of (rg_subscribers rg) example_id = None"
proof -
  note b = big_subscriber_facts
  have n: "segment_count big_subscriber \<le> unat MAX_ENTRY_COUNT" using one_segment_count [OF b] by (simp add: MAX_ENTRY_COUNT_def)
  have small: "\<forall>seg m. tk_sizes (tracking_of big_subscriber) seg = Some m \<longrightarrow> unat m \<le> 4194240"
    unfolding b(2) by simp
  have m: "tk_sizes (tracking_of big_subscriber) 5 = Some 65537" unfolding b(2) by simp
  obtain d where w: "write_progress_file (\<lambda>bs. 7) ''data'' example_id 5 (to_progress_entries big_subscriber) no_faults empty_disk = (Inr (), d)"
    using write_no_faults by blast
  have "\<nexists>y. parse_progress (\<lambda>bs. 7) p (progress_content (\<lambda>bs. 7) 5 (to_progress_entries big_subscriber)) = Inr y" for p
    using oversized_unreadable [OF b(1) n small m, of "\<lambda>bs. 7" p 5] by auto
  then obtain rg where o: "registry_open (\<lambda>bs. 7) None (\<lambda>p. None) ''data'' True example_provider d = Some (Inr rg)"
    using single_file_open [OF example_valid w _ example_counts] by blast
  have "map_of (rg_subscribers rg) example_id = None"
    by (rule oversized_progress_is_lost [OF b(1) example_valid disk_inv_empty n small m _ w o]) simp
  then show ?thesis using w o by blast
qed

text \<open>
  C35. Activation redelivers completed segments. Recovery leaves out an available segment below
  the boundary of the snapshot, because all its bundles were resolved; activating the
  subscriber tracks it again, with every bundle pending.\<close>

theorem activation_redelivers_completed:
  assumes "registry_open crc None (\<lambda>p. None) dir True pr d = Some (Inr rg)" "reg_inv rg" "valid_id sid"
    and "read_progress_file crc (\<lambda>p. None) (progress_file_path dir sid) d = Inr (oldest, es)" "restorable es"
    and "entry_sizes es seg = None" "completed_before_snapshot oldest (highest_persisted es) seg"
    and "\<forall>x \<in> set (pr_available_segments pr). \<exists>m. pr_bundle_count pr x = Inr m"
    and "seg \<in> set (pr_available_segments pr)" "pr_bundle_count pr seg = Inr n" "i < n"
  shows "\<exists>s s'. map_of (rg_subscribers rg) sid = Some s \<and> tk_sizes (tracking_of s) seg = None \<and>
    map_of (rg_subscribers (snd (activate pr sid rg))) sid = Some s' \<and> Bundle_Ref seg i \<in> tk_pending (tracking_of s')"
proof -
  obtain s where s: "map_of (rg_subscribers rg) sid = Some s" "\<not> ss_active s" "tk_sizes (tracking_of s) seg = None"
    using restored_boundary [OF assms(1,3-7)] by blast
  show ?thesis using activate_pending [OF assms(2) s(1,2) assms(8,9) s(3) assms(10,11)] s(1,3) by blast
qed

theorem activation_redelivers_completed_witness:
  "\<exists>d rg s s'. write_progress_file (\<lambda>bs. 7) ''data'' example_id 7 [] no_faults empty_disk = (Inr (), d) \<and>
     registry_open (\<lambda>bs. 7) None (\<lambda>p. None) ''data'' True example_provider d = Some (Inr rg) \<and>
     map_of (rg_subscribers rg) example_id = Some s \<and> tk_sizes (tracking_of s) 5 = None \<and>
     map_of (rg_subscribers (snd (activate example_provider example_id rg))) example_id = Some s' \<and>
     Bundle_Ref 5 2 \<in> tk_pending (tracking_of s')"
proof -
  obtain d where w: "write_progress_file (\<lambda>bs. 7) ''data'' example_id 7 [] no_faults empty_disk = (Inr (), d)"
    using write_no_faults by blast
  have p: "parse_progress (\<lambda>bs. 7) p (progress_content (\<lambda>bs. 7) 7 []) = Inr (7, [])" for p
    using parse_content [of "[]" "\<lambda>bs. 7" p 7] by simp
  have re: "restorable []" by (simp add: restorable_def)
  obtain rg where o: "registry_open (\<lambda>bs. 7) None (\<lambda>p. None) ''data'' True example_provider d = Some (Inr rg)" "reg_inv rg"
    using single_file_open [OF example_valid w _ example_counts] p re by auto
  have r: "read_progress_file (\<lambda>bs. 7) (\<lambda>p. None) (progress_file_path ''data'' example_id) d = Inr (7, [])"
    using written_content [OF disk_inv_empty example_valid w] p by (simp add: read_progress_file_def)
  have "\<exists>s s'. map_of (rg_subscribers rg) example_id = Some s \<and> tk_sizes (tracking_of s) 5 = None \<and>
      map_of (rg_subscribers (snd (activate example_provider example_id rg))) example_id = Some s' \<and> Bundle_Ref 5 2 \<in> tk_pending (tracking_of s')"
    by (rule activation_redelivers_completed [OF o example_valid r re, where n = 3])
      (simp_all add: entry_sizes_def completed_before_snapshot_def example_provider_def)
  then show ?thesis using w o(1) by blast
qed

text \<open>
  Flushing is best effort. After a flush the dirty subscribers are exactly the registered
  ones whose file could not be written, and the flush reports an error exactly if there are any.\<close>

theorem flush_is_best_effort:
  assumes "flush_progress crc faults rg d = (res, rg', d')"
  shows "set (rg_dirty rg') = {sid. sid \<in> set (rg_dirty rg) \<and> is_registered sid rg \<and> write_fails (faults sid)} \<and>
    (isl res \<longleftrightarrow> rg_dirty rg' \<noteq> [])"
proof (cases "rg_dirty rg = []")
  case True
  then show ?thesis using assms by (auto simp: flush_progress_def)
next
  case False
  let ?xs = "List.map_filter (\<lambda>sid. map_option (\<lambda>s. (sid, s)) (map_of (rg_subscribers rg) sid)) (rg_dirty rg)"
  obtain n e dirty d1 where f: "flush_each crc faults (rg_data_dir rg) ?xs (0, None, [], d) = (n, e, dirty, d1)"
    by (rule prod_cases4)
  have res: "res = (case e of Some e \<Rightarrow> Inl e | None \<Rightarrow> Inr n)" "rg_dirty rg' = dirty"
    using assms False f by (auto simp: flush_progress_def)
  have xs: "(sid, s) \<in> set ?xs \<longleftrightarrow> sid \<in> set (rg_dirty rg) \<and> map_of (rg_subscribers rg) sid = Some s" for sid s
    by (force simp: List.map_filter_def image_iff)
  have dirty: "set dirty = {fst x | x. x \<in> set ?xs \<and> write_fails (faults (fst x))}"
    and err: "e = None \<longleftrightarrow> (\<forall>x \<in> set ?xs. \<not> write_fails (faults (fst x)))"
    using flush_each_report [OF f] by simp_all
  have "set dirty = {sid. sid \<in> set (rg_dirty rg) \<and> is_registered sid rg \<and> write_fails (faults sid)}"
    unfolding dirty is_registered_def using xs by force
  moreover have "dirty \<noteq> [] \<longleftrightarrow> e \<noteq> None"
  proof -
    have "dirty \<noteq> [] \<longleftrightarrow> set dirty \<noteq> {}" by simp
    also have "\<dots> \<longleftrightarrow> (\<exists>x \<in> set ?xs. write_fails (faults (fst x)))" unfolding dirty by blast
    finally show ?thesis using err by blast
  qed
  ultimately show ?thesis using res by (simp split: option.split)
qed

end
