(* ===== verification/Quiver_Retention.thy ===== *)
theory Quiver_Retention
  imports Quiver_System
begin

section \<open>Giving up segments\<close>

text \<open>
  The two ways in which segments are given up: \<^verbatim>\<open>QuiverEngine::cleanup_completed_segments\<close> deletes
  the segments that every subscriber is done with, and the drop-oldest policy of the registry
  gives up a segment that is still pending. Deleting a segment is \<^verbatim>\<open>delete_segment\<close> of
  \<^verbatim>\<open>quiver/src/segment_store.rs\<close>: of the store's handles only the file size matters here, the
  files are the sequence numbers present in the segment directory, and \<open>removal\<close> is the error
  that \<^verbatim>\<open>remove_file\<close> gives for a file, if any.
\<close>

subsection \<open>Deleting a segment\<close>

record pending_delete =
  pd_file_size :: "64 word"
  pd_attempts :: "32 word"
  pd_backoff :: nat
  pd_next_retry_at :: nat

record segment_files =
  sf_segments :: "(segment_seq \<times> 64 word) list"
  sf_files :: "segment_seq set"
  sf_pending_deletes :: "(segment_seq \<times> pending_delete) list"
  sf_budget :: "64 word option"

definition base_retry_interval :: nat where
  "base_retry_interval = 1000"

definition budget_remove :: "64 word \<Rightarrow> 64 word \<Rightarrow> 64 word" where
  "budget_remove bytes used = (if bytes \<le> used then used - bytes else 0)"

definition release_budget :: "64 word option \<Rightarrow> segment_files \<Rightarrow> segment_files" where
  "release_budget file_size st =
     (case (sf_budget st, file_size) of
        (Some used, Some bytes) \<Rightarrow> st\<lparr>sf_budget := Some (budget_remove bytes used)\<rparr>
      | _ \<Rightarrow> st)"

definition defer_delete :: "nat \<Rightarrow> segment_seq \<Rightarrow> 64 word \<Rightarrow> segment_files \<Rightarrow> segment_files" where
  "defer_delete now seq bytes st =
     st\<lparr>sf_pending_deletes := AList.update seq
          (case map_of (sf_pending_deletes st) seq of
             Some p \<Rightarrow> p\<lparr>pd_file_size := bytes\<rparr>
           | None \<Rightarrow> \<lparr>pd_file_size = bytes, pd_attempts = 0, pd_backoff = base_retry_interval, pd_next_retry_at = now\<rparr>)
          (sf_pending_deletes st)\<rparr>"


subsection \<open>Clean-up\<close>



subsection \<open>What is done with\<close>








lemma release_budget_keeps [simp]:
  "sf_segments (release_budget b st) = sf_segments st" "sf_files (release_budget b st) = sf_files st"
  by (simp_all add: release_budget_def split: option.split)

lemma defer_delete_keeps [simp]:
  "sf_segments (defer_delete now seq b st) = sf_segments st" "sf_files (defer_delete now seq b st) = sf_files st"
  by (simp_all add: defer_delete_def)




subsection \<open>The boundary\<close>








subsection \<open>Properties\<close>




lemma example_subs: "rg_subscribers example_registry = [(example_id, example_subscriber)]"
  by (simp add: example_registry_def register_def registry_new_def set_subscriber_def activate_def example_provider_def
      SubscriberState_new_def add_segment_def state_activate_def example_subscriber_def)



lemma list_all2_lookup:
  assumes "list_all2 (\<lambda>x y. fst y = fst x \<and> f (snd y) = g (snd x)) xs ys"
  shows "map_option f (map_of ys k) = map_option g (map_of xs k)"
  using assms by (induction rule: list_all2_induct) (auto split: prod.splits)

text \<open>
  C33. The drop-oldest policy. The segment that is given up is the oldest one with bundles pending
  for some subscriber of which the survey sees no reader, where a claim is seen if its holder or
  a subscriber visited earlier has pending bundles in the segment; exactly this segment becomes
  completed for every subscriber, and the reported loss is exactly the set of its bundles that
  some subscriber had not resolved. No subscriber that has pending bundles in the segment has a
  claim in it, and if all claims are on pending bundles of their holders, nobody has.\<close>

theorem force_drop_spares_readers:
  assumes "reg_inv rg" "force_drop_oldest_pending_segments rg = Some ((segs, loss), rg')"
  shows "segs = (case lowest (droppable rg) of None \<Rightarrow> [] | Some g \<Rightarrow> [g]) \<and>
    map_of loss = (\<lambda>seg. if seg \<in> set segs then Some (pending_of_any seg (rg_subscribers rg)) else None) \<and>
    (\<forall>sid. map_option tracking_of (map_of (rg_subscribers rg') sid) =
       map_option (\<lambda>s. completed (set segs) (tracking_of s)) (map_of (rg_subscribers rg) sid)) \<and>
    (\<forall>g sid s. g \<in> set segs \<and> map_of (rg_subscribers rg) sid = Some s \<and> has_claimed_in_segment g s \<longrightarrow> pending_in g s = {}) \<and>
    (claims_pending (rg_subscribers rg) \<longrightarrow> (\<forall>g \<in> set segs. \<not> read_by_any g (rg_subscribers rg)))"
proof -
  obtain rg1 loss1 where e: "force_drop_oldest_pending_segments rg =
      Some ((case lowest (droppable rg) of None \<Rightarrow> [] | Some g \<Rightarrow> [g], loss1), rg1)"
    and l: "\<forall>seg. map_of loss1 seg = (if lowest (droppable rg) = Some seg then Some (pending_of_any seg (rg_subscribers rg)) else None)"
    and t: "list_all2 (\<lambda>x y. fst y = fst x \<and>
        tracking_of (snd y) = completed (set_option (lowest (droppable rg))) (tracking_of (snd x)))
      (rg_subscribers rg) (rg_subscribers rg1)"
    using force_drop_effect [OF assms(1)] by blast
  have segs: "segs = (case lowest (droppable rg) of None \<Rightarrow> [] | Some g \<Rightarrow> [g])" "loss = loss1" "rg' = rg1"
    using e assms(2) by simp_all
  have set_segs: "set segs = set_option (lowest (droppable rg))" unfolding segs(1) by (cases "lowest (droppable rg)") simp_all
  have drop: "\<not> seen_reader g (rg_subscribers rg)" if "g \<in> set segs" for g
  proof -
    have "lowest (droppable rg) = Some g" using that set_segs by simp
    then have "g \<in> droppable rg" by (rule lowest_in [rotated]) simp
    then show ?thesis by (simp add: droppable_def)
  qed
  have "map_of loss = (\<lambda>seg. if seg \<in> set segs then Some (pending_of_any seg (rg_subscribers rg)) else None)"
    using l unfolding segs(2) set_segs by auto
  moreover have "\<forall>sid. map_option tracking_of (map_of (rg_subscribers rg') sid) =
       map_option (\<lambda>s. completed (set segs) (tracking_of s)) (map_of (rg_subscribers rg) sid)"
    using list_all2_lookup [OF t] unfolding segs(3) set_segs by simp
  moreover have "\<forall>g sid s. g \<in> set segs \<and> map_of (rg_subscribers rg) sid = Some s \<and> has_claimed_in_segment g s \<longrightarrow> pending_in g s = {}"
    using drop pending_reader_seen [OF map_of_SomeD] by fastforce
  moreover have "claims_pending (rg_subscribers rg) \<longrightarrow> (\<forall>g \<in> set segs. \<not> read_by_any g (rg_subscribers rg))"
    using drop claims_pending_seen by blast
  ultimately show ?thesis using segs(1) by blast
qed

lemma reach_quiet:
  assumes "reg_reach crc dir ty H rg d" "enabled (op :: 'b reg_op) d" "exec_reg crc op (rg, d) = Some ({}, rg', d)"
  shows "reg_reach crc dir (ty :: 'b itself) H rg' d"
  using reg_reach.step [OF assms] by simp

text \<open>
  Two registries with a claimed bundle in segment 5: in the first the subscriber that tracks the
  segment holds the claim; in the second it is held by one that was registered but does not
  track the segment, and is visited first.
\<close>

definition claimed_registry :: registry where
  "claimed_registry = snd (the (claim_bundle example_provider example_id (Bundle_Ref 5 0) example_registry))"

definition reader_id :: subscriber_id where
  "reader_id = SubscriberId ''debug''"

definition two_subscribers :: registry where
  "two_subscribers = snd (activate example_provider example_id (register example_id (register reader_id (registry_new ''data''))))"

definition missed_registry :: registry where
  "missed_registry = snd (the (claim_bundle example_provider reader_id (Bundle_Ref 5 0) two_subscribers))"

lemma reader_valid: "valid_id reader_id" "reader_id \<noteq> example_id"
  by (simp_all add: reader_id_def example_id_def valid_id_def SubscriberId_new_def MAX_SUBSCRIBER_ID_LEN_def id_char_def
      is_ascii_alphanumeric_def)

lemma example_resolved: "is_resolved (Bundle_Ref 5 0) example_subscriber = Some False"
  by (simp add: is_resolved_def example_subscriber_def progress_is_resolved_def SegmentProgress_new_def div_ceil_def)

lemma two_subs: "rg_subscribers two_subscribers = [(reader_id, SubscriberState_new reader_id), (example_id, example_subscriber)]"
  using reader_valid(2)
  by (simp add: two_subscribers_def register_def registry_new_def set_subscriber_def activate_def example_provider_def
      SubscriberState_new_def add_segment_def state_activate_def example_subscriber_def)

lemma claimed_subs:
  "rg_subscribers claimed_registry = [(example_id, example_subscriber\<lparr>ss_claimed := {Bundle_Ref 5 0}\<rparr>)]"
  "claim_bundle example_provider example_id (Bundle_Ref 5 0) example_registry \<noteq> None"
  by (simp_all add: claimed_registry_def claim_bundle_def example_subs example_resolved is_claimed_def claim_def
      set_subscriber_def) (simp_all add: example_subscriber_def)

lemma missed_subs:
  "rg_subscribers missed_registry =
     [(reader_id, (SubscriberState_new reader_id)\<lparr>ss_claimed := {Bundle_Ref 5 0}\<rparr>), (example_id, example_subscriber)]"
  "claim_bundle example_provider reader_id (Bundle_Ref 5 0) two_subscribers \<noteq> None"
  using reader_valid(2)
  by (simp_all add: missed_registry_def claim_bundle_def two_subs is_resolved_def is_claimed_def claim_def
      set_subscriber_def SubscriberState_new_def)

lemma example_provider_small: "small_provider example_provider"
  by (simp add: small_provider_def example_provider_def small_def)

lemma claimed_reach: "reg_reach crc ''data'' TYPE(unit) {} claimed_registry empty_disk"
proof (rule reach_quiet [OF example_reach, where op = "R_Claim example_provider example_id (Bundle_Ref 5 0)"])
  show "exec_reg crc (R_Claim example_provider example_id (Bundle_Ref 5 0)) (example_registry, empty_disk) =
      Some ({}, claimed_registry, empty_disk)"
    using claimed_subs(2) by (auto simp: claimed_registry_def)
qed simp

lemma missed_reach: "reg_reach crc ''data'' TYPE(unit) {} missed_registry empty_disk"
proof -
  have 1: "reg_reach crc ''data'' TYPE(unit) {} (register reader_id (registry_new ''data'')) empty_disk"
    by (rule reach_quiet [OF reg_reach.start, where op = "R_Register reader_id"]) (simp_all add: reader_valid)
  have 2: "reg_reach crc ''data'' TYPE(unit) {} (register example_id (register reader_id (registry_new ''data''))) empty_disk"
    by (rule reach_quiet [OF 1, where op = "R_Register example_id"]) (simp_all add: example_valid)
  have 3: "reg_reach crc ''data'' TYPE(unit) {} two_subscribers empty_disk"
    by (rule reach_quiet [OF 2, where op = "R_Activate example_provider example_id"])
      (simp_all add: example_provider_small two_subscribers_def)
  show ?thesis
  proof (rule reach_quiet [OF 3, where op = "R_Claim example_provider reader_id (Bundle_Ref 5 0)"])
    show "exec_reg crc (R_Claim example_provider reader_id (Bundle_Ref 5 0)) (two_subscribers, empty_disk) =
        Some ({}, missed_registry, empty_disk)"
      using missed_subs(2) by (auto simp: missed_registry_def)
  qed simp
qed

lemma reach_reg_inv: "reg_reach crc dir ty H rg d \<Longrightarrow> reg_inv rg"
  using reg_reach_inv reg_ok_inv unfolding sys_inv_def by blast

lemma example_pending_in:
  "pending_in seg example_subscriber = (if seg = 5 then {i. i < 3} else {})"
  "pending_in seg (example_subscriber\<lparr>ss_claimed := C\<rparr>) = (if seg = 5 then {i. i < 3} else {})"
  "pending_in seg ((SubscriberState_new sid)\<lparr>ss_claimed := C\<rparr>) = {}"
proof -
  have c: "tk_pending (tracking_of (example_subscriber\<lparr>ss_claimed := C\<rparr>)) = tk_pending (tracking_of example_subscriber)"
    by (rule set_eqI) (simp add: pending_iff)
  show "pending_in seg example_subscriber = (if seg = 5 then {i. i < 3} else {})"
    "pending_in seg (example_subscriber\<lparr>ss_claimed := C\<rparr>) = (if seg = 5 then {i. i < 3} else {})"
    unfolding pending_in_def c example_pending by auto
  show "pending_in seg ((SubscriberState_new sid)\<lparr>ss_claimed := C\<rparr>) = {}"
    by (simp add: pending_in_def pending_iff SubscriberState_new_def)
qed

lemma some_index: "{i :: bundle_index. i < 3} \<noteq> {}"
proof -
  have "(0 :: bundle_index) \<in> {i. i < 3}" by simp
  then show ?thesis by blast
qed

lemma claimed_droppable: "droppable claimed_registry = {}"
  unfolding droppable_def claimed_subs(1) seen_reader_Cons
  by (auto simp: pending_of_any_def has_claimed_in_segment_def example_pending_in split: if_splits)

lemma missed_droppable: "droppable missed_registry = {5}"
proof -
  have "\<not> seen_reader seg (rg_subscribers missed_registry)" for seg
    unfolding missed_subs(1) seen_reader_Cons
    by (simp add: example_pending_in has_claimed_in_segment_def seen_reader_def example_subscriber_def read_by_any_def)
  then show ?thesis unfolding droppable_def
    using some_index by (auto simp: missed_subs(1) pending_of_any_def example_pending_in split: if_splits)
qed

theorem force_drop_spares_readers_witness:
  "(\<exists>loss rg'. reg_reach (\<lambda>bs. 0) ''data'' TYPE(unit) {} claimed_registry empty_disk \<and>
      force_drop_oldest_pending_segments claimed_registry = Some (([], loss), rg')) \<and>
   (\<exists>loss rg'. reg_reach (\<lambda>bs. 0) ''data'' TYPE(unit) {} missed_registry empty_disk \<and>
      read_by_any 5 (rg_subscribers missed_registry) \<and>
      force_drop_oldest_pending_segments missed_registry = Some (([5], loss), rg') \<and>
      map_of loss 5 = Some {i. i < 3})"
proof
  have i: "reg_inv claimed_registry" "reg_inv missed_registry"
    by (rule reach_reg_inv [OF claimed_reach [where crc = "\<lambda>bs. 0"]], rule reach_reg_inv [OF missed_reach [where crc = "\<lambda>bs. 0"]])
  obtain segs loss rg' where f: "force_drop_oldest_pending_segments claimed_registry = Some ((segs, loss), rg')"
    using force_drop_effect [OF i(1)] by blast
  have "segs = []" using force_drop_spares_readers [OF i(1) f] by (simp add: claimed_droppable lowest_def)
  then show "\<exists>loss rg'. reg_reach (\<lambda>bs. 0) ''data'' TYPE(unit) {} claimed_registry empty_disk \<and>
      force_drop_oldest_pending_segments claimed_registry = Some (([], loss), rg')"
    using f claimed_reach [where crc = "\<lambda>bs. 0"] by blast
  obtain segs loss rg' where g: "force_drop_oldest_pending_segments missed_registry = Some ((segs, loss), rg')"
    using force_drop_effect [OF i(2)] by blast
  note law = force_drop_spares_readers [OF i(2) g]
  have s: "segs = [5]" using law by (simp add: missed_droppable lowest_def)
  have "map_of loss 5 = Some (pending_of_any 5 (rg_subscribers missed_registry))" using law s by simp
  also have "pending_of_any 5 (rg_subscribers missed_registry) = {i. i < 3}"
    by (simp add: missed_subs(1) pending_of_any_def example_pending_in)
  finally have l: "map_of loss 5 = Some {i. i < 3}" .
  have "read_by_any 5 (rg_subscribers missed_registry)"
    by (simp add: missed_subs(1) read_by_any_def has_claimed_in_segment_def)
  then show "\<exists>loss rg'. reg_reach (\<lambda>bs. 0) ''data'' TYPE(unit) {} missed_registry empty_disk \<and>
      read_by_any 5 (rg_subscribers missed_registry) \<and>
      force_drop_oldest_pending_segments missed_registry = Some (([5], loss), rg') \<and>
      map_of loss 5 = Some {i. i < 3}"
    using g s l missed_reach [where crc = "\<lambda>bs. 0"] by blast
qed

end
