(* ===== verification/Spec2Isabelle.thy ===== *)
theory Spec2Isabelle
  imports Control_Channel_Laws Mpsc_Channel Node_Local_Scheduler State_Store_Laws Quiver_Retention
begin

text \<open>
  A verification development for parts of the OTAP dataflow engine
  (\<^verbatim>\<open>src/rust/otap-dataflow/crates\<close>; paths below are relative to it). The engine runs pipelines of
  nodes on single-threaded cores. Nodes exchange data over bounded channels and are steered by
  control channels; a processor may keep work for later in a local scheduler; every core reports
  its lifecycle to an observed-state store; and the Quiver crate buffers data on disk and tracks
  which subscriber has dealt with which part of it.

  \<^bold>\<open>Conventions.\<close> A struct is a record, an enum a datatype, a \<^verbatim>\<open>Result\<close> a sum whose left side is the
  error, and a method takes the state and returns it updated. A panic, a failed assertion or a
  failed \<^verbatim>\<open>expect\<close> is the result \<^term>\<open>None\<close>. Words are kept at their width where they wrap or are
  serialised; counters that only saturate are natural numbers with the saturation written out
  (\<open>sat_add\<close>). Reading the clock is an argument, waking a task is naming it, a failing file
  operation is an argument, a hash map is an association list in iteration order, and a binary
  heap of the standard library a sorted list, which fixes an order of equal elements. Histories
  are lists of calls or inductive reachability predicates over them.

  \<^bold>\<open>Prelude.\<close> Machine integers, runs of an operation over a list of calls, and the locales
  \<open>step_system\<close>, \<open>fifo_system\<close> and \<open>counting_system\<close>, which lift a law of one call to histories.

  \<^bold>\<open>Control channel\<close> (\<^verbatim>\<open>control-channel/src\<close>).
  \<^item> \<open>Control_Types\<close> models \<^verbatim>\<open>types.rs\<close>, \<open>Control_Core\<close> the state machine \<^verbatim>\<open>Inner\<close> of \<^verbatim>\<open>core.rs\<close>
    method by method. \<open>Control_Core_Laws\<close> shows its invariant, that completions are neither lost
    nor reordered and are accounted for after a forced shutdown, that normal events wait for a
    bounded number of completions only, that an accepted shutdown is delivered, and that nothing
    happens after it.
  \<^item> \<open>Control_Waiters\<close> models \<^verbatim>\<open>SenderWaiters\<close> of \<^verbatim>\<open>channel.rs\<close> with its compaction and counters and
    shows that it refines a queue; \<open>Control_Channel\<close> models the senders, the receiver and
    \<^verbatim>\<open>SendFuture::poll\<close>. \<open>Control_Channel_Laws\<close> shows, for any number of concurrent sends, that a
    queued send is never left beside a free slot unless a woken send was dropped (and that this
    exception occurs), that the receiver is notified, and that polls end. A poll has two rounds:
    the second follows a sleep that is over, which forces the shutdown, so it is the last.

  \<^bold>\<open>Data channel\<close> (\<^verbatim>\<open>channel/src/mpsc.rs\<close>, \<^verbatim>\<open>error.rs\<close>). \<open>Waiter_Spec\<close> states the contract of
  blocked senders as the locales \<open>waiter_queue\<close>, \<open>reserving_waiters\<close>, \<open>waiter_line\<close> and
  \<open>batch_waiters\<close>. \<open>Mpsc_Waiters\<close> models the waiters of the data channel and interprets the first
  three; \<open>Control_Waiters\<close> interprets the fourth. \<open>Mpsc_Channel\<close> models the channel and shows that
  its capacity is respected, values arrive once and in order, and no wakeup is lost.

  \<^bold>\<open>Processor-local scheduler\<close> (\<^verbatim>\<open>engine/src/indexed_min_heap.rs\<close>, \<^verbatim>\<open>node_local_scheduler.rs\<close>).
  \<open>Indexed_Min_Heap\<close> refines the contract \<open>keyed_min_queue\<close>; \<open>Node_Local_Scheduler\<close> uses only that
  contract to show that payloads are conserved, the earliest due message comes first and the
  capacities hold.

  \<^bold>\<open>Observed state\<close> (\<^verbatim>\<open>state/src\<close>, with \<^verbatim>\<open>telemetry/src/event.rs\<close>, \<^verbatim>\<open>config/src/lib.rs\<close>,
  \<^verbatim>\<open>node.rs\<close> and \<^verbatim>\<open>health.rs\<close>). \<open>Pipeline_Events\<close> and \<open>Pipeline_Phase\<close> hold the vocabulary;
  \<open>Pipeline_Runtime\<close> the lifecycle of \<^verbatim>\<open>pipeline_rt_status.rs\<close>, which \<open>Pipeline_Runtime_Laws\<close>
  compares with an abstract diagram; \<open>Pipeline_Status\<close> the aggregation of \<^verbatim>\<open>pipeline_status.rs\<close>,
  whose laws say which instances count; \<open>State_Store\<close> the store and its collection loop, round by
  round beside the threads that send to it. Its laws say that each instance follows its own
  events, that the loop reports what it takes and loses nothing, and that it ends when cancelled.

  \<^bold>\<open>Quiver subscribers\<close> (\<^verbatim>\<open>quiver/src/subscriber\<close>).
  \<^item> \<open>Quiver_Types\<close> models \<^verbatim>\<open>types.rs\<close> and \<^verbatim>\<open>error.rs\<close>; \<open>Byte_Codec\<close> and \<open>Quiver_Progress\<close> the byte
    format of \<^verbatim>\<open>progress.rs\<close> with its round trip; \<open>Quiver_Files\<close> the file operations on a disk that
    may crash, and \<open>Quiver_Files_Laws\<close> that an update is atomic. The checksum is a parameter.
  \<^item> \<open>Quiver_Subscriber\<close> models \<^verbatim>\<open>state.rs\<close>; its laws interpret the contract \<open>bundle_tracker\<close> and
    refine the state to plain sets of bundles.
  \<^item> \<open>Quiver_Registry\<close> models \<^verbatim>\<open>registry.rs\<close> and \<^verbatim>\<open>handle.rs\<close>, and the boundary that \<^verbatim>\<open>engine.rs\<close>
    cleans up to. Each call is one step: a claim that falls between the survey and the completion
    of a forced drop, which the code does under separate locks, and overlapping flushes are not
    represented. A crash keeps either all visible or all stable directory entries.
    \<open>Quiver_Registry_Laws\<close> and \<open>Quiver_System\<close> show what histories of calls,
    failures, crashes and restarts preserve. These histories have segments of at most 65,536
    bundles: beyond that the reader refuses what the writer wrote, which is shown as well. What
    the registry asks of the segment store is the parameter \<open>segment_provider\<close>.
  \<^item> \<open>Quiver_Retention\<close> models the deletion of segments (\<^verbatim>\<open>cleanup_completed_segments\<close> of
    \<^verbatim>\<open>engine.rs\<close>, \<^verbatim>\<open>delete_segment\<close> of \<^verbatim>\<open>segment_store.rs\<close>) and shows that clean-up deletes exactly
    what every subscriber is done with, and which segment the drop-oldest policy gives up.

  \<^bold>\<open>Not modelled.\<close> The waiting loop of \<^verbatim>\<open>next_bundle\<close>, which repeats the modelled
  \<^verbatim>\<open>poll_next_bundle\<close>; the segment files, the write-ahead log and most of the engine of Quiver, whose
  data are encoded Arrow batches and memory-mapped files; the MPMC channel; the tasks, topics and
  memory limiter of the engine, which depend on the tokio runtime and on atomics; the
  configuration language, the metrics and the tracing; the transformations of Arrow and protobuf
  data; all receivers, processors and exporters; the query engine; the administration interface;
  and the Go implementation. Reference counting, locks and their poisoning, formatting and
  serialisation to JSON are left out of the modelled parts.
\<close>

end
